(* ===== verification/Prelude.thy ===== *)
theory Prelude
  imports Main "HOL-Library.Word" "HOL-Library.List_Lexorder" "HOL-Library.Char_ord"
    "HOL-Library.Product_Lexorder" "HOL-Library.Multiset"
begin

text \<open>
  Shared vocabulary of the development: the Rust integer widths, fixed-size byte arrays
  \<open>[u8; N]\<close> as a type indexed by its length, little-endian byte strings, strings as byte
  strings, the incremental hasher, \<open>Result\<close>, \<open>Reverse\<close> and \<open>Iterator::min\<close>, and the
  generic lemmas on lists and words the components share.

  Integers wrap around, as they do in the release build the Dockerfile ships
  (\<^verbatim>\<open>cargo build --release\<close>, no profile override in Cargo.toml).
\<close>

named_theorems le_bytes \<open>lengths and injectivity of little-endian encodings\<close>

section \<open>Integers and results\<close>

type_synonym u8 = "8 word"
type_synonym u16 = "16 word"
type_synonym u32 = "32 word"
type_synonym u64 = "64 word"
type_synonym u128 = "128 word"
type_synonym bytes = "u8 list"

abbreviation Ok :: "'a \<Rightarrow> 'e + 'a" where "Ok \<equiv> Inr"
abbreviation Err :: "'e \<Rightarrow> 'e + 'a" where "Err \<equiv> Inl"

abbreviation u64_MAX :: u64 where "u64_MAX \<equiv> - 1"
abbreviation u16_MAX :: u16 where "u16_MAX \<equiv> - 1"

text \<open>\<open>xs.len() as u64\<close>\<close>

abbreviation len64 :: "'a list \<Rightarrow> u64" where "len64 xs \<equiv> word_of_nat (length xs)"

lemma unat_of_nat64: "n < 2 ^ 64 \<Longrightarrow> unat (word_of_nat n :: u64) = n"
  by (simp add: unat_of_nat)

lemma unat_len64: "length xs < 2 ^ 64 \<Longrightarrow> unat (len64 xs) = length xs"
  by (rule unat_of_nat64)

lemma word_of_nat_eq_iff64:
  "m < 2 ^ 64 \<Longrightarrow> n < 2 ^ 64 \<Longrightarrow> (word_of_nat m = (word_of_nat n :: u64)) = (m = n)"
  by (metis unat_of_nat64)

lemma word_of_nat_less_iff64:
  "m < 2 ^ 64 \<Longrightarrow> n < 2 ^ 64 \<Longrightarrow> (word_of_nat m < (word_of_nat n :: u64)) = (m < n)"
  by (simp add: word_less_nat_alt unat_of_nat64)

lemma unat_add_no_overflow64:
  fixes a b :: u64
  assumes "unat a + unat b < 2 ^ 64"
  shows "unat (a + b) = unat a + unat b"
  using assms by (simp add: unat_word_ariths)

lemma unat_Suc64:
  fixes a :: u64
  assumes "Suc (unat a) < 2 ^ 64"
  shows "unat (a + 1) = Suc (unat a)"
  using assms unat_add_no_overflow64 [of a 1] by simp

text \<open>\<open>Result\<close>'s \<open>?\<close>: an error leaves the function, a value is handed to the rest of it.\<close>

definition try_bind :: "'e + 'a \<Rightarrow> ('a \<Rightarrow> 'e + 'b) \<Rightarrow> 'e + 'b" where
  "try_bind r f = (case r of Err e \<Rightarrow> Err e | Ok a \<Rightarrow> f a)"

lemma try_bind_simps [simp]:
  "try_bind (Err e) f = Err e"
  "try_bind (Ok a) f = f a"
  by (simp_all add: try_bind_def)

lemma try_bind_Ok_iff: "try_bind r f = Ok b \<longleftrightarrow> (\<exists>a. r = Ok a \<and> f a = Ok b)"
  by (cases r) auto

lemma try_bind_Err_iff: "try_bind r f = Err e \<longleftrightarrow> r = Err e \<or> (\<exists>a. r = Ok a \<and> f a = Err e)"
  by (cases r) auto

text \<open>\<open>Result::map_err\<close>\<close>

definition map_err :: "('e \<Rightarrow> 'f) \<Rightarrow> 'e + 'a \<Rightarrow> 'f + 'a" where
  "map_err f r = (case r of Err e \<Rightarrow> Err (f e) | Ok a \<Rightarrow> Ok a)"

lemma map_err_simps [simp]:
  "map_err f (Err e) = Err (f e)"
  "map_err f (Ok a) = Ok a"
  by (simp_all add: map_err_def)

lemma map_err_Ok_iff [simp]: "map_err f r = Ok a \<longleftrightarrow> r = Ok a"
  by (cases r) auto

text \<open>\<open>Option::ok_or\<close>\<close>

definition ok_or :: "'e \<Rightarrow> 'a option \<Rightarrow> 'e + 'a" where
  "ok_or e v = (case v of None \<Rightarrow> Err e | Some a \<Rightarrow> Ok a)"

lemma ok_or_simps [simp]:
  "ok_or e None = Err e"
  "ok_or e (Some a) = Ok a"
  by (simp_all add: ok_or_def)

section \<open>Fixed-size byte arrays\<close>

text \<open>
  \<open>[u8; N]\<close> is the type \<open>N array\<close>: the byte lists of length \<open>N\<close>. Rust derives its order
  lexicographically from the bytes.
\<close>

typedef (overloaded) ('n::len) array = "{bs :: bytes. length bs = LENGTH('n)}"
  morphisms array_bytes Abs_array
  by (rule exI [of _ "replicate LENGTH('n) 0"]) simp

lemma length_array_bytes [simp, le_bytes]: "length (array_bytes (a :: 'n::len array)) = LENGTH('n)"
  using array_bytes [of a] by simp

lemma array_bytes_inject_iff [simp]: "array_bytes a = array_bytes b \<longleftrightarrow> a = b"
  by (rule array_bytes_inject)

text \<open>The bytes as an array, cut or padded with zeros to the array's length.\<close>

definition array_of_bytes :: "bytes \<Rightarrow> ('n::len) array" where
  "array_of_bytes bs = Abs_array (take LENGTH('n) (bs @ replicate LENGTH('n) 0))"

lemma array_bytes_of_bytes:
  "length bs = LENGTH('n::len) \<Longrightarrow> array_bytes (array_of_bytes bs :: 'n array) = bs"
  by (simp add: array_of_bytes_def Abs_array_inverse)

lemma array_of_array_bytes [simp]: "array_of_bytes (array_bytes a) = a"
  by (simp add: array_of_bytes_def array_bytes_inverse)

lemma array_of_bytes_eq_iff:
  "length xs = LENGTH('n::len) \<Longrightarrow> length ys = LENGTH('n) \<Longrightarrow>
     (array_of_bytes xs = (array_of_bytes ys :: 'n array)) = (xs = ys)"
  by (metis array_bytes_of_bytes)

text \<open>The array expression \<open>[b; N]\<close>.\<close>

definition array_repeat :: "u8 \<Rightarrow> ('n::len) array" where
  "array_repeat b = array_of_bytes (replicate LENGTH('n) b)"

lemma array_bytes_repeat [simp]:
  "array_bytes (array_repeat b :: 'n::len array) = replicate LENGTH('n) b"
  by (simp add: array_repeat_def array_bytes_of_bytes)

lemma array_repeat_inject [simp]: "array_repeat a = (array_repeat b :: 'n::len array) \<longleftrightarrow> a = b"
  by (simp add: array_repeat_def array_of_bytes_eq_iff)

text \<open>\<open><[u8; N]>::try_from(slice)\<close>\<close>

definition array_try_from :: "bytes \<Rightarrow> ('n::len) array option" where
  "array_try_from bs = (if length bs = LENGTH('n) then Some (array_of_bytes bs) else None)"

lemma array_try_from_array_bytes [simp]: "array_try_from (array_bytes a) = Some a"
  by (simp add: array_try_from_def)

lemma array_try_from_Some:
  "array_try_from bs = Some (a :: 'n::len array) \<longleftrightarrow> bs = array_bytes a"
  by (auto simp: array_try_from_def array_bytes_of_bytes)

instantiation array :: (len) linorder
begin

definition less_eq_array :: "'a array \<Rightarrow> 'a array \<Rightarrow> bool" where
  "less_eq_array a b \<longleftrightarrow> array_bytes a \<le> array_bytes b"

definition less_array :: "'a array \<Rightarrow> 'a array \<Rightarrow> bool" where
  "less_array a b \<longleftrightarrow> array_bytes a < array_bytes b"

instance
proof
  fix x y z :: "'a array"
  show "(x < y) = (x \<le> y \<and> \<not> y \<le> x)"
    unfolding less_eq_array_def less_array_def by (rule less_le_not_le)
  show "x \<le> x"
    by (simp add: less_eq_array_def)
  show "x \<le> y \<Longrightarrow> y \<le> z \<Longrightarrow> x \<le> z"
    unfolding less_eq_array_def by (rule order_trans)
  show "x \<le> y \<Longrightarrow> y \<le> x \<Longrightarrow> x = y"
    by (simp add: less_eq_array_def flip: array_bytes_inject_iff)
  show "x \<le> y \<or> y \<le> x"
    unfolding less_eq_array_def by (rule linear)
qed

end

section \<open>Little-endian encodings\<close>

text \<open>\<open>to_le_bytes\<close> and \<open>from_le_bytes\<close> of the unsigned integers.\<close>

definition to_le_bytes :: "'a::len word \<Rightarrow> bytes" where
  "to_le_bytes w = map (\<lambda>i. ucast (drop_bit (8 * i) w)) [0..<LENGTH('a) div 8]"

fun from_le_bytes :: "bytes \<Rightarrow> 'a::len word" where
  "from_le_bytes [] = 0"
| "from_le_bytes (b # bs) = or (ucast b) (push_bit 8 (from_le_bytes bs))"

lemma length_to_le_bytes [simp, le_bytes]:
  "length (to_le_bytes (w :: 'a::len word)) = LENGTH('a) div 8"
  by (simp add: to_le_bytes_def)

lemma bit_from_le_bytes:
  "bit (from_le_bytes bs :: 'a::len word) n \<longleftrightarrow>
     n < LENGTH('a) \<and> n div 8 < length bs \<and> bit (bs ! (n div 8)) (n mod 8)"
proof (induction bs arbitrary: n)
  case Nil
  then show ?case by simp
next
  case (Cons b bs)
  show ?case
  proof (cases "n < 8")
    case True
    then show ?thesis
      by (auto simp: bit_simps)
  next
    case False
    then obtain m where n: "n = m + 8"
      by (metis add.commute le_Suc_ex not_less)
    have "\<not> bit b (m + 8)" and "(m + 8) div 8 = Suc (m div 8)"
      using bit_imp_le_length [of b "m + 8"] by auto
    then show ?thesis
      by (auto simp: n bit_simps Cons.IH)
  qed
qed

lemma from_le_bytes_to_le_bytes:
  fixes w :: "'a::len word"
  assumes "8 dvd LENGTH('a)"
  shows "from_le_bytes (to_le_bytes w) = w"
proof (rule bit_word_eqI)
  fix n
  assume n: "n < LENGTH('a)"
  from assms n have "n div 8 < LENGTH('a) div 8"
    by (auto elim!: dvdE)
  then show "bit (from_le_bytes (to_le_bytes w) :: 'a word) n = bit w n"
    using n by (simp add: bit_from_le_bytes to_le_bytes_def bit_simps)
qed

lemma to_le_bytes_from_le_bytes:
  assumes "8 dvd LENGTH('a::len)" "length bs = LENGTH('a) div 8"
  shows "to_le_bytes (from_le_bytes bs :: 'a word) = bs"
proof (rule nth_equalityI)
  show "length (to_le_bytes (from_le_bytes bs :: 'a word)) = length bs"
    using assms(2) by simp
next
  fix i
  assume "i < length (to_le_bytes (from_le_bytes bs :: 'a word))"
  then have i: "i < LENGTH('a) div 8" by simp
  show "to_le_bytes (from_le_bytes bs :: 'a word) ! i = bs ! i"
  proof (rule bit_word_eqI)
    fix n
    assume "n < LENGTH(8)"
    then have "n < 8" by simp
    moreover from this i assms(1) have "8 * i + n < LENGTH('a)"
      by (auto elim!: dvdE)
    ultimately show "bit (to_le_bytes (from_le_bytes bs :: 'a word) ! i) n = bit (bs ! i) n"
      using i assms(2) by (simp add: to_le_bytes_def bit_simps bit_from_le_bytes)
  qed
qed

lemma to_le_bytes_inject [le_bytes]:
  fixes v w :: "'a::len word"
  assumes "8 dvd LENGTH('a)"
  shows "to_le_bytes v = to_le_bytes w \<longleftrightarrow> v = w"
  by (metis assms from_le_bytes_to_le_bytes)

lemma from_le_bytes_u64 [simp]: "from_le_bytes (to_le_bytes (w :: u64)) = w"
  by (rule from_le_bytes_to_le_bytes) simp

lemma to_le_bytes_inject_width [simp]:
  "to_le_bytes (a :: u64) = to_le_bytes b \<longleftrightarrow> a = b"
  "to_le_bytes (c :: u16) = to_le_bytes d \<longleftrightarrow> c = d"
  "to_le_bytes (e :: u128) = to_le_bytes f \<longleftrightarrow> e = f"
  by (simp_all add: le_bytes)

section \<open>Strings\<close>

text \<open>
  A Rust \<open>String\<close> is its UTF-8 bytes; a \<^typ>\<open>char\<close> of HOL is one byte, so
  \<^typ>\<open>string\<close> is that byte string and its length is \<open>len()\<close>. The derived order is the
  lexicographic order of the bytes, which is HOL's order on \<^typ>\<open>string\<close>.
\<close>

definition byte_of_char :: "char \<Rightarrow> u8" where
  "byte_of_char c = word_of_nat (of_char c)"

definition as_bytes :: "string \<Rightarrow> bytes" where
  "as_bytes s = map byte_of_char s"

lemma length_as_bytes [simp, le_bytes]: "length (as_bytes s) = length s"
  by (simp add: as_bytes_def)

lemma inj_byte_of_char: "inj byte_of_char"
proof (rule injI)
  fix c d
  assume "byte_of_char c = byte_of_char d"
  then have "unat (byte_of_char c) = unat (byte_of_char d)"
    by simp
  moreover have "unat (byte_of_char e) = of_char e" for e
    using of_char_of [of "of_char e"] by (simp add: byte_of_char_def unat_of_nat)
  ultimately show "c = d" by simp
qed

lemma as_bytes_inject [simp]: "as_bytes s = as_bytes t \<longleftrightarrow> s = t"
  by (simp add: as_bytes_def inj_map_eq_map inj_byte_of_char)

text \<open>\<open>{}\<close> of an unsigned integer: its decimal digits.\<close>

definition digit_char :: "nat \<Rightarrow> char" where
  "digit_char d = char_of (48 + d)"

fun show_nat :: "nat \<Rightarrow> string" where
  "show_nat n = (if n < 10 then [digit_char n] else show_nat (n div 10) @ [digit_char (n mod 10)])"

declare show_nat.simps [simp del]

definition show_u64 :: "u64 \<Rightarrow> string" where
  "show_u64 w = show_nat (unat w)"

section \<open>The incremental hasher\<close>

text \<open>
  \<open>Keccak256\<close> comes from the \<open>sha3\<close> crate. It is a parameter \<open>K\<close> of every definition that
  hashes: a function from byte strings to 32 bytes. What the code relies on is the documented
  contract of \<open>Digest\<close>: \<open>new\<close> starts an empty message, \<open>update\<close> appends to it and
  \<open>finalize\<close> hashes what was appended. No property assumes \<open>K\<close> injective; those that concern
  binding exhibit the collision instead.
\<close>

type_synonym keccak = "bytes \<Rightarrow> 32 array"
type_synonym hasher = bytes

definition hasher_new :: hasher where "hasher_new = []"

definition hasher_update :: "bytes \<Rightarrow> hasher \<Rightarrow> hasher" where
  "hasher_update bs h = h @ bs"

definition hasher_finalize :: "keccak \<Rightarrow> hasher \<Rightarrow> 32 array" where
  "hasher_finalize K h = K h"

lemmas hasher_defs = hasher_new_def hasher_update_def hasher_finalize_def

section \<open>Orders: \<open>Reverse\<close> and \<open>Iterator::min\<close>\<close>

datatype 'a Reverse = Reverse (reverse_of: 'a)

instantiation Reverse :: (linorder) linorder
begin

definition less_eq_Reverse :: "'a Reverse \<Rightarrow> 'a Reverse \<Rightarrow> bool" where
  "less_eq_Reverse x y \<longleftrightarrow> reverse_of y \<le> reverse_of x"

definition less_Reverse :: "'a Reverse \<Rightarrow> 'a Reverse \<Rightarrow> bool" where
  "less_Reverse x y \<longleftrightarrow> reverse_of y < reverse_of x"

instance
  by standard (auto simp: less_eq_Reverse_def less_Reverse_def Reverse.expand)

end

lemma less_Reverse_iff [simp]:
  "Reverse a \<le> Reverse b \<longleftrightarrow> b \<le> a"
  "Reverse a < Reverse b \<longleftrightarrow> b < a"
  by (simp_all add: less_eq_Reverse_def less_Reverse_def)

definition iter_min :: "'a::linorder list \<Rightarrow> 'a option" where
  "iter_min xs = (case xs of [] \<Rightarrow> None | y # ys \<Rightarrow> Some (foldl min y ys))"

lemma foldl_min: "foldl min (y::'a::linorder) ys \<in> set (y # ys) \<and> (\<forall>x\<in>set (y # ys). foldl min y ys \<le> x)"
proof (induction ys arbitrary: y)
  case Nil
  then show ?case by simp
next
  case (Cons z ys)
  from Cons.IH [of "min y z"] show ?case
    by (auto simp: min_def split: if_splits)
qed

lemma iter_min_Nil [simp]: "iter_min [] = None"
  by (simp add: iter_min_def)

lemma iter_min_None [simp]: "iter_min xs = None \<longleftrightarrow> xs = []"
  by (simp add: iter_min_def split: list.split)

lemma iter_min_Some:
  "iter_min xs = Some (m::'a::linorder) \<longleftrightarrow> m \<in> set xs \<and> (\<forall>x\<in>set xs. m \<le> x)"
proof (cases xs)
  case Nil
  then show ?thesis by (simp add: iter_min_def)
next
  case (Cons y ys)
  then show ?thesis
    using foldl_min [of y ys] by (auto simp: iter_min_def intro: antisym)
qed

section \<open>Lists\<close>

lemma mem_map_filter: "y \<in> set (List.map_filter f xs) \<longleftrightarrow> (\<exists>x\<in>set xs. f x = Some y)"
  by (induction xs) (auto simp: map_filter_simps split: option.split)

lemma map_filter_append: "List.map_filter f (xs @ ys) = List.map_filter f xs @ List.map_filter f ys"
  by (induction xs) (simp_all add: map_filter_simps split: option.split)

lemma append_eq_append_iff_length:
  "length xs = length us \<Longrightarrow> xs @ ys = us @ vs \<longleftrightarrow> xs = us \<and> ys = vs"
  by simp

lemma distinct_sub_mset:
  assumes "mset xs \<subseteq># mset ys" "distinct ys"
  shows "distinct xs"
proof -
  obtain C where "mset ys = mset xs + C"
    using assms(1) by (auto simp: mset_subset_eq_exists_conv)
  moreover obtain zs where "C = mset zs"
    by (metis ex_mset)
  ultimately have "mset ys = mset (xs @ zs)"
    by simp
  with assms(2) have "distinct (xs @ zs)"
    by (metis mset_eq_imp_distinct_iff)
  then show ?thesis by simp
qed

lemma map_option_Some_eq: "Some y = map_option f x \<longleftrightarrow> (\<exists>z. x = Some z \<and> f z = y)"
  by (cases x) auto

end
