(* ===== verification/Ordered_Map.thy ===== *)
theory Ordered_Map
  imports Prelude
begin

text \<open>
  The \<open>BTreeMap\<close> operations the ordering policy uses, as association lists kept in strictly
  ascending key order, and the interface the policy's proofs rest on: the locale
  \<open>ordered_map\<close>, interpreted on those lists at the end.
\<close>

section \<open>The interface\<close>

locale ordered_map =
  fixes new :: "'m"
    and get :: "'m \<Rightarrow> 'k::linorder \<Rightarrow> 'v option"
    and ins :: "'k \<Rightarrow> 'v \<Rightarrow> 'm \<Rightarrow> 'm"
    and del :: "'k \<Rightarrow> 'm \<Rightarrow> 'm"
    and upd :: "'k \<Rightarrow> ('v \<Rightarrow> 'v) \<Rightarrow> 'm \<Rightarrow> 'm"
    and map_values :: "('v \<Rightarrow> 'v) \<Rightarrow> 'm \<Rightarrow> 'm"
    and iter :: "'m \<Rightarrow> ('k \<times> 'v) list"
    and ok :: "'m \<Rightarrow> bool"
  assumes ok_new: "ok new"
    and ok_ins: "ok m \<Longrightarrow> ok (ins k v m)"
    and ok_del: "ok m \<Longrightarrow> ok (del k m)"
    and ok_upd: "ok m \<Longrightarrow> ok (upd k f m)"
    and ok_map_values: "ok m \<Longrightarrow> ok (map_values f m)"
    and get_new: "get new = Map.empty"
    and get_ins: "ok m \<Longrightarrow> get (ins k v m) = (get m)(k \<mapsto> v)"
    and get_del: "ok m \<Longrightarrow> get (del k m) = (get m)(k := None)"
    and get_upd: "ok m \<Longrightarrow> get (upd k f m) = (get m)(k := map_option f (get m k))"
    and get_map_values: "ok m \<Longrightarrow> get (map_values f m) = map_option f \<circ> get m"
    and iter_sorted: "ok m \<Longrightarrow> sorted_wrt (<) (map fst (iter m))"
    and iter_get: "ok m \<Longrightarrow> map_of (iter m) = get m"
begin

lemma iter_keys: "ok m \<Longrightarrow> map fst (iter m) = sorted_list_of_set (dom (get m))"
  by (metis iter_get iter_sorted dom_map_of_conv_image_fst list.set_map
      sorted_list_of_set.idem_if_sorted_distinct strict_sorted_iff)

lemma iter_mem: "ok m \<Longrightarrow> (k, v) \<in> set (iter m) \<longleftrightarrow> get m k = Some v"
  by (metis iter_get iter_sorted map_of_eq_Some_iff strict_sorted_iff)

lemma iter_eq: "ok m \<Longrightarrow> iter m = map (\<lambda>k. (k, the (get m k))) (sorted_list_of_set (dom (get m)))"
proof -
  assume ok: "ok m"
  have "map (\<lambda>e. (fst e, the (get m (fst e)))) (iter m) = map id (iter m)"
    using iter_mem [OF ok] by (intro map_cong) auto
  then show ?thesis
    by (simp flip: iter_keys [OF ok] add: comp_def)
qed

lemma finite_dom: "ok m \<Longrightarrow> finite (dom (get m))"
  by (metis iter_get finite_dom_map_of)

end

section \<open>Association lists in key order\<close>

type_synonym ('k, 'v) btree_map = "('k \<times> 'v) list"

definition bt_new :: "('k, 'v) btree_map" where "bt_new = []"

definition bt_get :: "('k, 'v) btree_map \<Rightarrow> 'k \<Rightarrow> 'v option" where
  "bt_get m k = map_of m k"

fun bt_insert :: "'k::linorder \<Rightarrow> 'v \<Rightarrow> ('k, 'v) btree_map \<Rightarrow> ('k, 'v) btree_map" where
  "bt_insert k v [] = [(k, v)]"
| "bt_insert k v ((k', v') # m) =
     (if k < k' then (k, v) # (k', v') # m
      else if k = k' then (k, v) # m
      else (k', v') # bt_insert k v m)"

definition bt_remove :: "'k \<Rightarrow> ('k, 'v) btree_map \<Rightarrow> ('k, 'v) btree_map" where
  "bt_remove k m = filter (\<lambda>e. fst e \<noteq> k) m"

text \<open>\<open>get_mut(k)\<close> followed by a change of the value in place.\<close>

definition bt_update :: "'k \<Rightarrow> ('v \<Rightarrow> 'v) \<Rightarrow> ('k, 'v) btree_map \<Rightarrow> ('k, 'v) btree_map" where
  "bt_update k f m = map (\<lambda>e. (fst e, if fst e = k then f (snd e) else snd e)) m"

definition bt_map_values :: "('v \<Rightarrow> 'v) \<Rightarrow> ('k, 'v) btree_map \<Rightarrow> ('k, 'v) btree_map" where
  "bt_map_values f m = map (\<lambda>e. (fst e, f (snd e))) m"

definition bt_iter :: "('k, 'v) btree_map \<Rightarrow> ('k \<times> 'v) list" where "bt_iter m = m"

definition bt_into_values :: "('k, 'v) btree_map \<Rightarrow> 'v list" where "bt_into_values m = map snd m"

definition bt_ok :: "('k::linorder, 'v) btree_map \<Rightarrow> bool" where
  "bt_ok m \<longleftrightarrow> sorted_wrt (<) (map fst m)"

lemma fst_set_bt_insert: "fst ` set (bt_insert k v m) = insert k (fst ` set m)"
  by (induction m rule: bt_insert.induct) auto

lemma bt_ok_insert: "bt_ok m \<Longrightarrow> bt_ok (bt_insert k v m)"
proof (induction m rule: bt_insert.induct)
  case (1 k v)
  then show ?case by (simp add: bt_ok_def)
next
  case (2 k v k' v' m)
  then show ?case
    using fst_set_bt_insert [of k v m] by (fastforce simp: bt_ok_def)
qed

lemma map_of_bt_insert: "bt_ok m \<Longrightarrow> map_of (bt_insert k v m) = (map_of m)(k \<mapsto> v)"
proof (induction m rule: bt_insert.induct)
  case (1 k v)
  then show ?case by simp
next
  case (2 k v k' v' m)
  then show ?case
    by (fastforce simp: bt_ok_def fun_eq_iff)
qed

lemma map_of_bt_remove: "map_of (bt_remove k m) = (map_of m)(k := None)"
  by (induction m) (auto simp: bt_remove_def fun_eq_iff)

lemma map_of_bt_update:
  "map_of (bt_update k f m) = (map_of m)(k := map_option f (map_of m k))"
  by (induction m) (auto simp: bt_update_def fun_eq_iff)

lemma map_of_bt_map_values: "map_of (bt_map_values f m) = map_option f \<circ> map_of m"
  by (induction m) (auto simp: bt_map_values_def fun_eq_iff)

lemma bt_get_eq: "bt_get m = map_of m"
  by (simp add: bt_get_def fun_eq_iff)

lemma bt_ok_new: "bt_ok bt_new"
  by (simp add: bt_ok_def bt_new_def)

lemma bt_ok_remove: "bt_ok m \<Longrightarrow> bt_ok (bt_remove k m)"
  unfolding bt_ok_def bt_remove_def sorted_wrt_map by (rule sorted_wrt_filter)

lemma bt_ok_map_values: "bt_ok m \<Longrightarrow> bt_ok (bt_map_values f m)"
  by (simp add: bt_ok_def bt_map_values_def comp_def)

lemma bt_ok_update: "bt_ok m \<Longrightarrow> bt_ok (bt_update k f m)"
  by (simp add: bt_ok_def bt_update_def comp_def)

interpretation btree: ordered_map bt_new bt_get bt_insert bt_remove bt_update bt_map_values bt_iter bt_ok
  by unfold_locales
    (simp_all add: bt_ok_new bt_ok_insert bt_ok_remove bt_ok_update bt_ok_map_values bt_get_eq
      map_of_bt_insert map_of_bt_remove map_of_bt_update map_of_bt_map_values,
      simp_all add: bt_new_def bt_iter_def bt_ok_def)

section \<open>\<open>entry(k).or_default().push(p)\<close> and grouping\<close>

definition bt_entry_push ::
    "'k::linorder \<Rightarrow> 'a \<Rightarrow> ('k, 'a list) btree_map \<Rightarrow> ('k, 'a list) btree_map" where
  "bt_entry_push k p m =
     bt_insert k ((case bt_get m k of None \<Rightarrow> [] | Some q \<Rightarrow> q) @ [p]) m"

text \<open>The loop that pushes every element of a list onto the entry of its key.\<close>

definition bt_group :: "('a \<Rightarrow> 'k::linorder) \<Rightarrow> 'a list \<Rightarrow> ('k, 'a list) btree_map" where
  "bt_group key ps = fold (\<lambda>p m. bt_entry_push (key p) p m) ps bt_new"

lemma bt_group_snoc: "bt_group key (ps @ [p]) = bt_entry_push (key p) p (bt_group key ps)"
  by (simp add: bt_group_def)

lemma bt_ok_group: "bt_ok (bt_group key ps)"
  by (induction ps rule: rev_induct)
    (simp_all add: bt_group_snoc bt_entry_push_def btree.ok_ins, simp add: bt_group_def btree.ok_new)

lemma bt_get_group:
  "bt_get (bt_group key ps) k =
     (if filter (\<lambda>p. key p = k) ps = [] then None else Some (filter (\<lambda>p. key p = k) ps))"
proof (induction ps arbitrary: k rule: rev_induct)
  case Nil
  then show ?case by (simp add: bt_group_def btree.get_new)
next
  case (snoc p ps)
  show ?case
    by (auto simp: bt_group_snoc bt_entry_push_def btree.get_ins bt_ok_group snoc.IH)
qed

lemma dom_bt_group: "dom (bt_get (bt_group key ps)) = key ` set ps"
  by (auto simp: dom_def bt_get_group filter_empty_conv)

lemma bt_group_eq:
  "bt_group key ps =
     map (\<lambda>k. (k, filter (\<lambda>p. key p = k) ps)) (sorted_list_of_set (key ` set ps))"
proof -
  have "bt_group key ps = map (\<lambda>k. (k, the (bt_get (bt_group key ps) k)))
      (sorted_list_of_set (key ` set ps))"
    using btree.iter_eq [OF bt_ok_group [of key ps]] by (simp add: bt_iter_def dom_bt_group)
  also have "\<dots> = map (\<lambda>k. (k, filter (\<lambda>p. key p = k) ps)) (sorted_list_of_set (key ` set ps))"
    by (intro map_cong) (auto simp: bt_get_group filter_empty_conv)
  finally show ?thesis .
qed

end
