(* ===== verification/Intent.thy ===== *)
theory Intent
  imports Prelude
begin

text \<open>
  The intent domain and its content-derived identity (\<^verbatim>\<open>src/src/intent.rs\<close>): the newtypes over
  byte arrays with their derived orders, the intent record, the Keccak preimage of an intent id
  and its injectivity, and the fixture \<open>dummy\<close>.
\<close>

section \<open>Data\<close>

datatype address = Address (address_array: "20 array")

datatype side = Buy | Sell

datatype market = Market (market_base: string) (market_quote: string)

datatype intent_id = IntentId (intent_id_array: "32 array")

record intent =
  i_submitter :: address
  i_nonce :: u64
  i_market :: market
  i_side :: side
  i_size :: u128
  i_max_slippage_bps :: u16
  i_priority_fee :: u64
  i_timestamp_ms :: u64
  i_deadline_ms :: u64

text \<open>The derived \<open>Ord\<close> of a newtype is that of its content, of a struct lexicographic.\<close>

instantiation address :: linorder
begin

definition less_eq_address :: "address \<Rightarrow> address \<Rightarrow> bool" where
  "less_eq_address a b \<longleftrightarrow> address_array a \<le> address_array b"

definition less_address :: "address \<Rightarrow> address \<Rightarrow> bool" where
  "less_address a b \<longleftrightarrow> address_array a < address_array b"

instance
  by standard (auto simp: less_eq_address_def less_address_def address.expand)

end

instantiation intent_id :: linorder
begin

definition less_eq_intent_id :: "intent_id \<Rightarrow> intent_id \<Rightarrow> bool" where
  "less_eq_intent_id a b \<longleftrightarrow> intent_id_array a \<le> intent_id_array b"

definition less_intent_id :: "intent_id \<Rightarrow> intent_id \<Rightarrow> bool" where
  "less_intent_id a b \<longleftrightarrow> intent_id_array a < intent_id_array b"

instance
  by standard (auto simp: less_eq_intent_id_def less_intent_id_def intent_id.expand)

end

instantiation market :: linorder
begin

definition less_eq_market :: "market \<Rightarrow> market \<Rightarrow> bool" where
  "less_eq_market a b \<longleftrightarrow>
     (market_base a, market_quote a) \<le> (market_base b, market_quote b)"

definition less_market :: "market \<Rightarrow> market \<Rightarrow> bool" where
  "less_market a b \<longleftrightarrow> (market_base a, market_quote a) < (market_base b, market_quote b)"

instance
  by standard (auto simp: less_eq_market_def less_market_def market.expand)

end

text \<open>\<open>IntentId::parse\<close>. The \<open>hex\<close> crate's \<open>decode\<close> is the parameter \<open>unhex\<close>.\<close>

definition intent_id_parse :: "(string \<Rightarrow> bytes option) \<Rightarrow> string \<Rightarrow> intent_id option" where
  "intent_id_parse unhex s =
     (case unhex s of
        None \<Rightarrow> None
      | Some v \<Rightarrow>
          (case array_try_from v of
             None \<Rightarrow> None
           | Some bs \<Rightarrow> Some (IntentId bs)))"

section \<open>The content-derived id\<close>

text \<open>\<open>self.side as u8\<close>\<close>

fun side_as_u8 :: "side \<Rightarrow> u8" where
  "side_as_u8 Buy = 0"
| "side_as_u8 Sell = 1"

definition intent_id_of :: "keccak \<Rightarrow> intent \<Rightarrow> intent_id" where
  "intent_id_of K i =
    (let h = hasher_new;
         h = hasher_update (as_bytes ''INTENT-V1'') h;
         h = hasher_update (array_bytes (address_array (i_submitter i))) h;
         h = hasher_update (to_le_bytes (i_nonce i)) h;
         h = hasher_update (to_le_bytes (len64 (market_base (i_market i)))) h;
         h = hasher_update (as_bytes (market_base (i_market i))) h;
         h = hasher_update (to_le_bytes (len64 (market_quote (i_market i)))) h;
         h = hasher_update (as_bytes (market_quote (i_market i))) h;
         h = hasher_update [side_as_u8 (i_side i)] h;
         h = hasher_update (to_le_bytes (i_size i)) h;
         h = hasher_update (to_le_bytes (i_max_slippage_bps i)) h;
         h = hasher_update (to_le_bytes (i_priority_fee i)) h;
         h = hasher_update (to_le_bytes (i_timestamp_ms i)) h;
         h = hasher_update (to_le_bytes (i_deadline_ms i)) h
     in IntentId (hasher_finalize K h))"

text \<open>The message that ends up in the hasher, a variable-length field after its length.\<close>

definition counted_string :: "string \<Rightarrow> bytes" where
  "counted_string s = to_le_bytes (len64 s) @ as_bytes s"

definition intent_preimage :: "intent \<Rightarrow> bytes" where
  "intent_preimage i =
     as_bytes ''INTENT-V1'' @ array_bytes (address_array (i_submitter i)) @
     to_le_bytes (i_nonce i) @ counted_string (market_base (i_market i)) @
     counted_string (market_quote (i_market i)) @ [side_as_u8 (i_side i)] @
     to_le_bytes (i_size i) @ to_le_bytes (i_max_slippage_bps i) @
     to_le_bytes (i_priority_fee i) @ to_le_bytes (i_timestamp_ms i) @
     to_le_bytes (i_deadline_ms i)"

lemma intent_id_of_eq: "intent_id_of K i = IntentId (K (intent_preimage i))"
  by (simp add: intent_id_of_def intent_preimage_def counted_string_def hasher_defs)

lemma side_as_u8_inject [simp]: "side_as_u8 a = side_as_u8 b \<longleftrightarrow> a = b"
  by (cases a; cases b) simp_all

text \<open>A counted string is a prefix code: it ends where its count says.\<close>

lemma counted_string_append_inject:
  assumes "length s < 2 ^ 64" "length t < 2 ^ 64"
  shows "counted_string s @ xs = counted_string t @ ys \<longleftrightarrow> s = t \<and> xs = ys"
proof
  assume "counted_string s @ xs = counted_string t @ ys"
  then have "len64 s = len64 t" and rest: "as_bytes s @ xs = as_bytes t @ ys"
    by (simp_all add: counted_string_def)
  then have "length s = length t"
    using assms by (simp add: word_of_nat_eq_iff64)
  with rest show "s = t \<and> xs = ys" by simp
qed simp

lemma counted_string_inject:
  "length s < 2 ^ 64 \<Longrightarrow> length t < 2 ^ 64 \<Longrightarrow> counted_string s = counted_string t \<longleftrightarrow> s = t"
  using counted_string_append_inject [of s t "[]" "[]"] by simp

text \<open>A Rust string is shorter than \<open>2^64\<close> bytes.\<close>

definition market_fits :: "market \<Rightarrow> bool" where
  "market_fits m \<longleftrightarrow> length (market_base m) < 2 ^ 64 \<and> length (market_quote m) < 2 ^ 64"

lemma intent_preimage_inject:
  assumes "market_fits (i_market i)" "market_fits (i_market j)"
  shows "intent_preimage i = intent_preimage j \<longleftrightarrow> i = j"
  using assms
  by (cases i; cases j)
    (auto simp: intent_preimage_def market_fits_def counted_string_append_inject
      counted_string_inject intro: address.expand market.expand)

section \<open>The fixture \<open>dummy\<close>\<close>

definition TEST_NOW :: u64 where "TEST_NOW = 1700000000000"

definition dummy :: "u64 \<Rightarrow> intent" where
  "dummy n =
     \<lparr>i_submitter = Address (array_repeat (ucast n)),
      i_nonce = n,
      i_market = Market ''ETH'' ''USDC'',
      i_side = Buy,
      i_size = 1000000000000000000,
      i_max_slippage_bps = 50,
      i_priority_fee = 0,
      i_timestamp_ms = TEST_NOW + n,
      i_deadline_ms = TEST_NOW + 60000 + n\<rparr>"

lemma dummy_simps [simp]:
  "i_submitter (dummy n) = Address (array_repeat (ucast n))"
  "i_nonce (dummy n) = n"
  "i_market (dummy n) = Market ''ETH'' ''USDC''"
  "i_side (dummy n) = Buy"
  "i_size (dummy n) = 1000000000000000000"
  "i_max_slippage_bps (dummy n) = 50"
  "i_priority_fee (dummy n) = 0"
  "i_timestamp_ms (dummy n) = TEST_NOW + n"
  "i_deadline_ms (dummy n) = TEST_NOW + 60000 + n"
  by (simp_all add: dummy_def)

lemma dummy_inject [simp]: "dummy m = dummy n \<longleftrightarrow> m = n"
  by (metis dummy_simps(2))

lemma market_fits_dummy [simp]: "market_fits (i_market (dummy n))"
  by (simp add: market_fits_def)

end
