(* ===== verification/Log_Entry.thy ===== *)
theory Log_Entry
  imports Intent
begin

text \<open>
  The values the log carries (\<^verbatim>\<open>src/src/log.rs\<close>, top): positions, signatures, commitments and
  the entry type, with the proof handle of \<^verbatim>\<open>src/src/prove/mod.rs\<close> that one of the entries
  holds; and lists numbered by position, which is what reading the log yields.
\<close>

section \<open>Positions\<close>

datatype position = Position (position_index: u64)

instantiation position :: linorder
begin

definition less_eq_position :: "position \<Rightarrow> position \<Rightarrow> bool" where
  "less_eq_position a b \<longleftrightarrow> position_index a \<le> position_index b"

definition less_position :: "position \<Rightarrow> position \<Rightarrow> bool" where
  "less_position a b \<longleftrightarrow> position_index a < position_index b"

instance
  by standard (auto simp: less_eq_position_def less_position_def position.expand)

end

lemma less_Position_iff [simp]:
  "Position a \<le> Position b \<longleftrightarrow> a \<le> b"
  "Position a < Position b \<longleftrightarrow> a < b"
  by (simp_all add: less_eq_position_def less_position_def)

definition position_ZERO :: position where "position_ZERO = Position 0"

definition position_next :: "position \<Rightarrow> position" where
  "position_next p = Position (position_index p + 1)"

text \<open>\<open>Position(n as u64)\<close> for a \<open>usize\<close>, and the offset a position stands for.\<close>

definition position_of :: "nat \<Rightarrow> position" where
  "position_of n = Position (word_of_nat n)"

definition offset :: "position \<Rightarrow> nat" where
  "offset p = unat (position_index p)"

lemma offset_ZERO [simp]: "offset position_ZERO = 0"
  by (simp add: offset_def position_ZERO_def)

lemma position_of_0: "position_of 0 = position_ZERO"
  by (simp add: position_of_def position_ZERO_def)

lemma position_next_of [simp]: "position_next (position_of n) = position_of (Suc n)"
  by (simp add: position_next_def position_of_def)

lemma offset_position_of [simp]: "n < 2 ^ 64 \<Longrightarrow> offset (position_of n) = n"
  by (simp add: offset_def position_of_def unat_of_nat64)

lemma position_of_offset [simp]: "position_of (offset p) = p"
  by (cases p) (simp add: offset_def position_of_def)

lemma offset_less: "offset p < 2 ^ 64"
  using unsigned_less [of "position_index p"] by (simp add: offset_def)

lemma position_of_less_iff [simp]:
  "m < 2 ^ 64 \<Longrightarrow> n < 2 ^ 64 \<Longrightarrow> position_of m < position_of n \<longleftrightarrow> m < n"
  by (simp add: position_of_def word_of_nat_less_iff64)

lemma position_of_eq_iff [simp]:
  "m < 2 ^ 64 \<Longrightarrow> n < 2 ^ 64 \<Longrightarrow> position_of m = position_of n \<longleftrightarrow> m = n"
  by (metis offset_position_of)

lemma position_less_offset: "p < q \<longleftrightarrow> offset p < offset q"
  by (simp add: less_position_def offset_def word_less_nat_alt)

section \<open>Lists numbered by position\<close>

fun positioned_from :: "nat \<Rightarrow> 'a list \<Rightarrow> (position \<times> 'a) list" where
  "positioned_from n [] = []"
| "positioned_from n (x # xs) = (position_of n, x) # positioned_from (Suc n) xs"

abbreviation positioned :: "'a list \<Rightarrow> (position \<times> 'a) list" where
  "positioned xs \<equiv> positioned_from 0 xs"

lemma length_positioned_from [simp]: "length (positioned_from n xs) = length xs"
  by (induction n xs rule: positioned_from.induct) simp_all

lemma positioned_from_append:
  "positioned_from n (xs @ ys) = positioned_from n xs @ positioned_from (n + length xs) ys"
  by (induction n xs rule: positioned_from.induct) simp_all

lemma drop_positioned_from:
  "drop k (positioned_from n xs) = positioned_from (n + k) (drop k xs)"
  by (induction n xs arbitrary: k rule: positioned_from.induct)
    (auto simp: drop_Cons split: nat.split)

lemma map_snd_positioned_from [simp]: "map snd (positioned_from n xs) = xs"
  by (induction n xs rule: positioned_from.induct) simp_all

lemma nth_positioned_from:
  "i < length xs \<Longrightarrow> positioned_from n xs ! i = (position_of (n + i), xs ! i)"
  by (induction n xs arbitrary: i rule: positioned_from.induct)
    (auto simp: nth_Cons split: nat.split)

lemma set_positioned_from:
  "set (positioned_from n xs) = {(position_of (n + i), xs ! i) |i. i < length xs}"
  by (auto simp: set_conv_nth nth_positioned_from) (metis nth_positioned_from)

section \<open>Signatures, commitments, proof handles\<close>

datatype signature = Signature (signature_array: "32 array")

datatype commitment = Commitment (commitment_array: "32 array")

definition mock_over :: "keccak \<Rightarrow> bytes \<Rightarrow> signature" where
  "mock_over K bs =
    (let h = hasher_new;
         h = hasher_update (as_bytes ''MOCKSIG'') h;
         h = hasher_update bs h
     in Signature (hasher_finalize K h))"

datatype backend = Mock

fun backend_as_str :: "backend \<Rightarrow> string" where
  "backend_as_str Mock = ''mock''"

record proof_handle =
  ph_backend :: backend
  ph_proof :: bytes
  ph_public_inputs :: bytes
  ph_vkey_hash :: "32 array"

section \<open>Entries\<close>

datatype entry =
    IntentReceived intent_id intent u64
      \<comment> \<open>\<open>intent_id\<close>, \<open>intent\<close>, \<open>received_at\<close>\<close>
  | IntentExpired intent_id u64 u64
      \<comment> \<open>\<open>intent_id\<close>, \<open>guarantee_deadline_ms\<close>, \<open>at_ms\<close>\<close>
  | SlotCommitted u64 "intent_id list" position commitment u64
      \<comment> \<open>\<open>slot\<close>, \<open>intents\<close>, \<open>consumed_up_to\<close>, \<open>commitment\<close>, \<open>committed_at_ms\<close>\<close>
  | SlotAttested u64 bytes signature
      \<comment> \<open>\<open>slot\<close>, \<open>quote\<close>, \<open>signature\<close>\<close>
  | AttestFailed u64 string
      \<comment> \<open>\<open>slot\<close>, \<open>reason\<close>\<close>
  | SlotsProven u64 u64 proof_handle
      \<comment> \<open>\<open>from_slot\<close>, \<open>to_slot\<close>, \<open>proof\<close>\<close>
  | ProveFailed u64 u64 string
      \<comment> \<open>\<open>from_slot\<close>, \<open>to_slot\<close>, \<open>reason\<close>\<close>

datatype log_error =
    Io string
  | Encode string
  | Decode position
  | EmptyBatch

end
