(* ===== verification/Guarantee.thy ===== *)
theory Guarantee
  imports Prelude
begin

text \<open>
  The inclusion guarantee's configuration (\<open>GuaranteeConfig\<close> of \<^verbatim>\<open>src/src/sequencer.rs\<close>) and the
  part of \<open>std::time::Duration\<close> it uses, with the bounds that decide when its arithmetic is
  exact.
\<close>

text \<open>A \<open>Duration\<close> is whole seconds and fewer than \<open>10^9\<close> nanoseconds.\<close>

record duration =
  dur_secs :: u64
  dur_nanos :: u32

definition duration_ok :: "duration \<Rightarrow> bool" where
  "duration_ok d \<longleftrightarrow> dur_nanos d < 1000000000"

definition duration_zero :: duration where
  "duration_zero = \<lparr>dur_secs = 0, dur_nanos = 0\<rparr>"

definition from_millis :: "u64 \<Rightarrow> duration" where
  "from_millis ms =
     \<lparr>dur_secs = ms div 1000, dur_nanos = ucast (ms mod 1000) * 1000000\<rparr>"

definition as_millis :: "duration \<Rightarrow> u128" where
  "as_millis d = ucast (dur_secs d) * 1000 + ucast (dur_nanos d div 1000000)"

lemma unat_dur_secs_less: "unat (dur_secs d) < 2 ^ 64"
  using unsigned_less [of "dur_secs d"] by simp

lemma unat_as_millis:
  "unat (as_millis d) = unat (dur_secs d) * 1000 + unat (dur_nanos d) div 1000000"
proof -
  have n: "unat (dur_nanos d) < 2 ^ 32"
    using unsigned_less [of "dur_nanos d"] by simp
  have "unat (dur_secs d) * 1000 + unat (dur_nanos d) div 1000000 < 2 ^ 64 * 1000 + 2 ^ 32"
    using unat_dur_secs_less [of d] n by simp
  then have "unat (dur_secs d) * 1000 + unat (dur_nanos d) div 1000000 < 2 ^ 128"
    by simp
  moreover from n have "unat (dur_nanos d) div 1000000 < 2 ^ 32"
    by simp
  ultimately show ?thesis
    by (simp add: as_millis_def unat_word_ariths unsigned_ucast_eq take_bit_eq_mod unat_div mod_simps)
qed

lemma unat_from_millis_nanos: "unat (dur_nanos (from_millis ms)) = unat ms mod 1000 * 1000000"
proof -
  have "unat ms mod 1000 * 1000000 < 2 ^ 32"
    by (rule le_less_trans [of _ "999 * 1000000"]) simp_all
  then show ?thesis
    by (simp add: from_millis_def unat_word_ariths unsigned_ucast_eq take_bit_eq_mod mod_simps)
qed

lemma from_millis_ok: "duration_ok (from_millis ms)"
  by (simp add: duration_ok_def word_less_nat_alt unat_from_millis_nanos)

lemma as_millis_from_millis: "unat (as_millis (from_millis ms)) = unat ms"
  by (simp add: unat_as_millis unat_from_millis_nanos) (simp add: from_millis_def unat_div)

record guarantee_config =
  g_slot_duration :: duration
  g_max_slots :: u32

definition guarantee_default :: guarantee_config where
  "guarantee_default = \<lparr>g_slot_duration = duration_zero, g_max_slots = 0\<rparr>"

definition window_size :: "guarantee_config \<Rightarrow> u64" where
  "window_size g = ucast (as_millis (g_slot_duration g) * ucast (g_max_slots g))"

definition deadline_for :: "guarantee_config \<Rightarrow> u64 \<Rightarrow> u64" where
  "deadline_for g now_ms = now_ms + window_size g"

text \<open>
  The product is taken in \<open>u128\<close>, where it is exact for every \<open>Duration\<close> and \<open>u32\<close>; the cast to
  \<open>u64\<close> keeps its low 64 bits, and adding \<open>now_ms\<close> wraps.
\<close>

lemma unat_slots_times_millis:
  "unat (as_millis d * ucast (s :: u32)) = unat (as_millis d) * unat s"
proof -
  have "unat (dur_nanos d) < 2 ^ 32" "unat s < 2 ^ 32"
    using unsigned_less [of "dur_nanos d"] unsigned_less [of s] by simp_all
  moreover from this have "unat (as_millis d) \<le> 2 ^ 64 * 1000 + 2 ^ 32"
    using unat_dur_secs_less [of d] by (simp add: unat_as_millis)
  ultimately have "unat (as_millis d) * unat s \<le> (2 ^ 64 * 1000 + 2 ^ 32) * 2 ^ 32"
    by (intro mult_le_mono) simp_all
  also have "\<dots> < (2 ^ 128 :: nat)"
    by simp
  finally show ?thesis
    by (simp add: unat_word_ariths unsigned_ucast_eq take_bit_eq_mod mod_simps)
qed

lemma unat_window_size:
  "unat (window_size g) =
     unat (as_millis (g_slot_duration g)) * unat (g_max_slots g) mod 2 ^ 64"
  by (simp add: window_size_def unsigned_ucast_eq take_bit_eq_mod unat_slots_times_millis)

text \<open>No wrap-around: the window fits \<open>u64\<close> and the clock plus the window does.\<close>

definition window_fits :: "guarantee_config \<Rightarrow> u64 \<Rightarrow> bool" where
  "window_fits g now_ms \<longleftrightarrow> unat now_ms + unat (window_size g) < 2 ^ 64"

lemma unat_deadline_for:
  "window_fits g now_ms \<Longrightarrow> unat (deadline_for g now_ms) = unat now_ms + unat (window_size g)"
  by (simp add: window_fits_def deadline_for_def unat_add_no_overflow64)

lemma deadline_for_le_iff:
  "window_fits g a \<Longrightarrow> window_fits g b \<Longrightarrow> deadline_for g a \<le> deadline_for g b \<longleftrightarrow> a \<le> b"
  by (simp add: word_le_nat_alt unat_deadline_for)

lemma deadline_for_ge: "window_fits g now_ms \<Longrightarrow> now_ms \<le> deadline_for g now_ms"
  by (simp add: word_le_nat_alt unat_deadline_for)

end
