(* ===== verification/Ordering_Policy.thy ===== *)
theory Ordering_Policy
  imports Ordering
begin

text \<open>
  Correctness of the ordering. The merge loop is read as the relation \<open>merged\<close> on queues; from
  it follow the per-submitter order, the permutation property and, where no submitter reuses a
  nonce, the refinement of the abstract policy \<open>policy_order\<close>, which leaves no freedom and so
  gives determinism under permutation of the buffer.
\<close>

section \<open>The heads of the queues\<close>

definition queue_of :: "queues \<Rightarrow> address \<Rightarrow> pending list" where
  "queue_of qs a = (case bt_get qs a of None \<Rightarrow> [] | Some q \<Rightarrow> q)"

lemma mem_queue_heads:
  assumes "bt_ok qs"
  shows "(r, a) \<in> set (queue_heads qs) \<longleftrightarrow> (\<exists>p q. r = rank p \<and> bt_get qs a = Some (p # q))"
proof -
  have "(r, a) \<in> set (queue_heads qs) \<longleftrightarrow>
      (\<exists>b q. (b, q) \<in> set (bt_iter qs) \<and> (case q of [] \<Rightarrow> None | p # _ \<Rightarrow> Some (rank p, b)) = Some (r, a))"
    by (simp add: queue_heads_def mem_map_filter Bex_def)
  also have "\<dots> \<longleftrightarrow> (\<exists>p q. r = rank p \<and> (a, p # q) \<in> set (bt_iter qs))"
    by (force split: list.split_asm)
  finally show ?thesis
    by (simp add: btree.iter_mem [OF assms])
qed

lemma queue_head_mem:
  "bt_ok qs \<Longrightarrow> (r, a) \<in> set (queue_heads qs) \<longleftrightarrow> (\<exists>p q. r = rank p \<and> queue_of qs a = p # q)"
  by (auto simp: mem_queue_heads queue_of_def split: option.splits)

lemma queue_of_pop:
  assumes "bt_ok qs" "bt_get qs addr = Some (p # q)"
  shows "queue_of (pop_queue addr q qs) = (queue_of qs)(addr := q)"
  using assms
  by (auto simp: fun_eq_iff queue_of_def pop_queue_def Let_def btree.get_upd btree.get_del
      btree.ok_upd)

lemma bt_ok_pop: "bt_ok qs \<Longrightarrow> bt_ok (pop_queue addr q qs)"
  by (simp add: pop_queue_def Let_def btree.ok_upd btree.ok_del)

section \<open>The loop as a relation\<close>

text \<open>
  \<open>merged Q xs\<close>: taking the least head over and over, from queues \<open>Q\<close> until they are empty,
  takes \<open>xs\<close>.
\<close>

definition least_head :: "(address \<Rightarrow> pending list) \<Rightarrow> address \<Rightarrow> pending \<Rightarrow> bool" where
  "least_head Q a p \<longleftrightarrow>
     (\<exists>q. Q a = p # q) \<and> (\<forall>b p' q'. Q b = p' # q' \<longrightarrow> (rank p, a) \<le> (rank p', b))"

inductive merged :: "(address \<Rightarrow> pending list) \<Rightarrow> pending list \<Rightarrow> bool" where
  merged_Nil: "\<forall>a. Q a = [] \<Longrightarrow> merged Q []"
| merged_Cons: "least_head Q a p \<Longrightarrow> merged (Q(a := tl (Q a))) xs \<Longrightarrow> merged Q (p # xs)"

inductive_cases merged_NilE: "merged Q []"
inductive_cases merged_ConsE: "merged Q (p # xs)"

lemma least_head_iter_min:
  assumes "bt_ok qs" "iter_min (queue_heads qs) = Some (r, a)"
  obtains p q where "bt_get qs a = Some (p # q)" "r = rank p" "least_head (queue_of qs) a p"
proof -
  from assms(2) have mem: "(r, a) \<in> set (queue_heads qs)"
    and le: "\<forall>x\<in>set (queue_heads qs). (r, a) \<le> x"
    by (simp_all add: iter_min_Some)
  from mem obtain p q where pq: "bt_get qs a = Some (p # q)" "r = rank p"
    using assms(1) by (auto simp: mem_queue_heads)
  moreover have "least_head (queue_of qs) a p"
    unfolding least_head_def using pq le queue_head_mem [OF assms(1)]
    by (fastforce simp: queue_of_def)
  ultimately show thesis by (rule that)
qed

lemma iter_min_None_empty:
  assumes "bt_ok qs" "iter_min (queue_heads qs) = None"
  shows "queue_of qs a = []"
proof (rule ccontr)
  assume "queue_of qs a \<noteq> []"
  then obtain p q where "queue_of qs a = p # q"
    by (cases "queue_of qs a") auto
  then have "(rank p, a) \<in> set (queue_heads qs)"
    using queue_head_mem [OF assms(1)] by blast
  with assms(2) show False by simp
qed

lemma merge_loop_merged:
  "bt_ok qs \<Longrightarrow> \<exists>xs. merge_loop qs out = Some (out @ map p_id xs) \<and> merged (queue_of qs) xs"
proof (induction qs out rule: merge_loop.induct)
  case (1 qs out)
  show ?case
  proof (cases "iter_min (queue_heads qs)")
    case None
    then have "merge_loop qs out = Some (out @ map p_id [])"
      by (simp add: merge_loop.simps [of qs out])
    moreover have "merged (queue_of qs) []"
      using iter_min_None_empty [OF "1.prems" None] by (intro merged_Nil) blast
    ultimately show ?thesis by blast
  next
    case (Some m)
    obtain r a where m: "m = (r, a)" by (cases m)
    with "1.prems" Some obtain p q where get: "bt_get qs a = Some (p # q)"
      and least: "least_head (queue_of qs) a p"
      by (blast elim: least_head_iter_min)
    from "1.IH" [OF Some [unfolded m] refl get refl] bt_ok_pop [OF "1.prems"]
    obtain xs where xs: "merge_loop (pop_queue a q qs) (out @ [p_id p])
        = Some ((out @ [p_id p]) @ map p_id xs)" "merged (queue_of (pop_queue a q qs)) xs"
      by blast
    have "merge_loop qs out = Some (out @ map p_id (p # xs))"
      using Some get xs(1) by (simp add: merge_loop.simps [of qs out] m)
    moreover have "merged (queue_of qs) (p # xs)"
      using xs(2) queue_of_pop [OF "1.prems" get] get
      by (intro merged_Cons [OF least]) (simp add: queue_of_def)
    ultimately show ?thesis by blast
  qed
qed

section \<open>The initial queues\<close>

lemma bt_ok_submitter_queues: "bt_ok (submitter_queues ps)"
  by (simp add: submitter_queues_def btree.ok_map_values bt_ok_group)

lemma queue_of_submitter_queues:
  "queue_of (submitter_queues ps) a = sort_key p_nonce (filter (\<lambda>p. p_submitter p = a) ps)"
  by (simp add: queue_of_def submitter_queues_def btree.get_map_values bt_ok_group bt_get_group)

definition domain_order :: "pending list \<Rightarrow> pending list \<Rightarrow> bool" where
  "domain_order ps xs \<longleftrightarrow>
     merged (\<lambda>a. sort_key p_nonce (filter (\<lambda>p. p_submitter p = a) ps)) xs"

lemma order_domain_checked_Some:
  "\<exists>xs. order_domain_checked ps = Some (map p_id xs) \<and> domain_order ps xs"
proof -
  have "queue_of (submitter_queues ps) =
      (\<lambda>a. sort_key p_nonce (filter (\<lambda>p. p_submitter p = a) ps))"
    by (simp add: fun_eq_iff queue_of_submitter_queues)
  with merge_loop_merged [OF bt_ok_submitter_queues, of ps "[]"] show ?thesis
    by (simp add: order_domain_checked_def domain_order_def)
qed

lemma order_domain_obtains:
  obtains xs where "order_domain ps = map p_id xs" "domain_order ps xs"
  using order_domain_checked_Some [of ps] by (auto simp: order_domain_def)

section \<open>What the relation says of the result\<close>

text \<open>Each submitter's intents come out in the order of its queue.\<close>

lemma merged_filter:
  assumes "merged Q xs" "\<And>a p. p \<in> set (Q a) \<Longrightarrow> p_submitter p = a"
  shows "filter (\<lambda>p. p_submitter p = a) xs = Q a"
  using assms
proof (induction Q xs rule: merged.induct)
  case (merged_Nil Q)
  then show ?case by simp
next
  case (merged_Cons Q b p xs)
  from merged_Cons.hyps(1) obtain q where Q: "Q b = p # q"
    by (auto simp: least_head_def)
  have "filter (\<lambda>p. p_submitter p = a) xs = (Q(b := tl (Q b))) a"
    using merged_Cons.prems Q
    by (intro merged_Cons.IH) (metis fun_upd_apply list.sel(3) list.set_intros(2))
  moreover have "p_submitter p = b"
    using Q merged_Cons.prems by force
  ultimately show ?case
    using Q by auto
qed

lemma domain_order_filter:
  "domain_order ps xs \<Longrightarrow>
     filter (\<lambda>p. p_submitter p = a) xs = sort_key p_nonce (filter (\<lambda>p. p_submitter p = a) ps)"
  unfolding domain_order_def by (rule merged_filter) auto

lemma mset_eq_by_classes:
  assumes "\<And>a. mset (filter (\<lambda>p. f p = a) xs) = mset (filter (\<lambda>p. f p = a) ys)"
  shows "mset xs = mset ys"
proof (rule multiset_eqI)
  fix p
  have "count (mset xs) p = count (mset (filter (\<lambda>q. f q = f p) xs)) p"
    and "count (mset ys) p = count (mset (filter (\<lambda>q. f q = f p) ys)) p"
    by simp_all
  then show "count (mset xs) p = count (mset ys) p"
    by (simp only: assms)
qed

lemma domain_order_mset: "domain_order ps xs \<Longrightarrow> mset xs = mset ps"
  by (rule mset_eq_by_classes [where f = p_submitter]) (simp add: domain_order_filter)

lemma mset_order_domain: "mset (order_domain ps) = image_mset p_id (mset ps)"
proof -
  obtain xs where "order_domain ps = map p_id xs" "domain_order ps xs"
    by (rule order_domain_obtains)
  then show ?thesis
    using domain_order_mset [of ps xs] by (metis mset_map)
qed

section \<open>The abstract policy\<close>

text \<open>
  Of a collection \<open>R\<close> of intents still to be placed, an intent is ready when no intent of its
  submitter has a lower nonce; the policy places the ready intent of the least rank, and so on
  until none is left.
\<close>

definition ready :: "pending multiset \<Rightarrow> pending \<Rightarrow> bool" where
  "ready R p \<longleftrightarrow>
     p \<in># R \<and> (\<forall>q\<in>#R. p_submitter q = p_submitter p \<longrightarrow> p_nonce p \<le> p_nonce q)"

definition place :: "pending \<Rightarrow> (u64 Reverse \<times> u64 \<times> intent_id) \<times> address" where
  "place p = (rank p, p_submitter p)"

definition policy_next :: "pending multiset \<Rightarrow> pending \<Rightarrow> bool" where
  "policy_next R p \<longleftrightarrow>
     ready R p \<and> (\<forall>q. ready R q \<longrightarrow> place p \<le> place q)"

inductive policy_order :: "pending multiset \<Rightarrow> pending list \<Rightarrow> bool" where
  policy_Nil: "policy_order {#} []"
| policy_Cons: "policy_next R p \<Longrightarrow> policy_order (R - {#p#}) xs \<Longrightarrow> policy_order R (p # xs)"

inductive_cases policy_order_ConsE: "policy_order R (p # xs)"

text \<open>No submitter uses a nonce twice.\<close>

definition nonce_key :: "pending \<Rightarrow> address \<times> u64" where
  "nonce_key p = (p_submitter p, p_nonce p)"

lemma policy_next_unique:
  assumes "inj_on nonce_key (set_mset R)" "policy_next R p" "policy_next R q"
  shows "p = q"
proof -
  have ready: "ready R p" "ready R q" and "place p = place q"
    using assms(2,3) by (auto simp: policy_next_def intro: antisym)
  then have "p_submitter p = p_submitter q"
    by (simp add: place_def)
  moreover from this ready have "p_nonce p = p_nonce q"
    by (auto simp: ready_def intro: antisym)
  ultimately show ?thesis
    using assms(1) ready by (auto simp: ready_def nonce_key_def inj_on_def)
qed

lemma policy_order_mset: "policy_order R xs \<Longrightarrow> mset xs = R"
  by (induction rule: policy_order.induct) (auto simp: policy_next_def ready_def)

lemma policy_order_unique:
  "policy_order R xs \<Longrightarrow> policy_order R ys \<Longrightarrow> inj_on nonce_key (set_mset R) \<Longrightarrow> xs = ys"
proof (induction arbitrary: ys rule: policy_order.induct)
  case policy_Nil
  then show ?case using policy_order_mset by fastforce
next
  case (policy_Cons R p xs)
  from policy_order_mset [OF policy_Cons.prems(1)] policy_Cons.hyps(1)
  obtain q zs where ys: "ys = q # zs"
    by (cases ys) (auto simp: policy_next_def ready_def)
  with policy_Cons.prems(1) have next_q: "policy_next R q" and zs: "policy_order (R - {#q#}) zs"
    by (auto elim: policy_order_ConsE)
  have "q = p"
    using policy_Cons.prems(2) next_q policy_Cons.hyps(1) by (rule policy_next_unique)
  moreover have "inj_on nonce_key (set_mset (R - {#p#}))"
    using policy_Cons.prems(2) by (rule inj_on_subset) (auto dest: in_diffD)
  ultimately show ?case
    using zs policy_Cons.IH ys by simp
qed

text \<open>The merge of strictly nonce-ordered queues follows the policy.\<close>

lemma merged_policy:
  assumes "merged Q xs" "\<And>a p. p \<in> set (Q a) \<Longrightarrow> p_submitter p = a"
    and "\<And>a. sorted_wrt (\<lambda>p q. p_nonce p < p_nonce q) (Q a)"
  shows "policy_order (mset xs) xs"
  using assms
proof (induction Q xs rule: merged.induct)
  case (merged_Nil Q)
  show ?case by (simp add: policy_Nil)
next
  case (merged_Cons Q b p xs)
  let ?R = "mset (p # xs)"
  from merged_Cons.hyps(1) obtain q where Qb: "Q b = p # q"
    and least: "\<And>c p' q'. Q c = p' # q' \<Longrightarrow> (rank p, b) \<le> (rank p', c)"
    by (auto simp: least_head_def)
  have filt: "filter (\<lambda>r. p_submitter r = a) (p # xs) = Q a" for a
    using merged.merged_Cons [OF merged_Cons.hyps(1,2)] merged_Cons.prems(1)
    by (rule merged_filter)
  have mem: "r \<in># ?R \<longleftrightarrow> r \<in> set (Q (p_submitter r))" for r
    using arg_cong [where f = "\<lambda>ys. r \<in> set ys", OF filt [of "p_submitter r"]]
    by (simp only: set_filter mem_Collect_eq set_mset_mset simp_thms)
  have p: "p_submitter p = b"
    using Qb merged_Cons.prems(1) by force
  have "p_nonce p \<le> p_nonce r" if "r \<in># ?R" "p_submitter r = b" for r
  proof -
    from that have "r \<in> set (p # q)"
      using mem [of r] Qb by simp
    then show ?thesis
      using merged_Cons.prems(2) [of b] by (auto simp: Qb)
  qed
  then have "ready ?R p"
    by (simp add: ready_def p)
  moreover have "place p \<le> place r" if r: "ready ?R r" for r
  proof -
    from r have "r \<in> set (Q (p_submitter r))"
      using mem by (simp add: ready_def)
    then obtain h t where Qr: "Q (p_submitter r) = h # t" and "r \<in> set (h # t)"
      by (cases "Q (p_submitter r)") auto
    have "r = h"
    proof (rule ccontr)
      assume "r \<noteq> h"
      with \<open>r \<in> set (h # t)\<close> have "p_nonce h < p_nonce r"
        using merged_Cons.prems(2) [of "p_submitter r"] by (auto simp: Qr)
      moreover have "p_submitter h = p_submitter r"
        using Qr merged_Cons.prems(1) by force
      moreover have "h \<in># ?R"
        using Qr calculation(2) mem by simp
      ultimately show False
        using r by (auto simp: ready_def)
    qed
    with least [OF Qr] p show ?thesis by (simp only: place_def)
  qed
  ultimately have "policy_next ?R p"
    by (simp add: policy_next_def)
  moreover have "policy_order (mset xs) xs"
  proof (rule merged_Cons.IH)
    show "p_submitter r = a" if "r \<in> set ((Q(b := tl (Q b))) a)" for a r
      using that Qb merged_Cons.prems(1) by (metis fun_upd_apply list.sel(3) list.set_intros(2))
    show "sorted_wrt (\<lambda>p q. p_nonce p < p_nonce q) ((Q(b := tl (Q b))) a)" for a
      using merged_Cons.prems(2) [of a] Qb by auto
  qed
  ultimately show ?case
    by (auto intro: policy_Cons)
qed

lemma domain_order_policy:
  assumes "domain_order ps xs" "distinct (map nonce_key ps)"
  shows "policy_order (mset ps) xs"
proof -
  have "sorted_wrt (\<lambda>p q. p_nonce p < p_nonce q)
      (sort_key p_nonce (filter (\<lambda>p. p_submitter p = a) ps))" for a
  proof -
    let ?q = "sort_key p_nonce (filter (\<lambda>p. p_submitter p = a) ps)"
    have "distinct (map nonce_key (filter (\<lambda>p. p_submitter p = a) ps))"
      using assms(2) by (simp add: distinct_map_filter)
    then have "distinct (map p_nonce (filter (\<lambda>p. p_submitter p = a) ps))"
      by (auto simp: distinct_map inj_on_def nonce_key_def)
    then have "distinct (map p_nonce ?q)"
      by (metis mset_map mset_eq_imp_distinct_iff mset_sort)
    then show ?thesis
      by (simp add: strict_sorted_iff flip: sorted_wrt_map)
  qed
  then have "policy_order (mset xs) xs"
    using assms(1) unfolding domain_order_def by (intro merged_policy) auto
  then show ?thesis
    using domain_order_mset [OF assms(1)] by simp
qed

lemma order_domain_policy:
  assumes "distinct (map nonce_key ps)"
  obtains xs where "order_domain ps = map p_id xs" "policy_order (mset ps) xs"
  using order_domain_obtains [of ps] domain_order_policy [OF _ assms] by metis

lemma inj_on_nonce_key: "distinct (map nonce_key ps) \<Longrightarrow> inj_on nonce_key (set_mset (mset ps))"
  by (simp add: distinct_map)

lemma order_domain_perm:
  assumes "mset ps = mset qs" "distinct (map nonce_key ps)"
  shows "order_domain ps = order_domain qs"
proof -
  have "distinct (map nonce_key qs)"
    using assms by (metis mset_map mset_eq_imp_distinct_iff)
  then obtain xs ys where "order_domain ps = map p_id xs" "policy_order (mset ps) xs"
    "order_domain qs = map p_id ys" "policy_order (mset qs) ys"
    using assms(2) by (metis order_domain_policy)
  moreover from this have "xs = ys"
    using policy_order_unique inj_on_nonce_key [OF assms(2)] assms(1) by metis
  ultimately show ?thesis by simp
qed

text \<open>With one intent per submitter the nonces are idle and the domain is sorted by rank.\<close>

lemma policy_order_sorted:
  "policy_order R xs \<Longrightarrow> inj_on p_submitter (set_mset R) \<Longrightarrow> distinct xs \<Longrightarrow> sorted (map rank xs)"
proof (induction rule: policy_order.induct)
  case policy_Nil
  then show ?case by simp
next
  case (policy_Cons R p xs)
  then have xs: "mset xs = R - {#p#}"
    by (simp add: policy_order_mset)
  have inR: "r \<in># R" if "r \<in> set xs" for r
    using that xs by (metis in_diffD set_mset_mset)
  have "rank p \<le> rank r" if r: "r \<in> set xs" for r
  proof -
    have "ready R r"
      using inR [OF r] policy_Cons.prems(1) by (auto simp: ready_def inj_on_def)
    then show ?thesis
      using policy_Cons.hyps(1) by (auto simp: policy_next_def place_def)
  qed
  moreover have "inj_on p_submitter (set_mset (R - {#p#}))"
    using policy_Cons.prems(1) by (rule inj_on_subset) (auto dest: in_diffD)
  ultimately show ?case
    using policy_Cons.IH policy_Cons.prems(2) by simp
qed

section \<open>Slots\<close>

definition in_market :: "market \<Rightarrow> pending list \<Rightarrow> pending list" where
  "in_market m ps = filter (\<lambda>p. p_market p = m) ps"

definition markets :: "pending list \<Rightarrow> market list" where
  "markets ps = sorted_list_of_set (p_market ` set ps)"

lemma order_slot_eq: "order_slot ps = concat (map (\<lambda>m. order_domain (in_market m ps)) (markets ps))"
  by (simp add: order_slot_def bt_into_values_def bt_group_eq in_market_def markets_def comp_def)

text \<open>The slot as a list of intents: the domains in market order, each as the merge left it.\<close>

definition slot_order :: "pending list \<Rightarrow> pending list \<Rightarrow> bool" where
  "slot_order ps xs \<longleftrightarrow>
     (\<exists>f. (\<forall>m. domain_order (in_market m ps) (f m)) \<and> xs = concat (map f (markets ps)))"

lemma order_slot_obtains:
  obtains xs where "order_slot ps = map p_id xs" "slot_order ps xs"
proof -
  have "\<forall>m. \<exists>xs. order_domain (in_market m ps) = map p_id xs \<and> domain_order (in_market m ps) xs"
    by (metis order_domain_obtains)
  then obtain f where "\<forall>m. order_domain (in_market m ps) = map p_id (f m)"
    and "\<forall>m. domain_order (in_market m ps) (f m)"
    by metis
  then have "order_slot ps = map p_id (concat (map f (markets ps)))"
    and "slot_order ps (concat (map f (markets ps)))"
    by (auto simp: order_slot_eq slot_order_def map_concat comp_def)
  then show thesis by (rule that)
qed

lemma domain_order_market:
  "domain_order (in_market m ps) xs \<Longrightarrow> x \<in> set xs \<Longrightarrow> p_market x = m"
  by (drule domain_order_mset, drule arg_cong [where f = set_mset]) (auto simp: in_market_def)

lemma filter_concat_distinct:
  assumes "distinct ms" "\<And>k x. x \<in> set (f k) \<Longrightarrow> g x = k"
  shows "filter (\<lambda>x. g x = m) (concat (map f ms)) = (if m \<in> set ms then f m else [])"
  using assms(1)
proof (induction ms)
  case Nil
  then show ?case by simp
next
  case (Cons k ms)
  have "filter (\<lambda>x. g x = m) (f k) = (if k = m then f k else [])"
    using assms(2) [of _ k] by (auto simp: filter_empty_conv filter_id_conv)
  with Cons show ?case by auto
qed

lemma sorted_concat_map:
  assumes "sorted ms" "\<And>k x. x \<in> set (f k) \<Longrightarrow> g x = k"
  shows "sorted (map g (concat (map f ms)))"
  using assms(1)
proof (induction ms)
  case Nil
  then show ?case by simp
next
  case (Cons k ms)
  have "sorted (map g ys)" if "\<And>x. x \<in> set ys \<Longrightarrow> g x = k" for ys
    using that by (induction ys) auto
  then have "sorted (map g (f k))"
    using assms(2) by blast
  with Cons assms(2) show ?case
    by (auto simp: sorted_append)
qed

lemma markets_simps [simp]: "sorted (markets ps)" "distinct (markets ps)"
  "set (markets ps) = p_market ` set ps"
  by (simp_all add: markets_def)

lemma slot_order_in_market:
  assumes "slot_order ps xs"
  shows "domain_order (in_market m ps) (in_market m xs)"
proof -
  obtain f where f: "\<And>m. domain_order (in_market m ps) (f m)" "xs = concat (map f (markets ps))"
    using assms by (auto simp: slot_order_def)
  have "in_market m xs = (if m \<in> set (markets ps) then f m else [])"
    unfolding f(2) in_market_def using domain_order_market [OF f(1)]
    by (intro filter_concat_distinct) simp_all
  moreover have "f m = []" if "m \<notin> set (markets ps)"
  proof -
    have "in_market m ps = []"
      using that by (auto simp: in_market_def filter_empty_conv)
    then show ?thesis
      using domain_order_mset [OF f(1) [of m]] by simp
  qed
  ultimately show ?thesis
    using f(1) [of m] by (auto split: if_splits)
qed

lemma slot_order_sorted: "slot_order ps xs \<Longrightarrow> sorted (map p_market xs)"
proof -
  assume "slot_order ps xs"
  then obtain f where f: "\<And>m. domain_order (in_market m ps) (f m)" "xs = concat (map f (markets ps))"
    by (auto simp: slot_order_def)
  show ?thesis
    unfolding f(2) using domain_order_market [OF f(1)] by (intro sorted_concat_map) simp_all
qed

lemma slot_order_mset:
  assumes "slot_order ps xs"
  shows "mset xs = mset ps"
proof (rule mset_eq_by_classes [where f = p_market])
  show "mset (filter (\<lambda>p. p_market p = m) xs) = mset (filter (\<lambda>p. p_market p = m) ps)" for m
    using domain_order_mset [OF slot_order_in_market [OF assms, of m]] by (simp only: in_market_def)
qed

lemma mset_order_slot: "mset (order_slot ps) = image_mset p_id (mset ps)"
proof -
  obtain xs where "order_slot ps = map p_id xs" "slot_order ps xs"
    by (rule order_slot_obtains)
  then show ?thesis
    using slot_order_mset [of ps xs] by (metis mset_map)
qed

lemma set_order_slot: "set (order_slot ps) = p_id ` set ps"
  using arg_cong [OF mset_order_slot, of set_mset ps] by simp

lemma length_order_slot: "length (order_slot ps) = length ps"
  using arg_cong [OF mset_order_slot, of size ps] by simp

text \<open>No submitter reuses a nonce within a market.\<close>

definition slot_key :: "pending \<Rightarrow> market \<times> address \<times> u64" where
  "slot_key p = (p_market p, p_submitter p, p_nonce p)"

lemma distinct_nonce_key_in_market:
  "distinct (map slot_key ps) \<Longrightarrow> distinct (map nonce_key (in_market m ps))"
  by (auto simp: in_market_def distinct_map inj_on_def slot_key_def nonce_key_def)

lemma slot_order_policy:
  assumes "slot_order ps xs" "distinct (map slot_key ps)"
  shows "policy_order (mset (in_market m ps)) (in_market m xs)"
  using slot_order_in_market [OF assms(1)] distinct_nonce_key_in_market [OF assms(2)]
  by (rule domain_order_policy)

lemma order_slot_perm:
  assumes "mset ps = mset qs" "distinct (map slot_key ps)"
  shows "order_slot ps = order_slot qs"
proof -
  have "markets ps = markets qs"
    unfolding markets_def mset_eq_setD [OF assms(1)] by (rule refl)
  moreover have "order_domain (in_market m ps) = order_domain (in_market m qs)" for m
  proof (rule order_domain_perm)
    show "mset (in_market m ps) = mset (in_market m qs)"
      unfolding in_market_def mset_filter assms(1) by (rule refl)
  qed (rule distinct_nonce_key_in_market [OF assms(2)])
  ultimately show ?thesis
    by (simp add: order_slot_eq)
qed

section \<open>Slot close\<close>

lemma partition_expired_eq:
  "partition_expired buffer now_ms g =
     (filter (\<lambda>p. now_ms \<le> deadline_for g (p_received_at p)) buffer,
      map (\<lambda>p. (p_id p, deadline_for g (p_received_at p)))
        (filter (\<lambda>p. deadline_for g (p_received_at p) < now_ms) buffer))"
  by (induction buffer) (auto simp: Let_def)

section \<open>The commitment\<close>

definition commit_preimage :: "u64 \<Rightarrow> intent_id list \<Rightarrow> bytes" where
  "commit_preimage slot intents =
     to_le_bytes slot @ to_le_bytes (len64 intents) @
     concat (map (\<lambda>i. array_bytes (intent_id_array i)) intents)"

lemma fold_hasher_update:
  "fold (\<lambda>x h. hasher_update (f x) h) xs h = h @ concat (map f xs)"
  by (induction xs arbitrary: h) (simp_all add: hasher_update_def)

lemma commit_eq: "commit K slot intents = Commitment (K (commit_preimage slot intents))"
  by (simp add: commit_def fold_hasher_update) (simp add: commit_preimage_def hasher_defs)

lemma concat_id_bytes_inject:
  "length is = length js \<Longrightarrow>
     concat (map (\<lambda>i. array_bytes (intent_id_array i)) is) =
     concat (map (\<lambda>i. array_bytes (intent_id_array i)) js) \<longleftrightarrow> is = js"
  by (induction "is" js rule: list_induct2) (auto intro: intent_id.expand)

lemma commit_preimage_inject:
  assumes "length is < 2 ^ 64" "length js < 2 ^ 64"
  shows "commit_preimage s is = commit_preimage t js \<longleftrightarrow> s = t \<and> is = js"
proof
  assume eq: "commit_preimage s is = commit_preimage t js"
  then have "len64 is = len64 js"
    by (simp add: commit_preimage_def)
  then have "length is = length js"
    using assms by (simp add: word_of_nat_eq_iff64)
  with eq show "s = t \<and> is = js"
    by (simp add: commit_preimage_def concat_id_bytes_inject)
qed simp

end
