(* ===== verification/Ordering_Properties.thy ===== *)
theory Ordering_Properties
  imports Ordering_Policy
begin

text \<open>
  The properties of the sequencing policy and of the two content-derived hashes it rests on, with
  the concrete intents their witnesses use.
\<close>

section \<open>Concrete intents\<close>

text \<open>Two submitters in one market, and the first of them again with its next nonce.\<close>

definition sample_a :: pending where
  "sample_a = pending_new (IntentId (array_repeat 1)) (dummy 1) 5"

definition sample_b :: pending where
  "sample_b = pending_new (IntentId (array_repeat 2)) (dummy 2) 6"

definition sample_a2 :: pending where
  "sample_a2 = pending_new (IntentId (array_repeat 3)) ((dummy 1)\<lparr>i_nonce := 2\<rparr>) 4"

lemmas sample_defs = sample_a_def sample_b_def sample_a2_def

lemma sample_distinct:
  "distinct (map slot_key [sample_b, sample_a2, sample_a])"
  "distinct (map p_submitter [sample_b, sample_a])"
  "distinct (map p_id [sample_b, sample_a])"
  by (simp_all add: sample_defs slot_key_def)

section \<open>Properties\<close>

text \<open>
  C31: Merging one ordering domain never reaches either of the two \<open>expect\<close> panics: a ranked head
  always belongs to a queue that exists and is not empty, whatever the buffer holds.
\<close>

theorem order_domain_no_panic: "order_domain_checked ps \<noteq> None"
  using order_domain_checked_Some [of ps] by auto

text \<open>
  C14: The slot is a permutation of the buffer with the submitters' nonces in order: it lists every
  buffered intent exactly once, markets in ascending order, and within a market the intents of
  each submitter by ascending nonce.
\<close>

theorem order_slot_fair:
  "\<exists>xs. order_slot ps = map p_id xs \<and> mset xs = mset ps \<and> sorted (map p_market xs) \<and>
     (\<forall>m s. sorted (map p_nonce (filter (\<lambda>p. p_market p = m \<and> p_submitter p = s) xs)))"
proof -
  obtain xs where xs: "order_slot ps = map p_id xs" "slot_order ps xs"
    by (rule order_slot_obtains)
  have "filter (\<lambda>p. p_market p = m \<and> p_submitter p = s) xs =
      filter (\<lambda>p. p_submitter p = s) (in_market m xs)" for m s
    by (simp add: in_market_def conj_commute)
  then have "sorted (map p_nonce (filter (\<lambda>p. p_market p = m \<and> p_submitter p = s) xs))" for m s
    using domain_order_filter [OF slot_order_in_market [OF xs(2)]] by simp
  with xs slot_order_mset slot_order_sorted show ?thesis by blast
qed

text \<open>
  C6: Refinement of the abstract policy. When no submitter reuses a nonce within a market, the
  part of the slot in each market is the run of \<open>policy_order\<close>: it repeatedly places, among the
  intents whose submitter has no lower nonce waiting, the one of highest fee, then earliest
  arrival, then lowest id.
\<close>

theorem order_slot_refines_policy:
  assumes "distinct (map slot_key ps)"
  shows "\<exists>xs. order_slot ps = map p_id xs \<and> mset xs = mset ps \<and> sorted (map p_market xs) \<and>
    (\<forall>m. policy_order (mset (in_market m ps)) (in_market m xs))"
proof -
  obtain xs where "order_slot ps = map p_id xs" "slot_order ps xs"
    by (rule order_slot_obtains)
  with slot_order_policy [OF _ assms] slot_order_mset slot_order_sorted show ?thesis by blast
qed

theorem order_slot_refines_policy_witness:
  "\<exists>xs. order_slot [sample_b, sample_a2, sample_a] = map p_id xs \<and>
     mset xs = mset [sample_b, sample_a2, sample_a] \<and> sorted (map p_market xs) \<and>
     (\<forall>m. policy_order (mset (in_market m [sample_b, sample_a2, sample_a])) (in_market m xs))"
  by (rule order_slot_refines_policy [OF sample_distinct(1)])

text \<open>
  C30: Determinism. The slot depends only on the set of buffered intents and not on the order in
  which they were buffered, as long as no submitter reuses a nonce within a market.
\<close>

theorem order_slot_deterministic:
  assumes "mset ps = mset qs" "distinct (map slot_key ps)"
  shows "order_slot ps = order_slot qs"
  using assms by (rule order_slot_perm)

theorem order_slot_deterministic_witness:
  "order_slot [sample_b, sample_a2, sample_a] = order_slot [sample_a, sample_a2, sample_b]"
  by (rule order_slot_deterministic [OF _ sample_distinct(1)]) simp

text \<open>
  When every submitter has one intent the nonce queues are idle: the domain is the intents
  sorted by the rank triple, fee descending, then arrival, then id.
\<close>

theorem order_domain_sorts_by_rank:
  assumes "distinct (map p_submitter ps)" "distinct (map p_id ps)"
  shows "order_domain ps = map p_id (sort_key rank ps)"
proof -
  have "distinct (map nonce_key ps)"
    using assms(1) by (auto simp: distinct_map inj_on_def nonce_key_def)
  then obtain xs where xs: "order_domain ps = map p_id xs" "policy_order (mset ps) xs"
    by (rule order_domain_policy)
  have mset: "mset ps = mset xs"
    using policy_order_mset [OF xs(2)] by simp
  moreover have "sorted (map rank xs)"
    using xs(2) assms(1) mset_eq_imp_distinct_iff [OF mset]
    by (intro policy_order_sorted) (auto simp: distinct_map)
  moreover have "inj_on rank (set ps)"
    using assms(2) by (auto simp: distinct_map inj_on_def rank_def)
  ultimately have "sort_key rank ps = xs"
    by (intro sort_key_inj_key_eq)
  with xs(1) show ?thesis by simp
qed

theorem order_domain_sorts_by_rank_witness:
  "order_domain [sample_b, sample_a] = map p_id (sort_key rank [sample_b, sample_a])"
  by (rule order_domain_sorts_by_rank [OF sample_distinct(2,3)])

text \<open>
  Splitting a buffer at slot close keeps, in order, exactly the intents whose guarantee
  deadline has not passed, and reports each of the others once with its deadline.
\<close>

theorem partition_expired_splits:
  "partition_expired buffer now_ms g =
     (filter (\<lambda>p. now_ms \<le> deadline_for g (p_received_at p)) buffer,
      map (\<lambda>p. (p_id p, deadline_for g (p_received_at p)))
        (filter (\<lambda>p. deadline_for g (p_received_at p) < now_ms) buffer))"
  by (rule partition_expired_eq)

text \<open>
  C26: A slot commitment binds the slot number and the ordered intent ids: two that agree on it are
  equal, or exhibit a collision of the hash.
\<close>

theorem commit_binds:
  assumes "length is < 2 ^ 64" "length js < 2 ^ 64" "commit K s is = commit K t js"
  shows "(s = t \<and> is = js) \<or>
    (commit_preimage s is \<noteq> commit_preimage t js \<and>
     K (commit_preimage s is) = K (commit_preimage t js))"
  using assms commit_preimage_inject [OF assms(1,2)] by (auto simp: commit_eq)

theorem commit_binds_witness:
  "((7::u64) = 8 \<and> [IntentId (array_repeat 1)] = []) \<or>
    (commit_preimage 7 [IntentId (array_repeat 1)] \<noteq> commit_preimage 8 [] \<and>
     (\<lambda>_. array_repeat 0 :: 32 array) (commit_preimage 7 [IntentId (array_repeat 1)]) =
     (\<lambda>_. array_repeat 0) (commit_preimage 8 []))"
  by (rule commit_binds [where K = "\<lambda>_. array_repeat 0"]) (simp_all add: commit_eq)

text \<open>
  C27: An intent id binds every field of the intent, the variable-length market names included: two
  intents with the same id are equal, or exhibit a collision of the hash.
\<close>

theorem intent_id_binds:
  assumes "market_fits (i_market i)" "market_fits (i_market j)" "intent_id_of K i = intent_id_of K j"
  shows "i = j \<or>
    (intent_preimage i \<noteq> intent_preimage j \<and> K (intent_preimage i) = K (intent_preimage j))"
  using assms(3) intent_preimage_inject [OF assms(1,2)] by (auto simp: intent_id_of_eq)

theorem intent_id_binds_witness:
  "dummy 1 = dummy 2 \<or>
    (intent_preimage (dummy 1) \<noteq> intent_preimage (dummy 2) \<and>
     (\<lambda>_. array_repeat 0 :: 32 array) (intent_preimage (dummy 1)) =
     (\<lambda>_. array_repeat 0) (intent_preimage (dummy 2)))"
  by (rule intent_id_binds [where K = "\<lambda>_. array_repeat 0"]) (simp_all add: intent_id_of_eq market_fits_def)


end
