(* ===== verification/Intent_Log.thy ===== *)
theory Intent_Log
  imports Log_Entry
begin

text \<open>
  The \<open>IntentLog\<close> trait and its in-memory implementation (\<^verbatim>\<open>src/src/log.rs\<close>). The trait is a
  record of operations over a log state \<open>'l\<close>, passed to every stage as the generic parameter
  \<open>L\<close> is; its contract is the locale \<open>intent_log\<close>, with \<open>reliable_log\<close> for a log whose
  operations do not fail. \<open>MemLog\<close> meets both.
\<close>

section \<open>The trait\<close>

record 'l log_ops =
  lg_append :: "entry \<Rightarrow> 'l \<Rightarrow> (log_error + position) \<times> 'l"
  lg_append_batch :: "entry list \<Rightarrow> 'l \<Rightarrow> (log_error + position) \<times> 'l"
  lg_read_from :: "position \<Rightarrow> 'l \<Rightarrow> log_error + (position \<times> entry) list"
  lg_head :: "'l \<Rightarrow> position"

text \<open>
  \<open>entries\<close> is the sequence a log state stands for and \<open>ok\<close> the states that occur. An append
  either extends the sequence by exactly what it was given and returns the position of the last
  entry written, or fails and leaves the sequence alone; reading from a cursor yields the
  entries at and after it with their positions; \<open>head\<close> is exclusive.
\<close>

locale intent_log =
  fixes L :: "'l log_ops"
    and entries :: "'l \<Rightarrow> entry list"
    and ok :: "'l \<Rightarrow> bool"
  assumes append_Ok: "ok l \<Longrightarrow> lg_append L e l = (Ok p, l') \<Longrightarrow>
      ok l' \<and> entries l' = entries l @ [e] \<and> p = position_of (length (entries l))"
    and append_Err: "ok l \<Longrightarrow> lg_append L e l = (Err x, l') \<Longrightarrow> ok l' \<and> entries l' = entries l"
    and append_batch_Ok: "ok l \<Longrightarrow> lg_append_batch L es l = (Ok p, l') \<Longrightarrow>
      ok l' \<and> entries l' = entries l @ es \<and> p = position_of (length (entries l) + length es - 1)"
    and append_batch_Err: "ok l \<Longrightarrow> lg_append_batch L es l = (Err x, l') \<Longrightarrow>
      ok l' \<and> entries l' = entries l"
    and append_batch_Nil: "fst (lg_append_batch L [] l) = Err EmptyBatch"
    and read_from_Ok: "ok l \<Longrightarrow> lg_read_from L c l = Ok pes \<Longrightarrow>
      pes = drop (offset c) (positioned (entries l))"
    and head_eq: "ok l \<Longrightarrow> lg_head L l = position_of (length (entries l))"
begin

lemma append_ok: "ok l \<Longrightarrow> ok (snd (lg_append L e l))"
  by (cases "lg_append L e l"; cases "fst (lg_append L e l)") (auto dest: append_Ok append_Err)

lemma append_entries:
  "ok l \<Longrightarrow> entries (snd (lg_append L e l)) =
     (case fst (lg_append L e l) of Ok _ \<Rightarrow> entries l @ [e] | Err _ \<Rightarrow> entries l)"
  by (cases "lg_append L e l"; cases "fst (lg_append L e l)") (auto dest: append_Ok append_Err)

text \<open>
  What a consumer relies on: reading from the old head after an append yields exactly the
  appended entry, so advancing a cursor to the head neither skips nor repeats an entry.
\<close>

lemma read_appended:
  assumes "ok l" "lg_append L e l = (Ok p, l')" "length (entries l) < 2 ^ 64"
    and "lg_read_from L (lg_head L l) l' = Ok pes"
  shows "pes = [(p, e)]"
proof -
  from append_Ok [OF assms(1,2)] have "ok l'" "entries l' = entries l @ [e]"
    "p = position_of (length (entries l))"
    by auto
  with read_from_Ok [OF \<open>ok l'\<close> assms(4)] show ?thesis
    using assms(1,3) by (simp add: head_eq positioned_from_append drop_positioned_from)
qed

lemma read_splits_at_head:
  assumes "ok l" "ok l'" "entries l' = entries l @ es" "length (entries l) < 2 ^ 64"
    and "offset c \<le> length (entries l)"
    and "lg_read_from L c l = Ok xs" "lg_read_from L (lg_head L l) l' = Ok ys"
    and "lg_read_from L c l' = Ok zs"
  shows "zs = xs @ ys"
  using read_from_Ok [OF assms(1,6)] read_from_Ok [OF assms(2,7)] read_from_Ok [OF assms(2,8)]
    assms(1,3-5)
  by (simp add: head_eq positioned_from_append drop_positioned_from)

end

text \<open>A log whose operations succeed, as the in-memory one's do.\<close>

locale reliable_log = intent_log +
  assumes append_total: "\<exists>p l'. lg_append L e l = (Ok p, l')"
    and append_batch_total: "es \<noteq> [] \<Longrightarrow> \<exists>p l'. lg_append_batch L es l = (Ok p, l')"
    and read_from_total: "\<exists>pes. lg_read_from L c l = Ok pes"
begin

lemma append_eq:
  "ok l \<Longrightarrow> fst (lg_append L e l) = Ok (position_of (length (entries l)))"
  "ok l \<Longrightarrow> entries (snd (lg_append L e l)) = entries l @ [e]"
  using append_total [of e l] append_Ok [of l e] by auto

lemma read_from_eq: "ok l \<Longrightarrow> lg_read_from L c l = Ok (drop (offset c) (positioned (entries l)))"
  using read_from_total [of c l] read_from_Ok [of l c] by auto

text \<open>A batch and its entries appended one by one reach the same sequence.\<close>

lemma append_batch_entries:
  assumes "ok l"
  shows "entries (snd (lg_append_batch L es l)) = entries l @ es"
proof (cases "es = []")
  case True
  with append_batch_Nil [of l] append_batch_Err [OF assms, of "[]"] show ?thesis
    by (cases "lg_append_batch L [] l") auto
next
  case False
  with append_batch_total [of es l] append_batch_Ok [OF assms] show ?thesis
    by fastforce
qed

lemma fold_append_entries:
  "ok l \<Longrightarrow> ok (fold (\<lambda>e l. snd (lg_append L e l)) es l) \<and>
     entries (fold (\<lambda>e l. snd (lg_append L e l)) es l) = entries l @ es"
  by (induction es arbitrary: l) (simp_all add: append_ok append_eq)

end

section \<open>\<open>MemLog\<close>\<close>

text \<open>
  The vector behind the lock, and the values handed to \<open>doorbell.send_replace\<close> so far, oldest
  first: the \<open>watch\<close> channel itself belongs to tokio. Each operation takes the lock once, so
  it is one step of the state.
\<close>

record mem_log =
  ml_entries :: "entry list"
  ml_doorbell :: "position list"

definition mem_log_new :: mem_log where
  "mem_log_new = \<lparr>ml_entries = [], ml_doorbell = []\<rparr>"

definition mem_append :: "entry \<Rightarrow> mem_log \<Rightarrow> (log_error + position) \<times> mem_log" where
  "mem_append e l =
    (let es = ml_entries l @ [e];
         pos = Position (len64 es - 1)
     in (Ok pos, l\<lparr>ml_entries := es, ml_doorbell := ml_doorbell l @ [pos]\<rparr>))"

definition mem_append_batch :: "entry list \<Rightarrow> mem_log \<Rightarrow> (log_error + position) \<times> mem_log" where
  "mem_append_batch es l =
    (if es = [] then (Err EmptyBatch, l)
     else
       let es' = ml_entries l @ es;
           last = Position (len64 es' - 1)
       in (Ok last, l\<lparr>ml_entries := es', ml_doorbell := ml_doorbell l @ [last]\<rparr>))"

definition mem_read_from :: "position \<Rightarrow> mem_log \<Rightarrow> log_error + (position \<times> entry) list" where
  "mem_read_from cursor l =
    (let es = ml_entries l;
         start = min (offset cursor) (length es)
     in Ok (positioned_from start (drop start es)))"

definition mem_head :: "mem_log \<Rightarrow> position" where
  "mem_head l = Position (len64 (ml_entries l))"

definition mem_ops :: "mem_log log_ops" where
  "mem_ops =
     \<lparr>lg_append = mem_append, lg_append_batch = mem_append_batch,
      lg_read_from = mem_read_from, lg_head = mem_head\<rparr>"

lemma mem_ops_simps [simp]:
  "lg_append mem_ops = mem_append"
  "lg_append_batch mem_ops = mem_append_batch"
  "lg_read_from mem_ops = mem_read_from"
  "lg_head mem_ops = mem_head"
  by (simp_all add: mem_ops_def)

lemma Position_len64_minus:
  "es \<noteq> [] \<Longrightarrow> Position (len64 (xs @ es) - 1) = position_of (length xs + length es - 1)"
  by (cases es) (simp_all add: position_of_def)

lemma positioned_from_min:
  "positioned_from (min k (length xs)) (drop (min k (length xs)) xs) = drop k (positioned xs)"
  by (simp add: drop_positioned_from min_def)

lemma mem_append_eq:
  "mem_append e l =
     (Ok (position_of (length (ml_entries l))),
      l\<lparr>ml_entries := ml_entries l @ [e],
        ml_doorbell := ml_doorbell l @ [position_of (length (ml_entries l))]\<rparr>)"
  using Position_len64_minus [of "[e]" "ml_entries l"] by (simp add: mem_append_def Let_def)

lemma mem_read_from_eq: "mem_read_from c l = Ok (drop (offset c) (positioned (ml_entries l)))"
  by (simp add: mem_read_from_def positioned_from_min)

interpretation mem: reliable_log mem_ops ml_entries "\<lambda>_. True"
proof (unfold_locales, goal_cases)
  case (3 l es p l')
  then show ?case
    using Position_len64_minus [of es "ml_entries l"]
    by (auto simp: mem_append_batch_def Let_def split: if_splits)
qed (auto simp: mem_append_eq mem_append_batch_def mem_read_from_eq mem_head_def position_of_def
    Let_def split: if_splits)

end
