(* ===== verification/Admission.thy ===== *)
theory Admission
  imports Intent_Log Guarantee
begin

text \<open>
  The gate an intent passes to enter the protocol (\<^verbatim>\<open>src/src/admission.rs\<close>): its state, the check,
  the rejections and their HTTP status, recovery from the log, and \<open>admit_and_append\<close>, which
  holds one lock over check, append and record and is therefore one step. The invariant
  \<open>gate_synced\<close> ties the gate to the log.
\<close>

section \<open>State and operations\<close>

definition MAX_SLIPPAGE_BPS :: u16 where "MAX_SLIPPAGE_BPS = 10000"

record admission =
  adm_guarantee :: guarantee_config
  adm_seen :: "intent_id set"
  adm_nonces :: "address \<rightharpoonup> u64"

definition admission_default :: admission where
  "admission_default =
     \<lparr>adm_guarantee = guarantee_default, adm_seen = {}, adm_nonces = Map.empty\<rparr>"

definition admission_new :: "guarantee_config \<Rightarrow> admission" where
  "admission_new g = \<lparr>adm_guarantee = g, adm_seen = {}, adm_nonces = Map.empty\<rparr>"

datatype rejection =
    ZeroSize
  | EmptyMarket
  | SlippageOutOfRange u16 u16
      \<comment> \<open>\<open>got\<close>, \<open>limit\<close>\<close>
  | Expired u64 u64
      \<comment> \<open>\<open>deadline_ms\<close>, \<open>now_ms\<close>\<close>
  | UnmeetableWindow u64 u64
      \<comment> \<open>\<open>deadline_ms\<close>, \<open>guarantee_deadline_ms\<close>\<close>
  | Replay intent_id
  | StaleNonce u64 u64
      \<comment> \<open>\<open>got\<close>, \<open>last\<close>\<close>

text \<open>The HTTP status codes the program answers with, by their \<open>axum\<close> names.\<close>

datatype status_code =
    CONFLICT
  | BAD_REQUEST
  | NOT_FOUND
  | SERVICE_UNAVAILABLE
  | INTERNAL_SERVER_ERROR

fun rejection_status :: "rejection \<Rightarrow> status_code" where
  "rejection_status (Replay _) = CONFLICT"
| "rejection_status (StaleNonce _ _) = CONFLICT"
| "rejection_status _ = BAD_REQUEST"

datatype admit_error =
    AdmitLog log_error
  | AdmitRejected rejection

definition admission_check :: "admission \<Rightarrow> intent_id \<Rightarrow> intent \<Rightarrow> u64 \<Rightarrow> rejection + unit" where
  "admission_check a i intent now_ms =
    (if i_size intent = 0 then Err ZeroSize
     else if market_base (i_market intent) = [] \<or> market_quote (i_market intent) = []
     then Err EmptyMarket
     else if i_max_slippage_bps intent > MAX_SLIPPAGE_BPS
     then Err (SlippageOutOfRange (i_max_slippage_bps intent) MAX_SLIPPAGE_BPS)
     else if i_deadline_ms intent \<le> now_ms then Err (Expired (i_deadline_ms intent) now_ms)
     else
       let guarantee_deadline_ms = deadline_for (adm_guarantee a) now_ms in
       if i_deadline_ms intent < guarantee_deadline_ms
       then Err (UnmeetableWindow (i_deadline_ms intent) guarantee_deadline_ms)
       else if i \<in> adm_seen a then Err (Replay i)
       else
         case adm_nonces a (i_submitter intent) of
           Some last_nonce \<Rightarrow>
             if i_nonce intent \<le> last_nonce then Err (StaleNonce (i_nonce intent) last_nonce)
             else Ok ()
         | None \<Rightarrow> Ok ())"

definition admission_record :: "intent_id \<Rightarrow> address \<Rightarrow> u64 \<Rightarrow> admission \<Rightarrow> admission" where
  "admission_record i submitter nonce a =
    (let high = (case adm_nonces a submitter of None \<Rightarrow> nonce | Some h \<Rightarrow> h)
     in a\<lparr>adm_seen := insert i (adm_seen a),
          adm_nonces := (adm_nonces a)(submitter \<mapsto> max high nonce)\<rparr>)"

definition admission_tracked :: "admission \<Rightarrow> nat \<times> nat" where
  "admission_tracked a = (card (adm_seen a), card (dom (adm_nonces a)))"

text \<open>One entry of the log as \<open>recover\<close> reads it.\<close>

definition admission_recover_entry :: "entry \<Rightarrow> admission \<Rightarrow> admission" where
  "admission_recover_entry e a =
    (case e of
       IntentReceived i intent _ \<Rightarrow> admission_record i (i_submitter intent) (i_nonce intent) a
     | _ \<Rightarrow> a)"

definition admission_recover ::
    "'l log_ops \<Rightarrow> 'l \<Rightarrow> guarantee_config \<Rightarrow> log_error + admission" where
  "admission_recover L l g =
    (let a = admission_default\<lparr>adm_guarantee := g\<rparr>
     in try_bind (lg_read_from L position_ZERO l)
          (\<lambda>pes. Ok (fold (\<lambda>pe. admission_recover_entry (snd pe)) pes a)))"

definition admit_and_append ::
    "'l log_ops \<Rightarrow> keccak \<Rightarrow> intent \<Rightarrow> u64 \<Rightarrow> admission \<times> 'l \<Rightarrow>
       (admit_error + intent_id \<times> position) \<times> admission \<times> 'l" where
  "admit_and_append L K intent now_ms s =
    (let (adm, l) = s;
         i = intent_id_of K intent;
         submitter = i_submitter intent;
         nonce = i_nonce intent
     in case admission_check adm i intent now_ms of
          Err r \<Rightarrow> (Err (AdmitRejected r), adm, l)
        | Ok _ \<Rightarrow>
            (case lg_append L (IntentReceived i intent now_ms) l of
               (Err e, l') \<Rightarrow> (Err (AdmitLog e), adm, l')
             | (Ok pos, l') \<Rightarrow> (Ok (i, pos), admission_record i submitter nonce adm, l')))"

section \<open>The gate as a function of the log\<close>

definition gate_of :: "guarantee_config \<Rightarrow> entry list \<Rightarrow> admission" where
  "gate_of g es = fold admission_recover_entry es (admission_new g)"

lemma gate_of_Nil [simp]: "gate_of g [] = admission_new g"
  by (simp add: gate_of_def)

lemma gate_of_snoc [simp]: "gate_of g (es @ [e]) = admission_recover_entry e (gate_of g es)"
  by (simp add: gate_of_def)

lemma adm_guarantee_record [simp]: "adm_guarantee (admission_record i s n a) = adm_guarantee a"
  by (simp add: admission_record_def Let_def)

lemma adm_guarantee_gate_of [simp]: "adm_guarantee (gate_of g es) = g"
  by (induction es rule: rev_induct)
    (simp_all add: admission_new_def admission_recover_entry_def split: entry.split)

text \<open>The intents the log admitted.\<close>

fun received_of :: "entry \<Rightarrow> (intent_id \<times> intent \<times> u64) option" where
  "received_of (IntentReceived i intent t) = Some (i, intent, t)"
| "received_of _ = None"

definition received :: "entry list \<Rightarrow> (intent_id \<times> intent \<times> u64) list" where
  "received es = List.map_filter received_of es"

definition received_ids :: "entry list \<Rightarrow> intent_id list" where
  "received_ids es = map fst (received es)"

definition submitter_nonces :: "address \<Rightarrow> entry list \<Rightarrow> u64 list" where
  "submitter_nonces s es =
     map (\<lambda>(i, intent, t). i_nonce intent)
       (filter (\<lambda>(i, intent, t). i_submitter intent = s) (received es))"

lemma received_simps [simp]:
  "received [] = []"
  "received (e # es) = (case received_of e of None \<Rightarrow> received es | Some r \<Rightarrow> r # received es)"
  "received (es @ fs) = received es @ received fs"
  by (simp_all add: received_def map_filter_simps split: option.split)
    (induction es, simp_all add: map_filter_simps split: option.split)

lemma received_of_eq_Some: "received_of e = Some (i, intent, t) \<longleftrightarrow> e = IntentReceived i intent t"
  by (cases e) auto

lemma mem_received: "(i, intent, t) \<in> set (received es) \<longleftrightarrow> IntentReceived i intent t \<in> set es"
  by (auto simp: received_def mem_map_filter received_of_eq_Some)

lemma received_once:
  assumes "distinct (received_ids es)" "IntentReceived i x t \<in> set es" "IntentReceived i y u \<in> set es"
  shows "x = y \<and> t = u"
proof -
  have "(i, x, t) \<in> set (received es)" "(i, y, u) \<in> set (received es)"
    using assms(2,3) by (simp_all add: mem_received)
  with assms(1) have "(x, t) = (y, u)"
    unfolding received_ids_def by (rule eq_key_imp_eq_value)
  then show ?thesis by simp
qed

lemma recover_entry_cases:
  "admission_recover_entry e a =
     (case received_of e of
        None \<Rightarrow> a
      | Some (i, intent, t) \<Rightarrow> admission_record i (i_submitter intent) (i_nonce intent) a)"
  by (cases e) (simp_all add: admission_recover_entry_def)

lemma gate_of_seen: "adm_seen (gate_of g es) = set (received_ids es)"
  by (induction es rule: rev_induct)
    (auto simp: admission_new_def recover_entry_cases admission_record_def received_ids_def Let_def
      split: option.split)

text \<open>The nonce counter is a high-water mark.\<close>

lemma submitter_nonces_Nil [simp]: "submitter_nonces s [] = []"
  by (simp add: submitter_nonces_def)

lemma submitter_nonces_snoc:
  "submitter_nonces s (es @ [e]) = submitter_nonces s es @
     (case received_of e of
        None \<Rightarrow> []
      | Some (i, intent, t) \<Rightarrow> if i_submitter intent = s then [i_nonce intent] else [])"
  by (simp add: submitter_nonces_def split: option.split prod.split)

lemma gate_of_nonces:
  "adm_nonces (gate_of g es) s =
     (if submitter_nonces s es = [] then None else Some (Max (set (submitter_nonces s es))))"
proof (induction es arbitrary: s rule: rev_induct)
  case Nil
  then show ?case by (simp add: admission_new_def)
next
  case (snoc e es)
  show ?case
  proof (cases "received_of e")
    case None
    then show ?thesis by (simp add: recover_entry_cases submitter_nonces_snoc snoc.IH)
  next
    case (Some r)
    obtain i intent t where r: "r = (i, intent, t)" by (cases r)
    show ?thesis
      by (simp add: Some r recover_entry_cases submitter_nonces_snoc admission_record_def Let_def
          snoc.IH max.commute)
  qed
qed

section \<open>The invariant\<close>

text \<open>What the checks leave true of everything the log admitted.\<close>

definition intent_valid :: "intent \<Rightarrow> bool" where
  "intent_valid intent \<longleftrightarrow>
     i_size intent \<noteq> 0 \<and> market_base (i_market intent) \<noteq> [] \<and>
     market_quote (i_market intent) \<noteq> [] \<and> i_max_slippage_bps intent \<le> MAX_SLIPPAGE_BPS"

definition window_met :: "guarantee_config \<Rightarrow> intent \<Rightarrow> u64 \<Rightarrow> bool" where
  "window_met g intent now_ms \<longleftrightarrow>
     now_ms < i_deadline_ms intent \<and> deadline_for g now_ms \<le> i_deadline_ms intent"

definition nonce_advances :: "admission \<Rightarrow> intent \<Rightarrow> bool" where
  "nonce_advances a intent \<longleftrightarrow>
     (\<forall>n. adm_nonces a (i_submitter intent) = Some n \<longrightarrow> n < i_nonce intent)"

lemma admission_check_Ok_iff:
  "admission_check a i intent now_ms = Ok () \<longleftrightarrow>
     intent_valid intent \<and> window_met (adm_guarantee a) intent now_ms \<and>
     i \<notin> adm_seen a \<and> nonce_advances a intent"
  by (auto simp: admission_check_def intent_valid_def window_met_def nonce_advances_def Let_def
      not_le not_less split: option.splits)

definition admitted_ok :: "keccak \<Rightarrow> guarantee_config \<Rightarrow> entry list \<Rightarrow> bool" where
  "admitted_ok K g es \<longleftrightarrow>
     distinct (received_ids es) \<and>
     (\<forall>s. sorted_wrt (<) (submitter_nonces s es)) \<and>
     (\<forall>i intent t. (i, intent, t) \<in> set (received es) \<longrightarrow>
        i = intent_id_of K intent \<and> intent_valid intent \<and> window_met g intent t)"

lemma admitted_ok_Nil: "admitted_ok K g []"
  by (simp add: admitted_ok_def received_ids_def)

lemma admitted_ok_other: "received_of e = None \<Longrightarrow> admitted_ok K g (es @ [e]) = admitted_ok K g es"
  by (simp add: admitted_ok_def received_ids_def submitter_nonces_snoc)

lemma admitted_ok_admit:
  assumes "admitted_ok K g es"
    and "admission_check (gate_of g es) (intent_id_of K intent) intent now_ms = Ok ()"
  shows "admitted_ok K g (es @ [IntentReceived (intent_id_of K intent) intent now_ms])"
proof -
  from assms(2) have "intent_id_of K intent \<notin> set (received_ids es)"
    and adv: "nonce_advances (gate_of g es) intent"
    and "intent_valid intent" "window_met g intent now_ms"
    by (simp_all add: admission_check_Ok_iff gate_of_seen)
  moreover have "n < i_nonce intent" if "n \<in> set (submitter_nonces (i_submitter intent) es)" for n
  proof -
    from that have "submitter_nonces (i_submitter intent) es \<noteq> []" by auto
    then have "Max (set (submitter_nonces (i_submitter intent) es)) < i_nonce intent"
      using adv by (simp add: nonce_advances_def gate_of_nonces)
    moreover have "n \<le> Max (set (submitter_nonces (i_submitter intent) es))"
      using that by (intro Max_ge) simp_all
    ultimately show ?thesis by (rule le_less_trans [rotated])
  qed
  ultimately show ?thesis
    using assms(1)
    by (auto simp: admitted_ok_def received_ids_def submitter_nonces_snoc sorted_wrt_append)
qed

definition gate_synced :: "keccak \<Rightarrow> guarantee_config \<Rightarrow> admission \<Rightarrow> entry list \<Rightarrow> bool" where
  "gate_synced K g a es \<longleftrightarrow> a = gate_of g es \<and> admitted_ok K g es"

lemma gate_synced_new: "gate_synced K g (admission_new g) []"
  by (simp add: gate_synced_def admitted_ok_Nil)

lemma gate_synced_other:
  "received_of e = None \<Longrightarrow> gate_synced K g a (es @ [e]) = gate_synced K g a es"
  by (simp add: gate_synced_def admitted_ok_other recover_entry_cases)

section \<open>The gate over any log\<close>

lemma fold_snd: "fold (\<lambda>pe. f (snd pe)) pes a = fold f (map snd pes) a"
  by (induction pes arbitrary: a) simp_all

context intent_log
begin

lemma admit_outcome:
  assumes "ok l" "admit_and_append L K intent now_ms (a, l) = (r, a', l')"
  shows "ok l' \<and>
    (case r of
       Err _ \<Rightarrow> a' = a \<and> entries l' = entries l
     | Ok (i, pos) \<Rightarrow>
         i = intent_id_of K intent \<and> pos = position_of (length (entries l)) \<and>
         admission_check a i intent now_ms = Ok () \<and>
         entries l' = entries l @ [IntentReceived i intent now_ms] \<and>
         a' = admission_record i (i_submitter intent) (i_nonce intent) a)"
proof (cases "admission_check a (intent_id_of K intent) intent now_ms")
  case (Inl e)
  with assms show ?thesis by (auto simp: admit_and_append_def Let_def)
next
  case (Inr u)
  obtain x l2 where app: "lg_append L (IntentReceived (intent_id_of K intent) intent now_ms) l = (x, l2)"
    by fastforce
  show ?thesis
  proof (cases x)
    case (Inl e)
    with assms Inr app append_Err [OF assms(1)] show ?thesis
      by (auto simp: admit_and_append_def Let_def)
  next
    case (Inr p)
    with assms \<open>admission_check _ _ _ _ = Ok u\<close> app append_Ok [OF assms(1)] show ?thesis
      by (auto simp: admit_and_append_def Let_def)
  qed
qed

lemma admit_synced:
  assumes "ok l" "gate_synced K g a (entries l)"
    and "admit_and_append L K intent now_ms (a, l) = (r, a', l')"
  shows "ok l' \<and> gate_synced K g a' (entries l')"
proof -
  note out = admit_outcome [OF assms(1,3)]
  show ?thesis
  proof (cases r)
    case (Inl e)
    with out assms(2) show ?thesis by simp
  next
    case (Inr ip)
    obtain i p where "ip = (i, p)" by (cases ip)
    with Inr out assms(2) show ?thesis
      by (auto simp: gate_synced_def admitted_ok_admit recover_entry_cases)
  qed
qed

lemma recover_eq:
  assumes "ok l" "lg_read_from L position_ZERO l = Ok pes"
  shows "admission_recover L l g = Ok (gate_of g (entries l))"
proof -
  have "map snd pes = entries l"
    using read_from_Ok [OF assms] by simp
  then show ?thesis
    using assms(2)
    by (simp add: admission_recover_def fold_snd gate_of_def admission_default_def
        admission_new_def)
qed

end

end
