(* ===== verification/Admission_Properties.thy ===== *)
theory Admission_Properties
  imports Admission
begin

text \<open>
  The properties of the admission gate, over the in-memory log the program runs on.
  \<open>submissions\<close> is a sequence of calls of \<open>admit_and_append\<close>, whatever their outcomes.
\<close>

section \<open>Sequences of submissions\<close>

definition submission ::
    "keccak \<Rightarrow> intent \<times> u64 \<Rightarrow> admission \<times> mem_log \<Rightarrow> admission \<times> mem_log" where
  "submission K s al = snd (admit_and_append mem_ops K (fst s) (snd s) al)"

definition submissions ::
    "keccak \<Rightarrow> (intent \<times> u64) list \<Rightarrow> admission \<times> mem_log \<Rightarrow> admission \<times> mem_log" where
  "submissions K ss al = fold (submission K) ss al"

lemma submissions_synced:
  "gate_synced K g (fst al) (ml_entries (snd al)) \<Longrightarrow>
     gate_synced K g (fst (submissions K ss al)) (ml_entries (snd (submissions K ss al)))"
proof (induction ss arbitrary: al)
  case Nil
  then show ?case by (simp add: submissions_def)
next
  case (Cons s ss)
  obtain a l where al: "al = (a, l)" by (cases al)
  obtain r a' l' where out: "admit_and_append mem_ops K (fst s) (snd s) (a, l) = (r, a', l')"
    by (metis prod_cases3)
  from mem.admit_synced [OF TrueI _ out] Cons.prems al have "gate_synced K g a' (ml_entries l')"
    by simp
  with Cons.IH [of "(a', l')"] out al show ?case
    by (simp add: submissions_def submission_def)
qed

lemma submissions_new_synced:
  "gate_synced K g (fst (submissions K ss (admission_new g, mem_log_new)))
     (ml_entries (snd (submissions K ss (admission_new g, mem_log_new))))"
  by (rule submissions_synced) (simp add: gate_synced_new mem_log_new_def)

lemma mem_recover_eq: "admission_recover mem_ops l g = Ok (gate_of g (ml_entries l))"
  by (rule mem.recover_eq) (simp_all add: mem_read_from_eq)

section \<open>Properties\<close>

text \<open>
  C16: The gate admits exactly the intents that are well formed, whose deadline has not passed and
  does not fall inside the guarantee window, that were not admitted before, and whose nonce
  advances past the submitter's last.
\<close>

theorem check_admits_iff:
  "admission_check a i intent now_ms = Ok () \<longleftrightarrow>
     (i_size intent \<noteq> 0 \<and> market_base (i_market intent) \<noteq> [] \<and>
      market_quote (i_market intent) \<noteq> [] \<and> i_max_slippage_bps intent \<le> MAX_SLIPPAGE_BPS) \<and>
     (now_ms < i_deadline_ms intent \<and>
      deadline_for (adm_guarantee a) now_ms \<le> i_deadline_ms intent) \<and>
     i \<notin> adm_seen a \<and>
     (case adm_nonces a (i_submitter intent) of None \<Rightarrow> True | Some n \<Rightarrow> n < i_nonce intent)"
  by (auto simp: admission_check_Ok_iff intent_valid_def window_met_def nonce_advances_def
      split: option.splits)

text \<open>
  A rejection names its cause: every error the check returns states a fact that holds of the
  intent, the clock or the admitted history, with the numbers it reports.
\<close>

theorem check_rejects_truthfully:
  "case admission_check a i intent now_ms of
     Ok _ \<Rightarrow> True
   | Err ZeroSize \<Rightarrow> i_size intent = 0
   | Err EmptyMarket \<Rightarrow> market_base (i_market intent) = [] \<or> market_quote (i_market intent) = []
   | Err (SlippageOutOfRange got limit) \<Rightarrow>
       got = i_max_slippage_bps intent \<and> limit = 10000 \<and> limit < got
   | Err (Expired deadline now) \<Rightarrow>
       deadline = i_deadline_ms intent \<and> now = now_ms \<and> deadline \<le> now
   | Err (UnmeetableWindow deadline guarantee) \<Rightarrow>
       deadline = i_deadline_ms intent \<and> guarantee = deadline_for (adm_guarantee a) now_ms \<and>
       now_ms < deadline \<and> deadline < guarantee
   | Err (Replay j) \<Rightarrow> j = i \<and> i \<in> adm_seen a
   | Err (StaleNonce got last_nonce) \<Rightarrow>
       got = i_nonce intent \<and> adm_nonces a (i_submitter intent) = Some last_nonce \<and>
       got \<le> last_nonce"
  by (auto simp: admission_check_def MAX_SLIPPAGE_BPS_def Let_def not_le split: option.split)

text \<open>
  C15: After any sequence of submissions to a fresh gate, what the log admitted carries no intent id
  twice, each submitter's nonces strictly ascending in log order, and only intents that were well
  formed and whose deadline the guarantee could meet when they were received.
\<close>

theorem admitted_log_sound:
  "let es = ml_entries (snd (submissions K ss (admission_new g, mem_log_new))) in
     distinct (received_ids es) \<and>
     (\<forall>s. sorted_wrt (<) (submitter_nonces s es)) \<and>
     (\<forall>i intent t. (i, intent, t) \<in> set (received es) \<longrightarrow>
        i = intent_id_of K intent \<and> intent_valid intent \<and> window_met g intent t)"
  using submissions_new_synced [of K g ss] by (simp add: gate_synced_def admitted_ok_def Let_def)

theorem admitted_log_sound_witness:
  "distinct (received_ids (ml_entries (snd (submissions (\<lambda>_. array_repeat 0)
     [(dummy 1, TEST_NOW), (dummy 1, TEST_NOW)] (admission_new guarantee_default, mem_log_new)))))"
  using admitted_log_sound [of "\<lambda>_. array_repeat 0" "[(dummy 1, TEST_NOW), (dummy 1, TEST_NOW)]"
      guarantee_default]
  by (simp only: Let_def)

text \<open>
  Restart. The gate recovered from the log is the gate that was running: the same seen ids and
  the same nonce counters, after any sequence of submissions.
\<close>

theorem recovered_gate_is_running_gate:
  "admission_recover mem_ops (snd (submissions K ss (admission_new g, mem_log_new))) g =
     Ok (fst (submissions K ss (admission_new g, mem_log_new)))"
  using submissions_new_synced [of K g ss] by (simp add: gate_synced_def mem_recover_eq)

text \<open>
  The counter cannot wrap: once a submitter has used the largest nonce, the gate admits nothing
  more from it, whatever the clock and the intent.
\<close>

theorem last_nonce_closes_account:
  assumes "adm_nonces a (i_submitter intent) = Some u64_MAX"
  shows "admission_check a i intent now_ms \<noteq> Ok ()"
  using assms by (auto simp: admission_check_Ok_iff nonce_advances_def)

theorem last_nonce_closes_account_witness:
  "admission_check
     ((admission_new guarantee_default)\<lparr>adm_nonces := [Address (array_repeat 1) \<mapsto> u64_MAX]\<rparr>)
     (IntentId (array_repeat 9)) (dummy 1) TEST_NOW \<noteq> Ok ()"
  by (rule last_nonce_closes_account) simp

end
