(* ===== verification/Sequencer.thy ===== *)
theory Sequencer
  imports Ordering_Policy Admission
begin

text \<open>
  The sequencer task (\<^verbatim>\<open>src/src/sequencer.rs\<close>): its state, recovery from the log, and the two
  branches of its \<open>select!\<close> loop as handlers, one for the doorbell and one for the slot
  boundary. The clock reading \<open>now_millis()\<close> is an argument of the boundary handler.
\<close>

section \<open>State and handlers\<close>

datatype seq_error =
    SeqLog log_error
  | CorruptLog position position
      \<comment> \<open>\<open>cursor\<close>, \<open>head\<close>\<close>

text \<open>The struct's fields and the two locals of \<open>run\<close>.\<close>

record sequencer =
  sq_buffer :: "pending list"
  sq_guarantee :: guarantee_config
  sq_cursor :: position
  sq_next_slot :: u64

fun seq_recover_entry :: "entry \<Rightarrow> position \<times> u64 \<Rightarrow> position \<times> u64" where
  "seq_recover_entry (SlotCommitted slot _ consumed_up_to _ _) _ = (consumed_up_to, slot + 1)"
| "seq_recover_entry _ s = s"

definition seq_recover :: "'l log_ops \<Rightarrow> 'l \<Rightarrow> seq_error + position \<times> u64" where
  "seq_recover L l =
     try_bind (map_err SeqLog (lg_read_from L position_ZERO l))
       (\<lambda>pes.
          let (cursor, next_slot) =
                fold (\<lambda>pe. seq_recover_entry (snd pe)) pes (position_ZERO, 0);
              head = lg_head L l
          in if cursor > head then Err (CorruptLog cursor head) else Ok (cursor, next_slot))"

text \<open>\<open>Sequencer::new\<close> and the head of \<open>run\<close>.\<close>

definition seq_start :: "'l log_ops \<Rightarrow> guarantee_config \<Rightarrow> 'l \<Rightarrow> seq_error + sequencer" where
  "seq_start L g l =
     try_bind (seq_recover L l)
       (\<lambda>(cursor, next_slot).
          Ok \<lparr>sq_buffer = [], sq_guarantee = g, sq_cursor = cursor, sq_next_slot = next_slot\<rparr>)"

definition seq_consume :: "position \<times> entry \<Rightarrow> sequencer \<Rightarrow> sequencer" where
  "seq_consume pe s =
    (case pe of (pos, e) \<Rightarrow>
       let buffer =
             (case e of
                IntentReceived i intent received_at \<Rightarrow>
                  sq_buffer s @ [pending_new i intent received_at]
              | _ \<Rightarrow> sq_buffer s)
       in s\<lparr>sq_buffer := buffer, sq_cursor := position_next pos\<rparr>)"

definition seq_on_doorbell :: "'l log_ops \<Rightarrow> 'l \<Rightarrow> sequencer \<Rightarrow> seq_error + sequencer" where
  "seq_on_doorbell L l s =
     try_bind (map_err SeqLog (lg_read_from L (sq_cursor s) l))
       (\<lambda>pes. Ok (fold seq_consume pes s))"

text \<open>Appends in sequence, each with \<open>?\<close>: the first failure ends the task.\<close>

fun append_each :: "'l log_ops \<Rightarrow> entry list \<Rightarrow> 'l \<Rightarrow> (log_error + unit) \<times> 'l" where
  "append_each L [] l = (Ok (), l)"
| "append_each L (e # es) l =
     (case lg_append L e l of
        (Err x, l') \<Rightarrow> (Err x, l')
      | (Ok _, l') \<Rightarrow> append_each L es l')"

definition seq_on_tick ::
    "'l log_ops \<Rightarrow> keccak \<Rightarrow> u64 \<Rightarrow> sequencer \<times> 'l \<Rightarrow> (seq_error + sequencer) \<times> 'l" where
  "seq_on_tick L K closed_at sl =
    (let (s, l) = sl;
         (live, expired) = partition_expired (sq_buffer s) closed_at (sq_guarantee s);
         s = s\<lparr>sq_buffer := []\<rparr>
     in case append_each L (map (\<lambda>(i, deadline). IntentExpired i deadline closed_at) expired) l of
          (Err e, l') \<Rightarrow> (Err (SeqLog e), l')
        | (Ok _, l') \<Rightarrow>
            let intents = order_slot live in
            case lg_append L
                   (SlotCommitted (sq_next_slot s) intents (sq_cursor s)
                      (commit K (sq_next_slot s) intents) closed_at) l' of
              (Err e, l'') \<Rightarrow> (Err (SeqLog e), l'')
            | (Ok _, l'') \<Rightarrow> (Ok (s\<lparr>sq_next_slot := sq_next_slot s + 1\<rparr>), l''))"

section \<open>What a slot close writes\<close>

definition tick_expired :: "u64 \<Rightarrow> sequencer \<Rightarrow> entry list" where
  "tick_expired closed_at s =
     map (\<lambda>(i, deadline). IntentExpired i deadline closed_at)
       (snd (partition_expired (sq_buffer s) closed_at (sq_guarantee s)))"

definition tick_intents :: "u64 \<Rightarrow> sequencer \<Rightarrow> intent_id list" where
  "tick_intents closed_at s =
     order_slot (fst (partition_expired (sq_buffer s) closed_at (sq_guarantee s)))"

definition tick_slot :: "keccak \<Rightarrow> u64 \<Rightarrow> sequencer \<Rightarrow> entry" where
  "tick_slot K closed_at s =
     SlotCommitted (sq_next_slot s) (tick_intents closed_at s) (sq_cursor s)
       (commit K (sq_next_slot s) (tick_intents closed_at s)) closed_at"

definition tick_entries :: "keccak \<Rightarrow> u64 \<Rightarrow> sequencer \<Rightarrow> entry list" where
  "tick_entries K closed_at s = tick_expired closed_at s @ [tick_slot K closed_at s]"

definition seq_ticked :: "sequencer \<Rightarrow> sequencer" where
  "seq_ticked s = s\<lparr>sq_buffer := [], sq_next_slot := sq_next_slot s + 1\<rparr>"

lemma append_each_append:
  "append_each L (es @ fs) l =
     (case append_each L es l of (Err e, l') \<Rightarrow> (Err e, l') | (Ok _, l') \<Rightarrow> append_each L fs l')"
  by (induction L es l rule: append_each.induct) (auto split: prod.split sum.split)

text \<open>The handler is the sequence of appends \<open>tick_entries\<close>.\<close>

lemma seq_on_tick_eq:
  "seq_on_tick L K closed_at (s, l) =
     (case append_each L (tick_entries K closed_at s) l of
        (Err e, l') \<Rightarrow> (Err (SeqLog e), l')
      | (Ok _, l') \<Rightarrow> (Ok (seq_ticked s), l'))"
  by (auto simp: seq_on_tick_def tick_entries_def append_each_append tick_expired_def tick_slot_def
      tick_intents_def seq_ticked_def Let_def split: prod.split sum.split)

lemma map_fst_tick_expired:
  "List.map_filter (\<lambda>e. case e of IntentExpired i _ _ \<Rightarrow> Some i | _ \<Rightarrow> None) (tick_expired now s) =
     map fst (snd (partition_expired (sq_buffer s) now (sq_guarantee s)))"
  by (simp add: tick_expired_def map_filter_def comp_def case_prod_beta)

text \<open>Every buffered intent is in the slot or reported expired, once.\<close>

lemma tick_partition:
  "image_mset p_id (mset (sq_buffer s)) =
     mset (tick_intents now s) +
     mset (map fst (snd (partition_expired (sq_buffer s) now (sq_guarantee s))))"
proof -
  let ?live = "\<lambda>p. now \<le> deadline_for (sq_guarantee s) (p_received_at p)"
  have "mset (sq_buffer s) = filter_mset ?live (mset (sq_buffer s)) +
      filter_mset (\<lambda>p. \<not> ?live p) (mset (sq_buffer s))"
    by (rule multiset_partition)
  then have "image_mset p_id (mset (sq_buffer s)) =
      image_mset p_id (filter_mset ?live (mset (sq_buffer s))) +
      image_mset p_id (filter_mset (\<lambda>p. \<not> ?live p) (mset (sq_buffer s)))"
    by (metis image_mset_union)
  then show ?thesis
    by (simp add: tick_intents_def partition_expired_eq mset_order_slot comp_def not_le)
qed

lemma tick_intents_mem:
  "i \<in> set (tick_intents now s) \<longleftrightarrow>
     (\<exists>p\<in>set (sq_buffer s). p_id p = i \<and> now \<le> deadline_for (sq_guarantee s) (p_received_at p))"
  by (auto simp: tick_intents_def partition_expired_eq set_order_slot)

lemma tick_expired_mem:
  "e \<in> set (tick_expired now s) \<longleftrightarrow>
     (\<exists>p\<in>set (sq_buffer s). deadline_for (sq_guarantee s) (p_received_at p) < now \<and>
        e = IntentExpired (p_id p) (deadline_for (sq_guarantee s) (p_received_at p)) now)"
  by (auto simp: tick_expired_def partition_expired_eq)

section \<open>Reading the log\<close>

definition pendings :: "entry list \<Rightarrow> pending list" where
  "pendings es = map (\<lambda>(i, intent, t). pending_new i intent t) (received es)"

lemma pendings_simps [simp]:
  "pendings [] = []"
  "pendings (es @ fs) = pendings es @ pendings fs"
  by (simp_all add: pendings_def)

lemma map_p_id_pendings: "map p_id (pendings es) = received_ids es"
  by (simp add: pendings_def received_ids_def comp_def case_prod_beta)

lemma fold_seq_consume:
  "fold seq_consume (positioned_from n es) s =
     s\<lparr>sq_buffer := sq_buffer s @ pendings es,
       sq_cursor := if es = [] then sq_cursor s else position_of (n + length es)\<rparr>"
proof (induction n es arbitrary: s rule: positioned_from.induct)
  case (1 n)
  then show ?case by simp
next
  case (2 n e es)
  have "seq_consume (position_of n, e) s =
      s\<lparr>sq_buffer := sq_buffer s @ pendings [e], sq_cursor := position_of (Suc n)\<rparr>"
    by (cases e) (simp_all add: seq_consume_def pendings_def)
  then show ?case
    using "2.IH" by (cases es) (simp_all add: pendings_def split: option.split)
qed

text \<open>Recovery follows the last committed slot.\<close>

definition seq_progress :: "entry list \<Rightarrow> position \<times> u64" where
  "seq_progress es = fold seq_recover_entry es (position_ZERO, 0)"

context intent_log
begin

text \<open>A sequence of appends extends the log by a prefix of what it was given, all of it on success.\<close>

lemma append_each_entries:
  assumes "ok l" "append_each L es l = (r, l')"
  shows "ok l' \<and>
    (\<exists>k \<le> length es. entries l' = entries l @ take k es \<and> (r = Ok () \<longrightarrow> k = length es))"
  using assms
proof (induction es arbitrary: l)
  case Nil
  then show ?case by simp
next
  case (Cons e es)
  obtain x l2 where app: "lg_append L e l = (x, l2)"
    by fastforce
  show ?case
  proof (cases x)
    case (Inl y)
    with Cons.prems app append_Err [OF Cons.prems(1)] show ?thesis
      by (auto intro: exI [of _ 0])
  next
    case (Inr p)
    with app append_Ok [OF Cons.prems(1)] have l2: "ok l2" "entries l2 = entries l @ [e]"
      by auto
    from Cons.prems(2) app Inr have "append_each L es l2 = (r, l')"
      by simp
    with Cons.IH [OF l2(1)] obtain k where "ok l'" "k \<le> length es"
      "entries l' = entries l2 @ take k es" "r = Ok () \<longrightarrow> k = length es"
      by blast
    with l2 show ?thesis
      by (auto intro!: exI [of _ "Suc k"])
  qed
qed

lemma seq_doorbell_eq:
  assumes "ok l" "lg_read_from L (sq_cursor s) l = Ok pes"
    and "offset (sq_cursor s) \<le> length (entries l)"
  shows "seq_on_doorbell L l s =
    Ok (s\<lparr>sq_buffer := sq_buffer s @ pendings (drop (offset (sq_cursor s)) (entries l)),
          sq_cursor := position_of (length (entries l))\<rparr>)"
proof -
  have "pes = positioned_from (offset (sq_cursor s)) (drop (offset (sq_cursor s)) (entries l))"
    using read_from_Ok [OF assms(1,2)] by (simp add: drop_positioned_from)
  then show ?thesis
    using assms(2,3) position_of_offset [of "sq_cursor s"]
    by (auto simp: seq_on_doorbell_def fold_seq_consume)
qed

lemma seq_recover_eq:
  assumes "ok l" "lg_read_from L position_ZERO l = Ok pes"
  shows "seq_recover L l =
    (let (cursor, next_slot) = seq_progress (entries l);
         head = position_of (length (entries l))
     in if cursor > head then Err (CorruptLog cursor head) else Ok (cursor, next_slot))"
proof -
  have "map snd pes = entries l"
    using read_from_Ok [OF assms] by simp
  then show ?thesis
    using assms by (simp add: seq_recover_def fold_snd seq_progress_def head_eq)
qed

end

end
