(* ===== verification/Slot_Log.thy ===== *)
theory Slot_Log
  imports Log_Entry
begin

text \<open>
  The log seen slot by slot: which slot an entry commits or rules on, runs of consecutive slot
  numbers, where each slot was committed, and the newest slot of a list. The attester and the
  prover recover their cursor from these.
\<close>

section \<open>Slots of entries\<close>

text \<open>The slot an entry rules on, and the slot it commits.\<close>

fun ruled_slot :: "entry \<Rightarrow> u64 option" where
  "ruled_slot (SlotAttested slot _ _) = Some slot"
| "ruled_slot (AttestFailed slot _) = Some slot"
| "ruled_slot _ = None"

fun slot_of_commit :: "entry \<Rightarrow> u64 option" where
  "slot_of_commit (SlotCommitted slot _ _ _ _) = Some slot"
| "slot_of_commit _ = None"

definition committed_slots :: "entry list \<Rightarrow> u64 list" where
  "committed_slots es = List.map_filter slot_of_commit es"

definition ruled_slots :: "entry list \<Rightarrow> u64 list" where
  "ruled_slots es = List.map_filter ruled_slot es"

lemma committed_slots_simps [simp]:
  "committed_slots [] = []"
  "committed_slots (e # es) =
     (case slot_of_commit e of None \<Rightarrow> committed_slots es | Some s \<Rightarrow> s # committed_slots es)"
  "committed_slots (es @ fs) = committed_slots es @ committed_slots fs"
  by (simp_all add: committed_slots_def map_filter_simps map_filter_append split: option.split)

lemma ruled_slots_simps [simp]:
  "ruled_slots [] = []"
  "ruled_slots (e # es) =
     (case ruled_slot e of None \<Rightarrow> ruled_slots es | Some s \<Rightarrow> s # ruled_slots es)"
  "ruled_slots (es @ fs) = ruled_slots es @ ruled_slots fs"
  by (simp_all add: ruled_slots_def map_filter_simps map_filter_append split: option.split)

lemma slot_of_commit_Some:
  "slot_of_commit e = Some s \<longleftrightarrow> (\<exists>is p c t. e = SlotCommitted s is p c t)"
  by (cases e) auto

lemma ruled_not_committed: "ruled_slot e \<noteq> None \<Longrightarrow> slot_of_commit e = None"
  by (cases e) simp_all

section \<open>Runs of slots\<close>

definition slot_run :: "nat \<Rightarrow> nat \<Rightarrow> u64 list" where
  "slot_run m n = map word_of_nat [m..<n]"

lemma slot_run_empty [simp]: "n \<le> m \<Longrightarrow> slot_run m n = []"
  by (simp add: slot_run_def)

lemma slot_run_Suc: "m \<le> n \<Longrightarrow> slot_run m (Suc n) = slot_run m n @ [word_of_nat n]"
  by (simp add: slot_run_def)

lemma slot_run_append: "m \<le> k \<Longrightarrow> k \<le> n \<Longrightarrow> slot_run m k @ slot_run k n = slot_run m n"
  using upt_add_eq_append [of m k "n - k"] by (simp add: slot_run_def flip: map_append)

lemma length_slot_run [simp]: "length (slot_run m n) = n - m"
  by (simp add: slot_run_def)

lemma slot_run_Cons: "m < n \<Longrightarrow> slot_run m n = word_of_nat m # slot_run (Suc m) n"
  by (simp add: slot_run_def upt_conv_Cons)

lemma slot_run_ends:
  assumes "map f xs = slot_run a b" "xs \<noteq> []"
  shows "\<exists>b'. b = Suc b' \<and> a \<le> b' \<and> f (hd xs) = word_of_nat a \<and> f (last xs) = word_of_nat b'"
proof -
  have "a < b"
    using assms arg_cong [OF assms(1), of length] by (cases "a < b") auto
  then obtain b' where b: "b = Suc b'" and "a \<le> b'" by (cases b) auto
  moreover have "f (hd xs) = word_of_nat a" "f (last xs) = word_of_nat b'"
    using assms \<open>a < b\<close> \<open>a \<le> b'\<close>
    by (metis hd_map slot_run_Cons list.sel(1), metis b last_map slot_run_Suc last_snoc)
  ultimately show ?thesis by blast
qed

lemma mem_slot_run: "s \<in> set (slot_run m n) \<longleftrightarrow> (\<exists>k. m \<le> k \<and> k < n \<and> s = word_of_nat k)"
  by (auto simp: slot_run_def)

lemma sorted_slot_run: "n \<le> 2 ^ 64 \<Longrightarrow> sorted (slot_run m n)"
proof (induction n)
  case 0
  then show ?case by simp
next
  case (Suc n)
  show ?case
  proof (cases "m \<le> n")
    case True
    moreover have "s \<le> word_of_nat n" if "s \<in> set (slot_run m n)" for s
      using that Suc.prems by (auto simp: mem_slot_run word_le_nat_alt unat_of_nat64)
    ultimately show ?thesis
      using Suc by (simp add: slot_run_Suc sorted_append)
  qed simp
qed

lemma distinct_slot_run: "n \<le> 2 ^ 64 \<Longrightarrow> distinct (slot_run m n)"
  by (auto simp: slot_run_def distinct_map word_of_nat_eq_iff64 intro!: inj_onI)

lemma slot_run_prefix:
  assumes "xs @ ys = slot_run m n"
  shows "xs = slot_run m (m + length xs) \<and> ys = slot_run (m + length xs) n"
proof -
  have "length xs \<le> n - m"
    using arg_cong [OF assms, of length] by simp
  then have "xs @ ys = slot_run m (m + length xs) @ slot_run (m + length xs) n"
    using assms by (cases "m \<le> n") (simp_all add: slot_run_append)
  then show ?thesis
    by (simp add: append_eq_append_conv)
qed

section \<open>Where a slot was committed\<close>

fun index_slot :: "position \<times> entry \<Rightarrow> (u64 \<rightharpoonup> position) \<Rightarrow> (u64 \<rightharpoonup> position)" where
  "index_slot (pos, e) m = (case slot_of_commit e of None \<Rightarrow> m | Some s \<Rightarrow> m(s \<mapsto> pos))"

definition slot_index :: "entry list \<Rightarrow> u64 \<rightharpoonup> position" where
  "slot_index es = fold index_slot (positioned es) Map.empty"

lemma slot_index_snoc:
  "slot_index (es @ [e]) =
     (case slot_of_commit e of
        None \<Rightarrow> slot_index es
      | Some s \<Rightarrow> (slot_index es)(s \<mapsto> position_of (length es)))"
  by (simp add: slot_index_def positioned_from_append split: option.split)

lemma slot_index_Nil [simp]: "slot_index [] = Map.empty"
  by (simp add: slot_index_def)

text \<open>In a log of consecutive slots the index holds the entry after which slot \<open>k\<close> and all later ones follow.\<close>

lemma slot_index_run:
  assumes "committed_slots es = slot_run 0 n" "n \<le> 2 ^ 64" "k < n"
  shows "\<exists>i < length es. slot_index es (word_of_nat k) = Some (position_of i) \<and>
    committed_slots (take i es) = slot_run 0 k \<and> committed_slots (drop i es) = slot_run k n"
  using assms
proof (induction es arbitrary: n rule: rev_induct)
  case Nil
  then show ?case by (metis committed_slots_simps(1) length_slot_run list.size(3) less_zeroE diff_zero)
next
  case (snoc e es)
  show ?case
  proof (cases "slot_of_commit e")
    case None
    with snoc.prems have "committed_slots es = slot_run 0 n" by simp
    with snoc.IH snoc.prems(2,3) obtain i where "i < length es"
      "slot_index es (word_of_nat k) = Some (position_of i)"
      "committed_slots (take i es) = slot_run 0 k" "committed_slots (drop i es) = slot_run k n"
      by blast
    with None show ?thesis
      by (intro exI [of _ i]) (simp add: slot_index_snoc)
  next
    case (Some s)
    then have "committed_slots es @ [s] = slot_run 0 n"
      using snoc.prems(1) by simp
    moreover obtain n' where n: "n = Suc n'"
      using snoc.prems(3) by (cases n) auto
    ultimately have es: "committed_slots es = slot_run 0 n'" and s: "s = word_of_nat n'"
      by (simp_all add: slot_run_Suc)
    show ?thesis
    proof (cases "k = n'")
      case True
      then show ?thesis
        using es s n Some
        by (intro exI [of _ "length es"]) (simp add: slot_index_snoc slot_run_Suc)
    next
      case False
      with snoc.prems n have k: "k < n'" by simp
      with snoc.IH [OF es] snoc.prems(2) n obtain i where i: "i < length es"
        "slot_index es (word_of_nat k) = Some (position_of i)"
        "committed_slots (take i es) = slot_run 0 k" "committed_slots (drop i es) = slot_run k n'"
        by auto
      have "word_of_nat k \<noteq> s"
        using s k snoc.prems(2) n by (simp add: word_of_nat_eq_iff64)
      with i Some k n s show ?thesis
        by (intro exI [of _ i]) (simp add: slot_index_snoc slot_run_Suc)
    qed
  qed
qed

lemma slot_index_None: "slot_index es s = None \<longleftrightarrow> s \<notin> set (committed_slots es)"
  by (induction es rule: rev_induct) (auto simp: slot_index_snoc split: option.split)

lemma slot_index_beyond:
  assumes "committed_slots es = slot_run 0 n" "n \<le> k" "k < 2 ^ 64"
  shows "slot_index es (word_of_nat k) = None"
  using assms by (auto simp: slot_index_None mem_slot_run word_of_nat_eq_iff64)

section \<open>The newest slot\<close>

text \<open>\<open>Some(done.map_or(s, |d| d.max(s)))\<close>\<close>

definition high_water :: "u64 \<Rightarrow> u64 option \<Rightarrow> u64 option" where
  "high_water s d = Some (case d of None \<Rightarrow> s | Some k \<Rightarrow> max k s)"

lemma fold_high_water:
  "sorted ss \<Longrightarrow> fold high_water ss None = (if ss = [] then None else Some (last ss))"
  by (induction ss rule: rev_induct) (auto simp: high_water_def sorted_append)

lemma fold_high_water_run:
  "n \<le> 2 ^ 64 \<Longrightarrow>
     fold high_water (slot_run 0 n) None = (if n = 0 then None else Some (word_of_nat (n - 1)))"
  using fold_high_water [OF sorted_slot_run, of n 0]
  by (cases n) (simp_all add: slot_run_Suc)

section \<open>Logs that commit and rule in order\<close>

text \<open>
  Slots are committed \<open>0, 1, ...\<close>, and ruled on \<open>0, 1, ...\<close> after their commit, in every prefix.
\<close>

definition well_ruled :: "entry list \<Rightarrow> bool" where
  "well_ruled es \<longleftrightarrow>
     (\<forall>i \<le> length es. \<exists>k n. k \<le> n \<and> ruled_slots (take i es) = slot_run 0 k \<and>
        committed_slots (take i es) = slot_run 0 n)"

lemma well_ruled_Nil [simp]: "well_ruled []"
  unfolding well_ruled_def by (auto intro!: exI [of _ "0::nat"])

lemma well_ruled_snoc:
  "well_ruled (es @ [e]) \<longleftrightarrow> well_ruled es \<and>
     (\<exists>k n. k \<le> n \<and> ruled_slots (es @ [e]) = slot_run 0 k \<and> committed_slots (es @ [e]) = slot_run 0 n)"
  unfolding well_ruled_def by (auto simp: le_Suc_eq)

lemma well_ruled_snocI:
  "well_ruled es \<Longrightarrow> k \<le> n \<Longrightarrow> ruled_slots (es @ [e]) = slot_run 0 k \<Longrightarrow>
     committed_slots (es @ [e]) = slot_run 0 n \<Longrightarrow> well_ruled (es @ [e])"
  unfolding well_ruled_snoc by blast

lemma well_ruled_obtains:
  assumes "well_ruled es" "i \<le> length es"
  obtains k n where "k \<le> n" "ruled_slots (take i es) = slot_run 0 k"
    "committed_slots (take i es) = slot_run 0 n"
  using assms by (auto simp: well_ruled_def)

lemma well_ruled_other:
  assumes "well_ruled es" "\<forall>e \<in> set fs. ruled_slot e = None \<and> slot_of_commit e = None"
  shows "well_ruled (es @ fs) \<and> ruled_slots (es @ fs) = ruled_slots es \<and>
    committed_slots (es @ fs) = committed_slots es"
  using assms
proof (induction fs rule: rev_induct)
  case Nil
  then show ?case by simp
next
  case (snoc f fs)
  then have IH: "well_ruled (es @ fs)" "ruled_slots (es @ fs) = ruled_slots es"
    "committed_slots (es @ fs) = committed_slots es" and f: "ruled_slot f = None" "slot_of_commit f = None"
    by simp_all
  moreover obtain k n where "k \<le> n" "ruled_slots es = slot_run 0 k" "committed_slots es = slot_run 0 n"
    using well_ruled_obtains [OF snoc.prems(1), of "length es"] by auto
  ultimately show ?case
    by (auto simp: well_ruled_snoc simp flip: append_assoc)
qed

lemma slot_run_inject: "slot_run 0 k = slot_run 0 n \<longleftrightarrow> k = n"
  by (metis length_slot_run diff_zero)

lemma well_ruled_code:
  "well_ruled es \<longleftrightarrow>
     list_all (\<lambda>i. let r = ruled_slots (take i es); c = committed_slots (take i es)
       in length r \<le> length c \<and> r = slot_run 0 (length r) \<and> c = slot_run 0 (length c))
     [0..<Suc (length es)]"
  unfolding well_ruled_def list_all_iff Let_def atLeastLessThan_upt [symmetric] atLeast0LessThan
    lessThan_Suc_atMost
  by (metis atMost_iff diff_zero length_slot_run)

text \<open>The next entry of such a log.\<close>

lemma well_ruled_step:
  assumes "well_ruled es" "i < length es"
    and "ruled_slots (take i es) = slot_run 0 k" "committed_slots (take i es) = slot_run 0 n"
  shows "slot_of_commit (es ! i) = Some s \<Longrightarrow> s = word_of_nat n"
    and "ruled_slot (es ! i) = Some s \<Longrightarrow> s = word_of_nat k \<and> k < n"
proof -
  obtain k' n' where kn: "k' \<le> n'" "ruled_slots (take (Suc i) es) = slot_run 0 k'"
    "committed_slots (take (Suc i) es) = slot_run 0 n'"
    using well_ruled_obtains [OF assms(1), of "Suc i"] assms(2) by auto
  have take: "take (Suc i) es = take i es @ [es ! i]"
    using assms(2) by (rule take_Suc_conv_app_nth)
  show "s = word_of_nat n" if "slot_of_commit (es ! i) = Some s"
  proof -
    from kn(3) take that assms(4) have "slot_run 0 n @ [s] = slot_run 0 n'"
      by simp
    moreover from arg_cong [OF this, of length] have "n' = Suc n" by simp
    ultimately show ?thesis by (simp add: slot_run_Suc)
  qed
  show "s = word_of_nat k \<and> k < n" if "ruled_slot (es ! i) = Some s"
  proof -
    from kn(2) take that assms(3) have "slot_run 0 k @ [s] = slot_run 0 k'"
      by simp
    moreover from arg_cong [OF this, of length] have k': "k' = Suc k" by simp
    moreover have "slot_of_commit (es ! i) = None"
      using that by (cases "es ! i") simp_all
    with kn(3) take assms(4) have "n' = n"
      by (simp add: slot_run_inject)
    ultimately show ?thesis
      using kn(1) by (simp add: slot_run_Suc)
  qed
qed

end
