(* ===== verification/Sequencer_Properties.thy ===== *)
theory Sequencer_Properties
  imports Sequencer Slot_Log Ordering_Properties
begin

text \<open>
  The properties of the sequencer task over the in-memory log: what a slot boundary writes, that
  it accounts for every buffered intent, that recovery resumes where the task stood, and that a
  log claiming more than it holds is refused.
\<close>

lemma append_each_mem:
  "fst (append_each mem_ops es l) = Ok () \<and> ml_entries (snd (append_each mem_ops es l)) = ml_entries l @ es"
  by (induction es arbitrary: l) (simp_all add: mem_append_eq)

lemma mem_tick:
  "fst (seq_on_tick mem_ops K now (s, l)) = Ok (seq_ticked s) \<and>
   ml_entries (snd (seq_on_tick mem_ops K now (s, l))) = ml_entries l @ tick_entries K now s"
  using append_each_mem [of "tick_entries K now s" l]
  by (cases "append_each mem_ops (tick_entries K now s) l") (auto simp: seq_on_tick_eq)

lemma seq_progress_append:
  "seq_progress (es @ fs) = fold seq_recover_entry fs (seq_progress es)"
  by (simp add: seq_progress_def)

lemma seq_recover_other: "committed_slots es = [] \<Longrightarrow> fold seq_recover_entry es s = s"
proof (induction es)
  case Nil
  then show ?case by simp
next
  case (Cons e es)
  then show ?case by (cases e) simp_all
qed

lemma committed_slots_tick_expired: "committed_slots (tick_expired now s) = []"
  by (auto simp: committed_slots_def filter_empty_conv map_filter_def tick_expired_def)

lemma seq_progress_tick: "seq_progress (es @ tick_entries K now s) = (sq_cursor s, sq_next_slot s + 1)"
  by (simp add: seq_progress_append tick_entries_def tick_slot_def)

lemma mem_seq_recover:
  "seq_recover mem_ops l =
    (let (cursor, next_slot) = seq_progress (ml_entries l);
         head = position_of (length (ml_entries l))
     in if cursor > head then Err (CorruptLog cursor head) else Ok (cursor, next_slot))"
  by (rule mem.seq_recover_eq) (simp_all add: mem_read_from_eq)

section \<open>Properties\<close>

text \<open>
  A slot boundary appends one \<open>IntentExpired\<close> per intent whose guarantee was missed and then
  one \<open>SlotCommitted\<close> with the ordered rest, the cursor it consumed up to and the commitment over
  exactly those ids; it empties the buffer and advances the slot number.
\<close>

theorem tick_writes_slot:
  "let (live, expired) = partition_expired (sq_buffer s) now (sq_guarantee s);
       (r, l') = seq_on_tick mem_ops K now (s, l)
   in r = Ok (s\<lparr>sq_buffer := [], sq_next_slot := sq_next_slot s + 1\<rparr>) \<and>
      ml_entries l' = ml_entries l @
        map (\<lambda>(i, deadline). IntentExpired i deadline now) expired @
        [SlotCommitted (sq_next_slot s) (order_slot live) (sq_cursor s)
           (commit K (sq_next_slot s) (order_slot live)) now]"
  using mem_tick [of K now s l]
  by (simp add: Let_def case_prod_beta seq_ticked_def tick_entries_def tick_expired_def tick_slot_def
      tick_intents_def)

text \<open>
  C17: Accounting. The ids of the slot and of the expiries written together are the buffered ids,
  each as often as it was buffered; the slot holds those whose deadline has not passed at the
  close and the expiries name the others with their missed deadline. No intent is both, and none
  is dropped silently.
\<close>

theorem tick_accounts_for_buffer:
  "mset (tick_intents now s) +
     mset (List.map_filter (\<lambda>e. case e of IntentExpired i _ _ \<Rightarrow> Some i | _ \<Rightarrow> None) (tick_expired now s)) =
     image_mset p_id (mset (sq_buffer s)) \<and>
   (\<forall>i. i \<in> set (tick_intents now s) \<longleftrightarrow>
     (\<exists>p\<in>set (sq_buffer s). p_id p = i \<and> now \<le> deadline_for (sq_guarantee s) (p_received_at p))) \<and>
   (\<forall>e. e \<in> set (tick_expired now s) \<longleftrightarrow>
     (\<exists>p\<in>set (sq_buffer s). deadline_for (sq_guarantee s) (p_received_at p) < now \<and>
        e = IntentExpired (p_id p) (deadline_for (sq_guarantee s) (p_received_at p)) now))"
  by (simp add: tick_partition [of s now] map_fst_tick_expired tick_intents_mem tick_expired_mem)

text \<open>
  Restart after a slot close. Recovery from the log the close left returns the cursor and the
  slot number the running sequencer continues with, so a restart neither reuses a slot number nor
  reads an intent twice.
\<close>

theorem recovery_resumes_sequencer:
  assumes "seq_on_tick mem_ops K now (s, l) = (Ok s', l')"
    and "offset (sq_cursor s) \<le> length (ml_entries l)" "length (ml_entries l') < 2 ^ 64"
  shows "seq_recover mem_ops l' = Ok (sq_cursor s', sq_next_slot s')"
proof -
  have s': "s' = seq_ticked s" and l': "ml_entries l' = ml_entries l @ tick_entries K now s"
    using mem_tick [of K now s l] assms(1) by simp_all
  have "\<not> position_of (length (ml_entries l')) < sq_cursor s"
    using assms(2,3) l' by (simp add: position_less_offset)
  then show ?thesis
    by (simp add: mem_seq_recover l' seq_progress_tick s' seq_ticked_def)
qed

definition sample_sequencer :: sequencer where
  "sample_sequencer =
     \<lparr>sq_buffer = [sample_a], sq_guarantee = guarantee_default, sq_cursor = position_ZERO,
      sq_next_slot = 0\<rparr>"

theorem recovery_resumes_sequencer_witness:
  "seq_recover mem_ops
     (snd (seq_on_tick mem_ops (\<lambda>_. array_repeat 0) 3 (sample_sequencer, mem_log_new))) =
   Ok (position_ZERO, 1)"
proof -
  let ?out = "seq_on_tick mem_ops (\<lambda>_. array_repeat 0) 3 (sample_sequencer, mem_log_new)"
  have out: "?out = (Ok (seq_ticked sample_sequencer), snd ?out)"
    using mem_tick [of "\<lambda>_. array_repeat 0" 3 sample_sequencer mem_log_new] by (simp add: prod_eq_iff)
  have len: "length (ml_entries (snd ?out)) = 1"
    using mem_tick [of "\<lambda>_. array_repeat 0" 3 sample_sequencer mem_log_new]
    by (simp add: mem_log_new_def tick_entries_def tick_expired_def partition_expired_eq
        sample_sequencer_def sample_a_def deadline_for_def window_size_def guarantee_default_def)
  from recovery_resumes_sequencer [OF out] len show ?thesis
    by (simp add: sample_sequencer_def seq_ticked_def)
qed

text \<open>
  Recovery follows the newest committed slot of the log, and refuses the log when that slot
  claims to have consumed entries beyond the head.
\<close>

theorem recovery_checks_cursor:
  assumes "ml_entries l = pre @ SlotCommitted slot ids c k t # post" "committed_slots post = []"
  shows "seq_recover mem_ops l =
    (if c > position_of (length (ml_entries l))
     then Err (CorruptLog c (position_of (length (ml_entries l))))
     else Ok (c, slot + 1))"
  using assms
  by (simp add: mem_seq_recover seq_progress_append seq_recover_other Let_def)

theorem recovery_checks_cursor_witness:
  "seq_recover mem_ops
     \<lparr>ml_entries = [SlotCommitted 4 [] (Position 9) (Commitment (array_repeat 0)) 7], ml_doorbell = []\<rparr> =
   Err (CorruptLog (Position 9) (Position 1))"
  using recovery_checks_cursor [where pre = "[]" and post = "[]" and slot = 4 and ids = "[]"
      and c = "Position 9" and k = "Commitment (array_repeat 0)" and t = 7
      and l = "\<lparr>ml_entries = [SlotCommitted 4 [] (Position 9) (Commitment (array_repeat 0)) 7],
        ml_doorbell = []\<rparr>"]
  by (simp add: position_of_def)

end
