(* ===== verification/Attest.thy ===== *)
theory Attest
  imports Ordering_Policy Intent_Log Slot_Log
begin

text \<open>
  TEE preconfirmation and its verification path (\<^verbatim>\<open>src/src/attest.rs\<close>): the mock quote codec,
  \<open>verify_preconf\<close> over any verifier, the attester task over any enclave, its recovery, and the
  mock enclave and verifier. The locale \<open>honest_enclave\<close> states what an enclave owes a verifier.
\<close>

section \<open>Quotes\<close>

datatype measurement = Measurement (measurement_array: "32 array")

definition MOCK_MEASUREMENT :: measurement where
  "MOCK_MEASUREMENT = Measurement (array_repeat 0x5e)"

definition QUOTE_MAGIC :: bytes where "QUOTE_MAGIC = as_bytes ''MOCKQUOTE''"

definition QUOTE_VERSION :: u8 where "QUOTE_VERSION = 1"

definition QUOTE_LEN :: nat where "QUOTE_LEN = 9 + 1 + 8 + 32 + 32"

definition encode_quote :: "u64 \<Rightarrow> commitment \<Rightarrow> measurement \<Rightarrow> bytes" where
  "encode_quote slot c m =
     QUOTE_MAGIC @ [QUOTE_VERSION] @ to_le_bytes slot @ array_bytes (commitment_array c) @
     array_bytes (measurement_array m)"

datatype verify_error =
    MalformedQuote
  | SlotMismatch u64 u64
      \<comment> \<open>\<open>claimed\<close>, \<open>quoted\<close>\<close>
  | CommitmentMismatch
  | ContentsMismatch
  | UntrustedMeasurement measurement
  | BadSignature

text \<open>
  The slices are in range once the length is checked, and the \<open>try_into\<close> of an 8- or 32-byte
  slice cannot fail.
\<close>

definition decode_quote :: "bytes \<Rightarrow> verify_error + u64 \<times> commitment \<times> measurement" where
  "decode_quote bs =
    (if length bs \<noteq> QUOTE_LEN \<or> take (length QUOTE_MAGIC) bs \<noteq> QUOTE_MAGIC
        \<or> bs ! length QUOTE_MAGIC \<noteq> QUOTE_VERSION
     then Err MalformedQuote
     else
       let body = drop (length QUOTE_MAGIC + 1) bs
       in Ok (from_le_bytes (take 8 body),
              Commitment (array_of_bytes (take 32 (drop 8 body))),
              Measurement (array_of_bytes (take 32 (drop 40 body)))))"

section \<open>Verification\<close>

record preconf_claim =
  pc_slot :: u64
  pc_commitment :: commitment
  pc_quote :: bytes
  pc_signature :: signature

text \<open>The \<open>Verifier\<close> trait.\<close>

record verifier =
  vf_trusts :: "measurement \<Rightarrow> bool"
  vf_signature_is_valid :: "commitment \<Rightarrow> signature \<Rightarrow> bool"

text \<open>\<open>MockVerifier::pinning(m)\<close>, and its \<open>default\<close>.\<close>

definition mock_verifier :: "keccak \<Rightarrow> measurement \<Rightarrow> verifier" where
  "mock_verifier K pinned =
     \<lparr>vf_trusts = (\<lambda>m. m = pinned),
      vf_signature_is_valid = (\<lambda>c s. s = mock_over K (array_bytes (commitment_array c)))\<rparr>"

definition mock_verifier_default :: "keccak \<Rightarrow> verifier" where
  "mock_verifier_default K = mock_verifier K MOCK_MEASUREMENT"

definition verify_preconf ::
    "keccak \<Rightarrow> verifier \<Rightarrow> preconf_claim \<Rightarrow> intent_id list \<Rightarrow> verify_error + unit" where
  "verify_preconf K V claim intents =
    (if commit K (pc_slot claim) intents \<noteq> pc_commitment claim then Err ContentsMismatch
     else
       try_bind (decode_quote (pc_quote claim))
         (\<lambda>(slot, c, m).
            if slot \<noteq> pc_slot claim then Err (SlotMismatch (pc_slot claim) slot)
            else if c \<noteq> pc_commitment claim then Err CommitmentMismatch
            else if \<not> vf_trusts V m then Err (UntrustedMeasurement m)
            else if \<not> vf_signature_is_valid V c (pc_signature claim) then Err BadSignature
            else Ok ()))"

section \<open>The enclave and the attester task\<close>

datatype enclave_error =
    Unavailable string
  | QuoteError string
      \<comment> \<open>\<open>EnclaveError::Quote\<close>\<close>

fun enclave_error_to_string :: "enclave_error \<Rightarrow> string" where
  "enclave_error_to_string (Unavailable s) = ''enclave unavailable: '' @ s"
| "enclave_error_to_string (QuoteError s) = ''quote generation failed: '' @ s"

record quote =
  q_quote :: bytes
  q_sig :: signature

text \<open>The \<open>Enclave\<close> trait's method over an enclave state \<open>'e\<close>.\<close>

type_synonym 'e attest_op =
  "u64 \<Rightarrow> intent_id list \<Rightarrow> commitment \<Rightarrow> 'e \<Rightarrow> (enclave_error + quote) \<times> 'e"

datatype attest_error =
    AttestLog log_error
  | AttestCorrupt string

record 'e attester =
  at_enclave :: 'e
  at_cursor :: position

text \<open>The verdict on one committed slot.\<close>

definition attest_slot ::
    "keccak \<Rightarrow> 'e attest_op \<Rightarrow> u64 \<Rightarrow> intent_id list \<Rightarrow> commitment \<Rightarrow> 'e \<Rightarrow> entry \<times> 'e" where
  "attest_slot K attest slot intents c en =
    (let recomputed = commit K slot intents
     in if recomputed \<noteq> c then (AttestFailed slot ''commitment mismatch'', en)
        else
          case attest slot intents c en of
            (Ok q, en') \<Rightarrow> (SlotAttested slot (q_quote q) (q_sig q), en')
          | (Err e, en') \<Rightarrow> (AttestFailed slot (enclave_error_to_string e), en'))"

text \<open>The body of the loop over a batch: append, then advance.\<close>

definition att_process ::
    "'l log_ops \<Rightarrow> keccak \<Rightarrow> 'e attest_op \<Rightarrow> position \<times> entry \<Rightarrow> 'e attester \<times> 'l \<Rightarrow>
       (attest_error + unit) \<times> 'e attester \<times> 'l" where
  "att_process L K attest pe s =
    (let (a, l) = s; (pos, e) = pe
     in case e of
          SlotCommitted slot intents _ c _ \<Rightarrow>
            (let (v, en') = attest_slot K attest slot intents c (at_enclave a)
             in case lg_append L v l of
                  (Err x, l') \<Rightarrow> (Err (AttestLog x), a\<lparr>at_enclave := en'\<rparr>, l')
                | (Ok _, l') \<Rightarrow>
                    (Ok (), a\<lparr>at_enclave := en', at_cursor := position_next pos\<rparr>, l'))
        | _ \<Rightarrow> (Ok (), a\<lparr>at_cursor := position_next pos\<rparr>, l))"

fun att_process_batch ::
    "'l log_ops \<Rightarrow> keccak \<Rightarrow> 'e attest_op \<Rightarrow> (position \<times> entry) list \<Rightarrow> 'e attester \<times> 'l \<Rightarrow>
       (attest_error + unit) \<times> 'e attester \<times> 'l" where
  "att_process_batch L K attest [] s = (Ok (), s)"
| "att_process_batch L K attest (pe # pes) s =
     (case att_process L K attest pe s of
        (Err x, s') \<Rightarrow> (Err x, s')
      | (Ok _, s') \<Rightarrow> att_process_batch L K attest pes s')"

text \<open>One turn of the outer loop.\<close>

definition att_on_doorbell ::
    "'l log_ops \<Rightarrow> keccak \<Rightarrow> 'e attest_op \<Rightarrow> 'e attester \<times> 'l \<Rightarrow>
       (attest_error + unit) \<times> 'e attester \<times> 'l" where
  "att_on_doorbell L K attest s =
    (case lg_read_from L (at_cursor (fst s)) (snd s) of
       Err x \<Rightarrow> (Err (AttestLog x), s)
     | Ok batch \<Rightarrow> att_process_batch L K attest batch s)"

text \<open>
  Recovery: the newest slot ruled on, and where each slot was committed. \<open>last + 1\<close> wraps.
\<close>

fun att_recover_entry ::
    "position \<times> entry \<Rightarrow> u64 option \<times> (u64 \<rightharpoonup> position) \<Rightarrow> u64 option \<times> (u64 \<rightharpoonup> position)" where
  "att_recover_entry (pos, SlotCommitted slot _ _ _ _) (d, m) = (d, m(slot \<mapsto> pos))"
| "att_recover_entry (pos, SlotAttested slot _ _) (d, m) =
     (Some (case d of None \<Rightarrow> slot | Some k \<Rightarrow> max k slot), m)"
| "att_recover_entry (pos, AttestFailed slot _) (d, m) =
     (Some (case d of None \<Rightarrow> slot | Some k \<Rightarrow> max k slot), m)"
| "att_recover_entry _ s = s"

text \<open>
  The scan is followed by a separate read of the head, between which other tasks may append, so
  the head is an argument of its own.
\<close>

definition attester_resume :: "(position \<times> entry) list \<Rightarrow> position \<Rightarrow> position" where
  "attester_resume pes head =
    (let (done_through, slot_positions) = fold att_recover_entry pes (None, Map.empty)
     in case done_through of
          None \<Rightarrow> position_ZERO
        | Some k \<Rightarrow> (case slot_positions (k + 1) of Some p \<Rightarrow> p | None \<Rightarrow> head))"

definition recover_attester :: "'l log_ops \<Rightarrow> 'l \<Rightarrow> attest_error + position" where
  "recover_attester L l =
     try_bind (map_err AttestLog (lg_read_from L position_ZERO l))
       (\<lambda>pes. Ok (attester_resume pes (lg_head L l)))"

text \<open>\<open>Attester::new\<close> and the head of \<open>run\<close>.\<close>

definition attester_start :: "'l log_ops \<Rightarrow> 'e \<Rightarrow> 'l \<Rightarrow> attest_error + 'e attester" where
  "attester_start L en l =
     try_bind (recover_attester L l) (\<lambda>cursor. Ok \<lparr>at_enclave = en, at_cursor = cursor\<rparr>)"

section \<open>The mock enclave\<close>

record mock_enclave =
  me_latency :: duration
  me_fail_slots :: "u64 set"
  me_seen :: "u64 list"
  me_measurement :: measurement

definition mock_enclave_new :: mock_enclave where
  "mock_enclave_new =
     \<lparr>me_latency = from_millis 2, me_fail_slots = {}, me_seen = [],
      me_measurement = MOCK_MEASUREMENT\<rparr>"

definition enclave_failing_on :: "u64 list \<Rightarrow> mock_enclave \<Rightarrow> mock_enclave" where
  "enclave_failing_on slots en = en\<lparr>me_fail_slots := set slots\<rparr>"

definition enclave_with_latency :: "duration \<Rightarrow> mock_enclave \<Rightarrow> mock_enclave" where
  "enclave_with_latency d en = en\<lparr>me_latency := d\<rparr>"

definition with_measurement :: "measurement \<Rightarrow> mock_enclave \<Rightarrow> mock_enclave" where
  "with_measurement m en = en\<lparr>me_measurement := m\<rparr>"

text \<open>The simulated round trip sleeps, which changes no state.\<close>

definition mock_attest :: "keccak \<Rightarrow> mock_enclave attest_op" where
  "mock_attest K slot intents c en =
    (let en = en\<lparr>me_seen := me_seen en @ [slot]\<rparr>
     in if slot \<in> me_fail_slots en
        then (Err (Unavailable (''mock failure on slot '' @ show_u64 slot)), en)
        else
          let recomputed = commit K slot intents
          in if recomputed \<noteq> c
             then (Err (QuoteError ''commitment mismatch inside enclave''), en)
             else
               (Ok \<lparr>q_quote = encode_quote slot c (me_measurement en),
                    q_sig = mock_over K (array_bytes (commitment_array c))\<rparr>, en))"

section \<open>The quote codec\<close>

lemma length_QUOTE_MAGIC [simp]: "length QUOTE_MAGIC = 9"
  by (simp add: QUOTE_MAGIC_def)

lemma length_encode_quote: "length (encode_quote slot c m) = QUOTE_LEN"
  by (simp add: encode_quote_def QUOTE_LEN_def)

lemma decode_encode_quote: "decode_quote (encode_quote slot c m) = Ok (slot, c, m)"
proof -
  have "take 8 (to_le_bytes slot @ xs) = to_le_bytes slot"
    and "drop 8 (to_le_bytes slot @ xs) = xs"
    and "drop 40 (to_le_bytes slot @ array_bytes (commitment_array c) @ xs) = xs" for xs
    by simp_all
  then show ?thesis
    using length_encode_quote [of slot c m]
    by (simp add: decode_quote_def) (simp add: encode_quote_def nth_append)
qed

lemma decode_quote_Ok_iff: "decode_quote bs = Ok (slot, c, m) \<longleftrightarrow> bs = encode_quote slot c m"
proof
  assume dec: "decode_quote bs = Ok (slot, c, m)"
  let ?body = "drop 10 bs"
  from dec have len: "length bs = 82" and magic: "take 9 bs = QUOTE_MAGIC"
    and version: "bs ! 9 = QUOTE_VERSION"
    and slot: "slot = from_le_bytes (take 8 ?body)"
    and c: "c = Commitment (array_of_bytes (take 32 (drop 8 ?body)))"
    and m: "m = Measurement (array_of_bytes (take 32 (drop 40 ?body)))"
    by (auto simp: decode_quote_def QUOTE_LEN_def Let_def split: if_splits)
  have "bs = take 9 bs @ bs ! 9 # ?body"
    using len id_take_nth_drop [of 9 bs] by simp
  also have "?body = take 8 ?body @ take 32 (drop 8 ?body) @ take 32 (drop 40 ?body)"
    using len append_take_drop_id [of 8 ?body] append_take_drop_id [of 32 "drop 8 ?body"]
    by simp
  also have "take 8 ?body = to_le_bytes slot"
    using len unfolding slot by (subst to_le_bytes_from_le_bytes) simp_all
  also have "take 32 (drop 8 ?body) = array_bytes (commitment_array c)"
    using len unfolding c by (simp add: array_bytes_of_bytes)
  also have "take 32 (drop 40 ?body) = array_bytes (measurement_array m)"
    using len unfolding m by (simp add: array_bytes_of_bytes)
  finally show "bs = encode_quote slot c m"
    by (simp add: encode_quote_def magic version)
qed (simp add: decode_encode_quote)

section \<open>Verification\<close>

lemma verify_preconf_Ok_iff:
  "verify_preconf K V claim intents = Ok () \<longleftrightarrow>
     commit K (pc_slot claim) intents = pc_commitment claim \<and>
     (\<exists>m. pc_quote claim = encode_quote (pc_slot claim) (pc_commitment claim) m \<and> vf_trusts V m) \<and>
     vf_signature_is_valid V (pc_commitment claim) (pc_signature claim)"
  (is "?ok \<longleftrightarrow> ?valid")
proof
  assume ?ok
  then obtain slot c m where "decode_quote (pc_quote claim) = Ok (slot, c, m)"
    and "commit K (pc_slot claim) intents = pc_commitment claim"
    and "slot = pc_slot claim" "c = pc_commitment claim" "vf_trusts V m"
    and "vf_signature_is_valid V c (pc_signature claim)"
    by (auto simp: verify_preconf_def try_bind_Ok_iff split: if_splits)
  then show ?valid
    by (auto simp: decode_quote_Ok_iff)
next
  assume ?valid
  then show ?ok
    by (auto simp: verify_preconf_def decode_encode_quote)
qed

text \<open>
  What an enclave owes a verifier: the quote it returns names the slot and commitment it was
  asked about and a build the verifier trusts, and the signature passes the verifier's check.
\<close>

locale honest_enclave =
  fixes attest :: "'e attest_op"
    and V :: verifier
    and honest :: "'e \<Rightarrow> bool"
  assumes attest_honest: "honest en \<Longrightarrow> attest slot intents c en = (r, en') \<Longrightarrow> honest en'"
    and attest_Ok: "honest en \<Longrightarrow> attest slot intents c en = (Ok q, en') \<Longrightarrow>
      (\<exists>m. q_quote q = encode_quote slot c m \<and> vf_trusts V m) \<and>
      vf_signature_is_valid V c (q_sig q)"
begin

text \<open>A slot the attester attested verifies against the intents the log committed.\<close>

lemma attested_verifies:
  assumes "honest en" "attest_slot K attest slot intents c en = (SlotAttested slot' bs sig, en')"
  shows "slot' = slot \<and> honest en' \<and>
    verify_preconf K V
      \<lparr>pc_slot = slot, pc_commitment = c, pc_quote = bs, pc_signature = sig\<rparr> intents = Ok ()"
proof -
  from assms(2) obtain q where "commit K slot intents = c"
    and q: "attest slot intents c en = (Ok q, en')"
    and "slot' = slot" "bs = q_quote q" "sig = q_sig q"
    by (auto simp: attest_slot_def Let_def split: if_splits prod.splits sum.splits)
  with attest_Ok [OF assms(1) q] attest_honest [OF assms(1) q] show ?thesis
    by (auto simp: verify_preconf_Ok_iff)
qed

end

text \<open>
  The mock enclave is honest towards the mock verifier that pins the build it claims: the claim
  is part of the state and no attestation changes it.
\<close>

interpretation mock_enclave: honest_enclave "mock_attest K" "mock_verifier K pinned"
  "\<lambda>en. me_measurement en = pinned" for K pinned
  by unfold_locales
    (auto simp: mock_attest_def mock_verifier_def Let_def split: if_splits)

section \<open>The attester task\<close>

text \<open>What one entry makes the attester append, and the enclave state it leaves.\<close>

definition att_verdict ::
    "keccak \<Rightarrow> 'e attest_op \<Rightarrow> entry \<Rightarrow> 'e \<Rightarrow> entry option \<times> 'e" where
  "att_verdict K attest e en =
    (case e of
       SlotCommitted slot intents _ c _ \<Rightarrow>
         (let (v, en') = attest_slot K attest slot intents c en in (Some v, en'))
     | _ \<Rightarrow> (None, en))"

lemma attest_slot_ruled: "attest_slot K attest slot intents c en = (v, en') \<Longrightarrow> ruled_slot v = Some slot"
  by (auto simp: attest_slot_def Let_def split: if_splits prod.splits sum.splits)

text \<open>The verdicts on a run of entries.\<close>

fun verdicts :: "keccak \<Rightarrow> 'e attest_op \<Rightarrow> entry list \<Rightarrow> 'e \<Rightarrow> entry list \<times> 'e" where
  "verdicts K attest [] en = ([], en)"
| "verdicts K attest (e # es) en =
    (let (v, en') = att_verdict K attest e en;
         (vs, en'') = verdicts K attest es en'
     in (case v of None \<Rightarrow> vs | Some x \<Rightarrow> x # vs, en''))"

text \<open>The recovery scan is a high-water mark of the rulings and an index of the commits.\<close>

lemma fold_att_recover_entry:
  "fold att_recover_entry pes (d, m) =
     (fold high_water (ruled_slots (map snd pes)) d, fold index_slot pes m)"
proof (induction pes arbitrary: d m)
  case Nil
  then show ?case by simp
next
  case (Cons pe pes)
  obtain p e where "pe = (p, e)" by (cases pe)
  with Cons.IH show ?case
    by (cases e) (simp_all add: high_water_def fun_upd_def)
qed

lemma attester_resume_eq:
  assumes "ruled_slots es = slot_run 0 k" "k \<le> 2 ^ 64"
  shows "attester_resume (positioned es) head =
    (if k = 0 then position_ZERO
     else case slot_index es (word_of_nat k) of Some p \<Rightarrow> p | None \<Rightarrow> head)"
  using assms
  by (cases k) (simp_all add: attester_resume_def fold_att_recover_entry fold_high_water_run
      slot_index_def of_nat_Suc add.commute)

lemma ruled_slots_verdicts: "ruled_slots (fst (verdicts K attest es en)) = committed_slots es"
proof (induction es arbitrary: en)
  case Nil
  then show ?case by simp
next
  case (Cons e es)
  obtain v en' where v: "att_verdict K attest e en = (v, en')"
    by fastforce
  then have "ruled_slots (case v of None \<Rightarrow> [] | Some x \<Rightarrow> [x]) =
      (case slot_of_commit e of None \<Rightarrow> [] | Some s \<Rightarrow> [s])"
    by (cases e) (auto simp: att_verdict_def split: prod.splits dest!: attest_slot_ruled)
  with Cons.IH [of en'] v show ?case
    by (auto simp: case_prod_beta Let_def split: option.splits)
qed

context intent_log
begin

lemma att_process_outcome:
  assumes "ok l" "att_process L K attest (pos, e) (a, l) = (r, a', l')"
  shows "ok l' \<and>
    (case r of
       Err _ \<Rightarrow> entries l' = entries l \<and> at_cursor a' = at_cursor a
     | Ok _ \<Rightarrow>
         entries l' = entries l @ fst (verdicts K attest [e] (at_enclave a)) \<and>
         a' = \<lparr>at_enclave = snd (verdicts K attest [e] (at_enclave a)),
               at_cursor = position_next pos\<rparr>)"
  using assms append_Ok [OF assms(1)] append_Err [OF assms(1)]
  by (cases e)
    (auto simp: att_process_def att_verdict_def split: prod.splits sum.splits)

lemma att_batch_outcome:
  assumes "ok l"
    and "att_process_batch L K attest (positioned_from n es) (a, l) = (Ok (), a', l')"
  shows "ok l' \<and> entries l' = entries l @ fst (verdicts K attest es (at_enclave a)) \<and>
    at_enclave a' = snd (verdicts K attest es (at_enclave a)) \<and>
    at_cursor a' = (if es = [] then at_cursor a else position_of (n + length es))"
  using assms
proof (induction n es arbitrary: a l rule: positioned_from.induct)
  case (1 n)
  then show ?case by simp
next
  case (2 n e es)
  obtain r a2 l2 where step: "att_process L K attest (position_of n, e) (a, l) = (r, a2, l2)"
    by (metis prod_cases3)
  with "2.prems"(2) have r: "r = Ok ()"
    and rest: "att_process_batch L K attest (positioned_from (Suc n) es) (a2, l2) = (Ok (), a', l')"
    by (auto split: sum.splits)
  from att_process_outcome [OF "2.prems"(1) step] r
  have "ok l2" and l2: "entries l2 = entries l @ fst (verdicts K attest [e] (at_enclave a))"
    and a2: "at_enclave a2 = snd (verdicts K attest [e] (at_enclave a))"
      "at_cursor a2 = position_of (Suc n)"
    by auto
  with "2.IH" [OF \<open>ok l2\<close> rest] show ?case
    by (auto simp: case_prod_beta Let_def split: option.split)
qed

text \<open>
  When the log commits the slots \<open>0..<n\<close> and rules on \<open>0..<k\<close>, recovery returns a cursor from
  which the committed slots are exactly those not ruled on.
\<close>

lemma recover_attester_resumes:
  assumes "ok l" "lg_read_from L position_ZERO l = Ok pes" "length (entries l) < 2 ^ 64"
    and "committed_slots (entries l) = slot_run 0 n" "n < 2 ^ 64"
    and "ruled_slots (entries l) = slot_run 0 k" "k \<le> n"
  shows "\<exists>c. recover_attester L l = Ok (position_of c) \<and> c \<le> length (entries l) \<and>
    committed_slots (drop c (entries l)) = slot_run k n"
proof -
  have pes: "pes = positioned (entries l)"
    using read_from_Ok [OF assms(1,2)] by simp
  have rec: "recover_attester L l =
      Ok (if k = 0 then position_ZERO
          else case slot_index (entries l) (word_of_nat k) of Some p \<Rightarrow> p | None \<Rightarrow> lg_head L l)"
    using assms(2,5,7) attester_resume_eq [OF assms(6)] unfolding pes
    by (simp add: recover_attester_def)
  show ?thesis
  proof (cases "k = 0 \<or> k = n")
    case True
    then consider "k = 0" | "k \<noteq> 0" "k = n" by auto
    then show ?thesis
    proof cases
      case 1
      with rec assms(4) show ?thesis
        by (intro exI [of _ 0]) (simp add: position_of_0)
    next
      case 2
      with rec assms(1,3,5) slot_index_beyond [OF assms(4), of n] show ?thesis
        by (intro exI [of _ "length (entries l)"]) (simp add: head_eq)
    qed
  next
    case False
    then obtain i where "i < length (entries l)"
      "slot_index (entries l) (word_of_nat k) = Some (position_of i)"
      "committed_slots (drop i (entries l)) = slot_run k n"
      using slot_index_run [OF assms(4), of k] assms(5,7) by auto
    with rec False show ?thesis
      by (intro exI [of _ i]) simp
  qed
qed

end

end
