(* ===== verification/Attest_Properties.thy ===== *)
theory Attest_Properties
  imports Attest
begin

text \<open>
  The properties of preconfirmation: the quote codec, what the verifier accepts, that what the
  attester writes verifies, that every committed slot gets one verdict, and recovery.
\<close>

lemma att_process_mem: "fst (att_process mem_ops K attest pe (a, l)) = Ok ()"
  by (cases pe; cases "snd pe")
    (auto simp: att_process_def mem_append_eq Let_def split: prod.splits)

lemma att_batch_mem: "fst (att_process_batch mem_ops K attest pes al) = Ok ()"
proof (induction pes arbitrary: al)
  case Nil
  then show ?case by simp
next
  case (Cons pe pes)
  obtain a l where al: "al = (a, l)" by (cases al)
  obtain s' where "att_process mem_ops K attest pe al = (Ok (), s')"
    using att_process_mem [of K attest pe a l] al by (metis prod.collapse)
  with Cons.IH show ?case by simp
qed

lemma att_doorbell_mem:
  "att_on_doorbell mem_ops K attest (a, l) = (r, a', l') \<Longrightarrow>
     r = Ok () \<and>
     ml_entries l' = ml_entries l @
       fst (verdicts K attest (drop (offset (at_cursor a)) (ml_entries l)) (at_enclave a)) \<and>
     at_enclave a' =
       snd (verdicts K attest (drop (offset (at_cursor a)) (ml_entries l)) (at_enclave a)) \<and>
     at_cursor a' =
       (if length (ml_entries l) \<le> offset (at_cursor a) then at_cursor a
        else position_of (length (ml_entries l)))"
proof -
  let ?i = "offset (at_cursor a)"
  assume out: "att_on_doorbell mem_ops K attest (a, l) = (r, a', l')"
  then have run: "att_process_batch mem_ops K attest (positioned_from ?i (drop ?i (ml_entries l))) (a, l) =
      (r, a', l')"
    by (simp add: att_on_doorbell_def mem_read_from_eq drop_positioned_from)
  moreover from this have "r = Ok ()"
    using att_batch_mem [of K attest "positioned_from ?i (drop ?i (ml_entries l))" "(a, l)"] by simp
  ultimately show ?thesis
    using mem.att_batch_outcome [OF TrueI, of K attest ?i "drop ?i (ml_entries l)" a l a' l'] by auto
qed

text \<open>An attestation among the verdicts is of a committed slot whose commitment holds.\<close>

context honest_enclave
begin

lemma attest_slot_honest:
  "honest en \<Longrightarrow> attest_slot K attest slot intents c en = (v, en') \<Longrightarrow> honest en'"
  using attest_honest [of en slot intents c]
  by (auto simp: attest_slot_def Let_def split: if_splits prod.splits sum.splits)

lemma verdicts_verify:
  assumes "honest en" "SlotAttested slot q g \<in> set (fst (verdicts K attest es en))"
  shows "\<exists>intents p c t. SlotCommitted slot intents p c t \<in> set es \<and>
    verify_preconf K V \<lparr>pc_slot = slot, pc_commitment = c, pc_quote = q, pc_signature = g\<rparr> intents = Ok ()"
  using assms
proof (induction es arbitrary: en)
  case Nil
  then show ?case by simp
next
  case (Cons e es)
  obtain v en' where v: "att_verdict K attest e en = (v, en')" by fastforce
  have honest': "honest en'"
    using v Cons.prems(1) by (cases e) (auto simp: att_verdict_def split: prod.splits dest: attest_slot_honest)
  have "v = Some (SlotAttested slot q g) \<or> SlotAttested slot q g \<in> set (fst (verdicts K attest es en'))"
    using Cons.prems(2) v by (auto simp: case_prod_beta Let_def split: option.splits)
  then show ?case
  proof
    assume "v = Some (SlotAttested slot q g)"
    with v obtain s intents p c t where "e = SlotCommitted s intents p c t"
      "attest_slot K attest s intents c en = (SlotAttested slot q g, en')"
      by (cases e) (auto simp: att_verdict_def split: prod.splits)
    with attested_verifies [OF Cons.prems(1) this(2)] show ?thesis
      by (intro exI [of _ intents] exI [of _ p] exI [of _ c] exI [of _ t]) auto
  next
    assume "SlotAttested slot q g \<in> set (fst (verdicts K attest es en'))"
    with Cons.IH [OF honest'] show ?thesis by auto
  qed
qed

end

section \<open>Properties\<close>

text \<open>
  C24: The quote codec is exact: decoding yields a slot, commitment and measurement precisely for
  the byte string that encodes them, so no other bytes pass as a quote of theirs.
\<close>

theorem quote_codec_exact: "decode_quote bs = Ok (slot, c, m) \<longleftrightarrow> bs = encode_quote slot c m"
  by (rule decode_quote_Ok_iff)

text \<open>
  C23: A verifier accepts a preconfirmation claim exactly when the intents hash to the claimed
  commitment, the quote is the encoding of that slot and commitment under a measurement the
  verifier trusts, and the signature over the commitment is valid.
\<close>

theorem verify_accepts_iff:
  "verify_preconf K V claim intents = Ok () \<longleftrightarrow>
     commit K (pc_slot claim) intents = pc_commitment claim \<and>
     (\<exists>m. pc_quote claim = encode_quote (pc_slot claim) (pc_commitment claim) m \<and> vf_trusts V m) \<and>
     vf_signature_is_valid V (pc_commitment claim) (pc_signature claim)"
  by (rule verify_preconf_Ok_iff)

text \<open>
  Every attestation the attester produces with the mock enclave is of a committed slot and
  verifies, against the intents and the commitment the log holds for it, with the verifier that
  pins the enclave's measurement. A slot whose commitment does not match its intents is never
  attested.
\<close>

theorem attestations_verify:
  assumes "SlotAttested slot q g \<in> set (fst (verdicts K (mock_attest K) es en))"
  shows "\<exists>intents p c t. SlotCommitted slot intents p c t \<in> set es \<and>
    verify_preconf K (mock_verifier K (me_measurement en))
      \<lparr>pc_slot = slot, pc_commitment = c, pc_quote = q, pc_signature = g\<rparr> intents = Ok ()"
  using mock_enclave.verdicts_verify [OF refl assms] .

theorem attestations_verify_witness:
  "\<exists>intents p c t. SlotCommitted 3 intents p c t
      \<in> set [SlotCommitted 3 [] position_ZERO (commit (\<lambda>_. array_repeat 0) 3 []) 9] \<and>
    verify_preconf (\<lambda>_. array_repeat 0) (mock_verifier (\<lambda>_. array_repeat 0) MOCK_MEASUREMENT)
      \<lparr>pc_slot = 3, pc_commitment = c,
       pc_quote = encode_quote 3 (commit (\<lambda>_. array_repeat 0) 3 []) MOCK_MEASUREMENT,
       pc_signature = Signature (array_repeat 0)\<rparr> intents = Ok ()"
  using attestations_verify [of 3 "encode_quote 3 (commit (\<lambda>_. array_repeat 0) 3 []) MOCK_MEASUREMENT"
      "Signature (array_repeat 0)" "\<lambda>_. array_repeat 0"
      "[SlotCommitted 3 [] position_ZERO (commit (\<lambda>_. array_repeat 0) 3 []) 9]" mock_enclave_new]
  by (simp add: att_verdict_def attest_slot_def mock_attest_def mock_enclave_new_def mock_over_def
      hasher_finalize_def Let_def)

text \<open>
  C21: Reading a stretch of the log, the attester appends exactly one verdict per committed slot,
  in slot order and nothing else, and moves its cursor past what it read. This holds for every
  enclave, whatever it answers.
\<close>

theorem attester_rules_once:
  "let es = drop (offset (at_cursor a)) (ml_entries l);
       (r, a', l') = att_on_doorbell mem_ops K attest (a, l)
   in r = Ok () \<and>
      (\<exists>vs. ml_entries l' = ml_entries l @ vs \<and> ruled_slots vs = committed_slots es \<and>
         length vs = length (committed_slots es)) \<and>
      at_cursor a' = (if es = [] then at_cursor a else position_of (length (ml_entries l)))"
proof -
  obtain r a' l' where out: "att_on_doorbell mem_ops K attest (a, l) = (r, a', l')"
    by (metis prod_cases3)
  have "length (fst (verdicts K attest es en)) = length (committed_slots es)" for es en
  proof (induction es arbitrary: en)
    case (Cons e es)
    then show ?case
      by (cases e) (auto simp: att_verdict_def case_prod_beta Let_def)
  qed simp
  with att_doorbell_mem [OF out] show ?thesis
    by (simp add: out ruled_slots_verdicts)
qed

text \<open>
  On a log that commits the slots \<open>0..<n\<close> and rules on \<open>0..<k\<close>, recovery returns a
  cursor from which the committed slots are exactly \<open>k..<n\<close>: none is ruled on twice and none is
  left out.
\<close>

theorem attester_recovery_resumes:
  assumes "committed_slots (ml_entries l) = slot_run 0 n" "ruled_slots (ml_entries l) = slot_run 0 k"
    and "k \<le> n" "n < 2 ^ 64" "length (ml_entries l) < 2 ^ 64"
  shows "\<exists>c \<le> length (ml_entries l). recover_attester mem_ops l = Ok (position_of c) \<and>
    committed_slots (drop c (ml_entries l)) = slot_run k n"
  using mem.recover_attester_resumes [OF TrueI _ assms(5,1,4,2,3), of "positioned (ml_entries l)"]
  by (auto simp: mem_read_from_eq)

definition sample_slot :: "u64 \<Rightarrow> entry" where
  "sample_slot s = SlotCommitted s [] position_ZERO (Commitment (array_repeat 0)) 0"

definition sample_log :: mem_log where
  "sample_log =
     \<lparr>ml_entries = [sample_slot 0, AttestFailed 0 [], sample_slot 1, sample_slot 2], ml_doorbell = []\<rparr>"

lemma sample_log_slots:
  "committed_slots (ml_entries sample_log) = slot_run 0 3"
  "ruled_slots (ml_entries sample_log) = slot_run 0 1"
  by (simp_all add: sample_log_def sample_slot_def slot_run_def upt_conv_Cons)

theorem attester_recovery_resumes_witness:
  "\<exists>c \<le> length (ml_entries sample_log). recover_attester mem_ops sample_log = Ok (position_of c) \<and>
    committed_slots (drop c (ml_entries sample_log)) = slot_run 1 3"
  by (rule attester_recovery_resumes [OF sample_log_slots]) (simp_all add: sample_log_def)



end
