(* ===== verification/Prove.thy ===== *)
theory Prove
  imports Intent_Log Slot_Log Guarantee
begin

text \<open>
  The proof stage (\<^verbatim>\<open>src/src/prove/mod.rs\<close>): the backend seam as a record of operations, the
  batching prover over any backend and log, its recovery, and the mock backend. The locale
  \<open>proof_system\<close> states what a backend owes; \<open>releases\<close> and \<open>batch_plan\<close> are the abstract
  specification of the batching, and the prover refines them.
\<close>

section \<open>The backend seam\<close>

record committed_slot =
  cs_slot :: u64
  cs_intents :: "intent_id list"
  cs_commitment :: commitment

text \<open>The \<open>{:?}\<close> rendering of a \<open>Duration\<close>: the largest unit, then the fraction without trailing zeros.\<close>

fun fraction_digits :: "nat \<Rightarrow> nat \<Rightarrow> string" where
  "fraction_digits f divisor =
     (if f = 0 \<or> divisor = 0 then []
      else digit_char (f div divisor) # fraction_digits (f mod divisor) (divisor div 10))"

declare fraction_digits.simps [simp del]

definition show_decimal :: "nat \<Rightarrow> nat \<Rightarrow> nat \<Rightarrow> string \<Rightarrow> string" where
  "show_decimal whole fraction divisor suffix =
     show_nat whole @
     (case fraction_digits fraction divisor of [] \<Rightarrow> [] | ds \<Rightarrow> ''.'' @ ds) @ suffix"

definition micro_sign :: string where
  "micro_sign = [char_of (0xC2 :: nat), char_of (0xB5 :: nat)]"

definition show_duration :: "duration \<Rightarrow> string" where
  "show_duration d =
    (let secs = unat (dur_secs d); nanos = unat (dur_nanos d)
     in if secs > 0 then show_decimal secs nanos 100000000 ''s''
        else if nanos \<ge> 1000000
        then show_decimal (nanos div 1000000) (nanos mod 1000000) 100000 ''ms''
        else if nanos \<ge> 1000
        then show_decimal (nanos div 1000) (nanos mod 1000) 100 (micro_sign @ ''s'')
        else show_decimal nanos 0 1 ''ns'')"

datatype prove_failure =
    BackendFailure string
      \<comment> \<open>\<open>ProveFailure::Backend\<close>\<close>
  | Timeout duration

fun prove_failure_to_string :: "prove_failure \<Rightarrow> string" where
  "prove_failure_to_string (BackendFailure s) = ''prover backend: '' @ s"
| "prove_failure_to_string (Timeout d) = ''timed out after '' @ show_duration d"

datatype verify_failure =
    WrongBackend backend backend
      \<comment> \<open>\<open>want\<close>, \<open>got\<close>\<close>
  | WrongVerifyingKey
  | WrongStatement
  | MalformedProof
  | InvalidProof

datatype prove_error =
    ProveLog log_error
  | SlotGap u64 u64
      \<comment> \<open>\<open>expected\<close>, \<open>got\<close>\<close>
  | MissingCommit u64

text \<open>The \<open>Prove\<close> trait over a backend state \<open>'p\<close>. A \<open>prove\<close> that panics is \<open>None\<close>.\<close>

record 'p prove_ops =
  pv_backend :: "'p \<Rightarrow> backend"
  pv_prove :: "committed_slot list \<Rightarrow> 'p \<Rightarrow> ((prove_failure + proof_handle) \<times> 'p) option"
  pv_verify :: "proof_handle \<Rightarrow> committed_slot list \<Rightarrow> 'p \<Rightarrow> verify_failure + unit"

section \<open>The prover task\<close>

record batch_config =
  bc_batch_size :: nat
  bc_flush_after :: duration

text \<open>The struct's fields and the two locals of \<open>run\<close>. \<open>batch_size\<close> is a \<open>usize\<close>, a length.\<close>

record 'p prover =
  pr_prover :: 'p
  pr_awaiting :: "u64 \<rightharpoonup> committed_slot"
  pr_pending :: "committed_slot list"
  pr_batch_size :: nat
  pr_flush_after :: duration
  pr_cursor :: position
  pr_next_slot :: u64

text \<open>What a handler returns: \<open>None\<close> is a panic, an \<open>Err\<close> ends the task.\<close>

type_synonym ('p, 'l) prover_result = "((prove_error + unit) \<times> 'p prover \<times> 'l) option"

definition and_then ::
    "('p, 'l) prover_result \<Rightarrow> ('p prover \<times> 'l \<Rightarrow> ('p, 'l) prover_result) \<Rightarrow> ('p, 'l) prover_result" where
  "and_then r f =
    (case r of
       None \<Rightarrow> None
     | Some (Err e, s) \<Rightarrow> Some (Err e, s)
     | Some (Ok _, s) \<Rightarrow> f s)"

lemma and_then_simps [simp]:
  "and_then None f = None"
  "and_then (Some (Err e, s)) f = Some (Err e, s)"
  "and_then (Some (Ok u, s)) f = f s"
  by (simp_all add: and_then_def)

text \<open>The entry a batch turns into; \<open>first().unwrap()\<close> panics on an empty one.\<close>

definition proof_entry ::
    "'p prove_ops \<Rightarrow> committed_slot list \<Rightarrow> 'p \<Rightarrow> (entry \<times> 'p) option" where
  "proof_entry P batch st =
    (if batch = [] then None
     else
       let from_slot = cs_slot (hd batch); to_slot = cs_slot (last batch)
       in case pv_prove P batch st of
            None \<Rightarrow> None
          | Some (Ok h, st') \<Rightarrow> Some (SlotsProven from_slot to_slot h, st')
          | Some (Err e, st') \<Rightarrow>
              Some (ProveFailed from_slot to_slot (prove_failure_to_string e), st'))"

definition prover_flush ::
    "'l log_ops \<Rightarrow> 'p prove_ops \<Rightarrow> 'p prover \<times> 'l \<Rightarrow> ('p, 'l) prover_result" where
  "prover_flush L P s =
    (let (p, l) = s;
         batch = pr_pending p;
         p = p\<lparr>pr_pending := []\<rparr>
     in case proof_entry P batch (pr_prover p) of
          None \<Rightarrow> None
        | Some (e, st') \<Rightarrow>
            (case lg_append L e l of
               (Err x, l') \<Rightarrow> Some (Err (ProveLog x), p\<lparr>pr_prover := st'\<rparr>, l')
             | (Ok _, l') \<Rightarrow> Some (Ok (), p\<lparr>pr_prover := st'\<rparr>, l')))"

text \<open>The check at the end of the loop body.\<close>

definition prover_fill ::
    "'l log_ops \<Rightarrow> 'p prove_ops \<Rightarrow> 'p prover \<times> 'l \<Rightarrow> ('p, 'l) prover_result" where
  "prover_fill L P s =
    (if length (pr_pending (fst s)) \<ge> pr_batch_size (fst s) then prover_flush L P s
     else Some (Ok (), s))"

text \<open>The loop body. \<open>continue\<close> skips the check at its end.\<close>

definition prover_entry ::
    "'l log_ops \<Rightarrow> 'p prove_ops \<Rightarrow> entry \<Rightarrow> 'p prover \<times> 'l \<Rightarrow> ('p, 'l) prover_result" where
  "prover_entry L P e s =
    (let (p, l) = s; next_slot = pr_next_slot p
     in case e of
          SlotCommitted slot intents _ c _ \<Rightarrow>
            prover_fill L P
              (p\<lparr>pr_awaiting := (pr_awaiting p)
                   (slot \<mapsto> \<lparr>cs_slot = slot, cs_intents = intents, cs_commitment = c\<rparr>)\<rparr>, l)
        | SlotAttested slot _ _ \<Rightarrow>
            if slot < next_slot then Some (Ok (), p, l)
            else if slot \<noteq> next_slot then Some (Err (SlotGap next_slot slot), p, l)
            else
              (case pr_awaiting p slot of
                 None \<Rightarrow> Some (Err (MissingCommit slot), p, l)
               | Some s \<Rightarrow>
                   prover_fill L P
                     (p\<lparr>pr_awaiting := (pr_awaiting p)(slot := None),
                        pr_pending := pr_pending p @ [s],
                        pr_next_slot := next_slot + 1\<rparr>, l))
        | AttestFailed slot _ \<Rightarrow>
            if slot < next_slot then Some (Ok (), p, l)
            else if slot \<noteq> next_slot then Some (Err (SlotGap next_slot slot), p, l)
            else
              (let p = p\<lparr>pr_awaiting := (pr_awaiting p)(slot := None),
                         pr_next_slot := next_slot + 1\<rparr>
               in if pr_pending p \<noteq> []
                  then and_then (prover_flush L P (p, l)) (prover_fill L P)
                  else prover_fill L P (p, l))
        | _ \<Rightarrow> prover_fill L P (p, l))"

fun prover_entries ::
    "'l log_ops \<Rightarrow> 'p prove_ops \<Rightarrow> entry list \<Rightarrow> 'p prover \<times> 'l \<Rightarrow> ('p, 'l) prover_result" where
  "prover_entries L P [] s = Some (Ok (), s)"
| "prover_entries L P (e # es) s = and_then (prover_entry L P e s) (prover_entries L P es)"

text \<open>The doorbell branch: the whole batch is read, and the cursor moved, before it is processed.\<close>

definition prover_on_doorbell ::
    "'l log_ops \<Rightarrow> 'p prove_ops \<Rightarrow> 'p prover \<times> 'l \<Rightarrow> ('p, 'l) prover_result" where
  "prover_on_doorbell L P s =
    (let (p, l) = s
     in case lg_read_from L (pr_cursor p) l of
          Err x \<Rightarrow> Some (Err (ProveLog x), p, l)
        | Ok pes \<Rightarrow>
            let cursor = fold (\<lambda>(pos, e) _. position_next pos) pes (pr_cursor p)
            in prover_entries L P (map snd pes) (p\<lparr>pr_cursor := cursor\<rparr>, l))"

definition prover_on_timer ::
    "'l log_ops \<Rightarrow> 'p prove_ops \<Rightarrow> 'p prover \<times> 'l \<Rightarrow> ('p, 'l) prover_result" where
  "prover_on_timer L P s =
    (if pr_pending (fst s) \<noteq> [] then prover_flush L P s else Some (Ok (), s))"

text \<open>
  Recovery scans the log and then asks for its head. Other tasks may append in between, so the
  head is a separate argument.
\<close>

fun prover_recover_entry ::
    "position \<times> entry \<Rightarrow> u64 option \<times> (u64 \<rightharpoonup> position) \<Rightarrow> u64 option \<times> (u64 \<rightharpoonup> position)" where
  "prover_recover_entry (pos, SlotCommitted slot _ _ _ _) (d, m) = (d, m(slot \<mapsto> pos))"
| "prover_recover_entry (pos, SlotsProven _ to_slot _) (d, m) =
     (Some (case d of None \<Rightarrow> to_slot | Some k \<Rightarrow> max k to_slot), m)"
| "prover_recover_entry (pos, ProveFailed _ to_slot _) (d, m) =
     (Some (case d of None \<Rightarrow> to_slot | Some k \<Rightarrow> max k to_slot), m)"
| "prover_recover_entry _ s = s"

definition prover_resume :: "(position \<times> entry) list \<Rightarrow> position \<Rightarrow> position \<times> u64" where
  "prover_resume pes head =
    (let (done_through, slot_positions) = fold prover_recover_entry pes (None, Map.empty);
         next_slot = (case done_through of None \<Rightarrow> 0 | Some d \<Rightarrow> d + 1)
     in (case slot_positions next_slot of Some p \<Rightarrow> p | None \<Rightarrow> head, next_slot))"

definition recover_prover :: "'l log_ops \<Rightarrow> 'l \<Rightarrow> prove_error + position \<times> u64" where
  "recover_prover L l =
     try_bind (map_err ProveLog (lg_read_from L position_ZERO l))
       (\<lambda>pes. Ok (prover_resume pes (lg_head L l)))"

text \<open>\<open>Prover::new\<close> and the head of \<open>run\<close>.\<close>

definition prover_start ::
    "'l log_ops \<Rightarrow> 'p \<Rightarrow> batch_config \<Rightarrow> 'l \<Rightarrow> prove_error + 'p prover" where
  "prover_start L backend cfg l =
     try_bind (recover_prover L l)
       (\<lambda>(cursor, next_slot).
          Ok \<lparr>pr_prover = backend, pr_awaiting = Map.empty, pr_pending = [],
              pr_batch_size = bc_batch_size cfg, pr_flush_after = bc_flush_after cfg,
              pr_cursor = cursor, pr_next_slot = next_slot\<rparr>)"

section \<open>The mock backend\<close>

record mock_prover =
  mp_per_slot :: duration
  mp_fail_ranges :: "(u64 \<times> u64) list"
  mp_batches :: "(u64 \<times> u64) list"

definition mock_prover_new :: mock_prover where
  "mock_prover_new =
     \<lparr>mp_per_slot = from_millis 50, mp_fail_ranges = [], mp_batches = []\<rparr>"

definition prover_failing_on :: "(u64 \<times> u64) list \<Rightarrow> mock_prover \<Rightarrow> mock_prover" where
  "prover_failing_on ranges m = m\<lparr>mp_fail_ranges := ranges\<rparr>"

definition prover_with_latency :: "duration \<Rightarrow> mock_prover \<Rightarrow> mock_prover" where
  "prover_with_latency d m = m\<lparr>mp_per_slot := d\<rparr>"

definition MOCK_VKEY_HASH :: "32 array" where
  "MOCK_VKEY_HASH = array_repeat 0xAA"

definition mock_statement :: "committed_slot list \<Rightarrow> bytes" where
  "mock_statement slots = concat (map (\<lambda>s. array_bytes (commitment_array (cs_commitment s))) slots)"

definition mock_chain :: "keccak \<Rightarrow> committed_slot list \<Rightarrow> bytes" where
  "mock_chain K slots =
     array_bytes (hasher_finalize K
       (fold (\<lambda>s h. hasher_update (array_bytes (commitment_array (cs_commitment s))) h)
          slots hasher_new))"

text \<open>
  The latency is \<open>per_slot * slots.len() as u32\<close>, whose multiplication panics when the product's
  seconds exceed \<open>u64\<close>; the sleep itself changes no state.
\<close>

definition duration_mul_fits :: "duration \<Rightarrow> u32 \<Rightarrow> bool" where
  "duration_mul_fits d n \<longleftrightarrow>
     unat (dur_secs d) * unat n + unat (dur_nanos d) * unat n div 1000000000 < 2 ^ 64"

definition mock_prove ::
    "keccak \<Rightarrow> committed_slot list \<Rightarrow> mock_prover \<Rightarrow>
       ((prove_failure + proof_handle) \<times> mock_prover) option" where
  "mock_prove K slots m =
    (if slots = [] \<or> \<not> duration_mul_fits (mp_per_slot m) (word_of_nat (length slots)) then None
     else
       let from_slot = cs_slot (hd slots);
           to_slot = cs_slot (last slots);
           m = m\<lparr>mp_batches := mp_batches m @ [(from_slot, to_slot)]\<rparr>
       in if list_ex (\<lambda>(f, t). from_slot \<le> t \<and> to_slot \<ge> f) (mp_fail_ranges m)
          then Some (Err (BackendFailure
                  (''mock failure on '' @ show_u64 from_slot @ ''..='' @ show_u64 to_slot)), m)
          else Some (Ok \<lparr>ph_backend = Mock, ph_proof = mock_chain K slots,
                  ph_public_inputs = mock_statement slots, ph_vkey_hash = MOCK_VKEY_HASH\<rparr>, m))"

definition mock_verify ::
    "keccak \<Rightarrow> proof_handle \<Rightarrow> committed_slot list \<Rightarrow> mock_prover \<Rightarrow> verify_failure + unit" where
  "mock_verify K h slots m =
    (if ph_backend h \<noteq> Mock then Err (WrongBackend Mock (ph_backend h))
     else if ph_vkey_hash h \<noteq> MOCK_VKEY_HASH then Err WrongVerifyingKey
     else if ph_public_inputs h \<noteq> mock_statement slots then Err WrongStatement
     else if ph_proof h \<noteq> mock_chain K slots then Err InvalidProof
     else Ok ())"

definition mock_prove_ops :: "keccak \<Rightarrow> mock_prover prove_ops" where
  "mock_prove_ops K =
     \<lparr>pv_backend = (\<lambda>_. Mock), pv_prove = mock_prove K, pv_verify = mock_verify K\<rparr>"

end
