(* ===== verification/Prove_Batching.thy ===== *)
theory Prove_Batching
  imports Prove
begin

text \<open>
  What the prover does, specified without the task around it: \<open>releases\<close> turns a stretch of the
  log into verdicts on consecutive slots (the contents of an attested slot, or \<open>None\<close>),
  \<open>batch_plan\<close> cuts the attested ones into batches, and \<open>run_batches\<close> hands them to the
  backend. The prover's loop refines their composition over every log and backend.
\<close>

section \<open>The specification\<close>

type_synonym release_state = "(u64 \<rightharpoonup> committed_slot) \<times> u64"

fun release_step ::
    "entry \<Rightarrow> release_state \<Rightarrow> prove_error + committed_slot option list \<times> release_state" where
  "release_step (SlotCommitted slot intents _ c _) (aw, next_slot) =
     Ok ([], aw(slot \<mapsto> \<lparr>cs_slot = slot, cs_intents = intents, cs_commitment = c\<rparr>), next_slot)"
| "release_step (SlotAttested slot _ _) (aw, next_slot) =
    (if slot < next_slot then Ok ([], aw, next_slot)
     else if slot \<noteq> next_slot then Err (SlotGap next_slot slot)
     else case aw slot of
            None \<Rightarrow> Err (MissingCommit slot)
          | Some s \<Rightarrow> Ok ([Some s], aw(slot := None), next_slot + 1))"
| "release_step (AttestFailed slot _) (aw, next_slot) =
    (if slot < next_slot then Ok ([], aw, next_slot)
     else if slot \<noteq> next_slot then Err (SlotGap next_slot slot)
     else Ok ([None], aw(slot := None), next_slot + 1))"
| "release_step _ s = Ok ([], s)"

fun releases ::
    "entry list \<Rightarrow> release_state \<Rightarrow> prove_error + committed_slot option list \<times> release_state" where
  "releases [] s = Ok ([], s)"
| "releases (e # es) s =
     try_bind (release_step e s)
       (\<lambda>(vs, s'). try_bind (releases es s') (\<lambda>(ws, s''). Ok (vs @ ws, s'')))"

text \<open>A batch closes when it is full, or at a slot that failed attestation.\<close>

fun batch_plan :: "nat \<Rightarrow> 'a list \<Rightarrow> 'a option list \<Rightarrow> 'a list list \<times> 'a list" where
  "batch_plan b cur [] = ([], cur)"
| "batch_plan b cur (None # vs) =
    (let (bs, r) = batch_plan b [] vs in (if cur = [] then bs else cur # bs, r))"
| "batch_plan b cur (Some s # vs) =
    (if b \<le> Suc (length cur)
     then let (bs, r) = batch_plan b [] vs in ((cur @ [s]) # bs, r)
     else batch_plan b (cur @ [s]) vs)"

fun run_batches ::
    "'p prove_ops \<Rightarrow> committed_slot list list \<Rightarrow> 'p \<Rightarrow> (entry list \<times> 'p) option" where
  "run_batches P [] st = Some ([], st)"
| "run_batches P (b # bs) st =
     Option.bind (proof_entry P b st)
       (\<lambda>(e, st'). Option.bind (run_batches P bs st') (\<lambda>(es, st''). Some (e # es, st'')))"

section \<open>Facts of the specification\<close>

lemma batch_plan_append:
  "batch_plan b cur (vs @ ws) =
    (let (bs, r) = batch_plan b cur vs; (cs, r') = batch_plan b r ws in (bs @ cs, r'))"
  by (induction b cur vs rule: batch_plan.induct) (auto simp: Let_def split: prod.splits)

lemma run_batches_append:
  "run_batches P (bs @ cs) st =
     Option.bind (run_batches P bs st)
       (\<lambda>(es, st'). Option.bind (run_batches P cs st') (\<lambda>(fs, st''). Some (es @ fs, st'')))"
  by (induction P bs st rule: run_batches.induct)
    (auto split: prod.splits bind_splits)

text \<open>Every attested slot is in exactly one batch or still pending, in order.\<close>

lemma concat_batch_plan:
  "batch_plan b cur vs = (bs, r) \<Longrightarrow> concat bs @ r = cur @ List.map_filter id vs"
  by (induction b cur vs arbitrary: bs r rule: batch_plan.induct)
    (auto simp: map_filter_simps Let_def split: prod.splits if_splits)

lemma batch_plan_sizes:
  assumes "batch_plan b cur vs = (bs, r)" "length cur < b"
  shows "length r < b \<and> (\<forall>c \<in> set bs. c \<noteq> [] \<and> length c \<le> b)"
  using assms
proof (induction b cur vs arbitrary: bs r rule: batch_plan.induct)
  case (1 b cur)
  then show ?case by simp
next
  case (2 b cur vs)
  obtain cs r' where plan: "batch_plan b [] vs = (cs, r')" by fastforce
  with "2.IH" "2.prems" have "length r' < b \<and> (\<forall>c \<in> set cs. c \<noteq> [] \<and> length c \<le> b)"
    by fastforce
  with "2.prems" plan show ?case
    by (auto split: if_splits)
next
  case (3 b cur s vs)
  obtain cs r' where plan: "batch_plan b [] vs = (cs, r')" by fastforce
  show ?case
  proof (cases "b \<le> Suc (length cur)")
    case True
    with "3.IH"(1) plan "3.prems" have "length r' < b \<and> (\<forall>c \<in> set cs. c \<noteq> [] \<and> length c \<le> b)"
      by fastforce
    with True "3.prems" plan show ?thesis
      by auto
  next
    case False
    with "3.IH"(2) "3.prems" show ?thesis by simp
  qed
qed

text \<open>The verdicts are on consecutive slots.\<close>

fun labelled :: "nat \<Rightarrow> committed_slot option list \<Rightarrow> bool" where
  "labelled m [] = True"
| "labelled m (v # vs) =
     ((case v of None \<Rightarrow> True | Some c \<Rightarrow> cs_slot c = word_of_nat m) \<and> labelled (Suc m) vs)"

lemma labelled_append: "labelled m (vs @ ws) \<longleftrightarrow> labelled m vs \<and> labelled (m + length vs) ws"
  by (induction m vs rule: labelled.induct) auto

definition contiguous :: "committed_slot list \<Rightarrow> bool" where
  "contiguous batch \<longleftrightarrow> (\<exists>j. map cs_slot batch = slot_run j (j + length batch))"

lemma batch_plan_contiguous:
  assumes "batch_plan b cur vs = (bs, r)" "labelled m vs"
    and "length cur \<le> m" "map cs_slot cur = slot_run (m - length cur) m"
  shows "(\<forall>c \<in> set bs. contiguous c) \<and> length r \<le> m + length vs \<and>
    map cs_slot r = slot_run (m + length vs - length r) (m + length vs)"
  using assms
proof (induction b cur vs arbitrary: bs r m rule: batch_plan.induct)
  case (1 b cur)
  then show ?case by simp
next
  case (2 b cur vs)
  obtain cs r' where plan: "batch_plan b [] vs = (cs, r')" by fastforce
  moreover have "contiguous cur"
    unfolding contiguous_def using "2.prems"(3,4) by (intro exI [of _ "m - length cur"]) simp
  moreover have "(\<forall>c \<in> set cs. contiguous c) \<and> length r' \<le> Suc m + length vs \<and>
      map cs_slot r' = slot_run (Suc m + length vs - length r') (Suc m + length vs)"
    using "2.prems"(2) by (intro "2.IH" [OF plan]) simp_all
  ultimately show ?case
    using "2.prems"(1) by (auto split: if_splits)
next
  case (3 b cur s vs)
  have lab: "labelled (Suc m) vs" and s: "cs_slot s = word_of_nat m"
    using "3.prems"(2) by simp_all
  then have cur: "map cs_slot (cur @ [s]) = slot_run (m - length cur) (Suc m)"
    using "3.prems"(4) by (simp add: slot_run_Suc)
  show ?case
  proof (cases "b \<le> Suc (length cur)")
    case True
    obtain cs r' where plan: "batch_plan b [] vs = (cs, r')" by fastforce
    moreover have "contiguous (cur @ [s])"
      unfolding contiguous_def using "3.prems"(3) cur
      by (intro exI [of _ "m - length cur"]) simp
    moreover have "(\<forall>c \<in> set cs. contiguous c) \<and> length r' \<le> Suc m + length vs \<and>
        map cs_slot r' = slot_run (Suc m + length vs - length r') (Suc m + length vs)"
      using lab by (intro "3.IH"(1) [OF True plan]) simp_all
    ultimately show ?thesis
      using "3.prems"(1) True by auto
  next
    case False
    then have "batch_plan b (cur @ [s]) vs = (bs, r)"
      using "3.prems"(1) by simp
    from "3.IH"(2) [OF False this lab] cur "3.prems"(3) show ?thesis
      by simp
  qed
qed

text \<open>The contents waiting for an attestation sit under their own slot number.\<close>

definition keyed :: "(u64 \<rightharpoonup> committed_slot) \<Rightarrow> bool" where
  "keyed aw \<longleftrightarrow> (\<forall>s c. aw s = Some c \<longrightarrow> cs_slot c = s)"

lemma keyed_empty [simp]: "keyed Map.empty"
  by (simp add: keyed_def)

lemma release_step_labelled:
  assumes "release_step e (aw, word_of_nat m) = Ok (vs, aw', n)" "keyed aw"
  shows "labelled m vs \<and> keyed aw' \<and> n = word_of_nat (m + length vs)"
  using assms
  by (cases e)
    (auto simp: keyed_def add.commute split: if_splits option.splits)

lemma releases_labelled:
  assumes "releases es (aw, word_of_nat m) = Ok (vs, aw', n)" "keyed aw"
  shows "labelled m vs \<and> keyed aw' \<and> n = word_of_nat (m + length vs)"
  using assms
proof (induction es arbitrary: aw m vs)
  case Nil
  then show ?case by simp
next
  case (Cons e es)
  then obtain us aw1 n1 ws where step: "release_step e (aw, word_of_nat m) = Ok (us, aw1, n1)"
    and rest: "releases es (aw1, n1) = Ok (ws, aw', n)" and vs: "vs = us @ ws"
    by (auto simp: try_bind_Ok_iff)
  from release_step_labelled [OF step Cons.prems(2)]
  have us: "labelled m us" "keyed aw1" "n1 = word_of_nat (m + length us)" by auto
  from Cons.IH [OF rest [unfolded us(3)] us(2)] us(1) vs show ?case
    by (simp add: labelled_append add.assoc)
qed

section \<open>The prover's loop refines it\<close>

definition release_state_of :: "'p prover \<Rightarrow> release_state" where
  "release_state_of p = (pr_awaiting p, pr_next_slot p)"

text \<open>What a run on the verdicts \<open>vs\<close> does to the backend and the batch, and what it appends.\<close>

definition batched ::
    "'p prove_ops \<Rightarrow> committed_slot option list \<Rightarrow> 'p prover \<Rightarrow> entry list \<Rightarrow> 'p prover \<Rightarrow> bool" where
  "batched P vs p fs p' \<longleftrightarrow>
     (\<exists>bs. batch_plan (pr_batch_size p) (pr_pending p) vs = (bs, pr_pending p') \<and>
        run_batches P bs (pr_prover p) = Some (fs, pr_prover p')) \<and>
     pr_batch_size p' = pr_batch_size p \<and> pr_flush_after p' = pr_flush_after p \<and>
     pr_cursor p' = pr_cursor p"

lemma batched_Nil: "batched P [] p [] p"
  by (simp add: batched_def)

lemma batched_trans:
  assumes "batched P vs p fs p1" "batched P ws p1 gs p2"
  shows "batched P (vs @ ws) p (fs @ gs) p2"
  using assms by (fastforce simp: batched_def batch_plan_append run_batches_append)

lemma batched_sizes:
  "batched P vs p fs p' \<Longrightarrow> length (pr_pending p) < pr_batch_size p \<Longrightarrow>
     length (pr_pending p') < pr_batch_size p'"
  by (auto simp: batched_def dest: batch_plan_sizes)

context intent_log
begin

lemma prover_flush_outcome:
  assumes "ok l" "prover_flush L P (p, l) = Some (r, p', l')"
  shows "\<exists>e st. proof_entry P (pr_pending p) (pr_prover p) = Some (e, st) \<and>
    p' = p\<lparr>pr_pending := [], pr_prover := st\<rparr> \<and> ok l' \<and>
    entries l' = entries l @ (if r = Ok () then [e] else [])"
  using assms append_Ok [OF assms(1)] append_Err [OF assms(1)]
  by (auto simp: prover_flush_def Let_def split: option.splits prod.splits sum.splits)

lemma prover_fill_outcome:
  assumes "ok l" "prover_fill L P (p, l) = Some (Ok (), p', l')"
  shows "if length (pr_pending p) < pr_batch_size p then p' = p \<and> l' = l
    else \<exists>e st. proof_entry P (pr_pending p) (pr_prover p) = Some (e, st) \<and>
      p' = p\<lparr>pr_pending := [], pr_prover := st\<rparr> \<and> ok l' \<and> entries l' = entries l @ [e]"
  using assms prover_flush_outcome [OF assms(1), of P p "Ok ()" p' l']
  by (auto simp: prover_fill_def split: if_splits)

lemma prover_attested_refines:
  assumes "ok l" "length (pr_pending p) < pr_batch_size p"
    and "prover_entry L P (SlotAttested slot q g) (p, l) = Some (Ok (), p', l')"
  shows "\<exists>vs fs. release_step (SlotAttested slot q g) (release_state_of p) = Ok (vs, release_state_of p') \<and>
    batched P vs p fs p' \<and> ok l' \<and> entries l' = entries l @ fs"
proof (cases "slot < pr_next_slot p")
  case True
  with assms show ?thesis
    by (auto simp: prover_entry_def Let_def release_state_of_def intro!: exI [of _ "[]"] batched_Nil)
next
  case False
  with assms(3) obtain s where slot: "slot = pr_next_slot p" and aw: "pr_awaiting p slot = Some s"
    by (auto simp: prover_entry_def Let_def split: if_splits option.splits)
  let ?p = "p\<lparr>pr_awaiting := (pr_awaiting p)(slot := None), pr_pending := pr_pending p @ [s],
      pr_next_slot := pr_next_slot p + 1\<rparr>"
  from assms(3) slot aw have fill: "prover_fill L P (?p, l) = Some (Ok (), p', l')"
    by (simp add: prover_entry_def Let_def)
  have step: "release_step (SlotAttested slot q g) (release_state_of p) =
      Ok ([Some s], (pr_awaiting p)(slot := None), pr_next_slot p + 1)"
    using slot aw by (simp add: release_state_of_def)
  from prover_fill_outcome [OF assms(1) fill] step show ?thesis
    by (cases "length (pr_pending p) + 1 < pr_batch_size p")
      (use assms(1) in \<open>auto simp: batched_def release_state_of_def intro!: exI [of _ "[Some s]"]\<close>)
qed

lemma prover_failed_refines:
  assumes "ok l" "length (pr_pending p) < pr_batch_size p"
    and "prover_entry L P (AttestFailed slot reason) (p, l) = Some (Ok (), p', l')"
  shows "\<exists>vs fs. release_step (AttestFailed slot reason) (release_state_of p) = Ok (vs, release_state_of p') \<and>
    batched P vs p fs p' \<and> ok l' \<and> entries l' = entries l @ fs"
proof (cases "slot < pr_next_slot p")
  case True
  with assms show ?thesis
    by (auto simp: prover_entry_def Let_def release_state_of_def intro!: exI [of _ "[]"] batched_Nil)
next
  case False
  with assms(3) have slot: "slot = pr_next_slot p"
    by (auto simp: prover_entry_def Let_def split: if_splits)
  let ?p = "p\<lparr>pr_awaiting := (pr_awaiting p)(slot := None), pr_next_slot := pr_next_slot p + 1\<rparr>"
  have step: "release_step (AttestFailed slot reason) (release_state_of p) =
      Ok ([None], (pr_awaiting p)(slot := None), pr_next_slot p + 1)"
    using slot by (simp add: release_state_of_def)
  show ?thesis
  proof (cases "pr_pending p = []")
    case True
    with assms(2,3) slot have "p' = ?p" "l' = l"
      by (auto simp: prover_entry_def prover_fill_def Let_def)
    with True assms(1) step show ?thesis
      by (auto simp: batched_def release_state_of_def intro!: exI [of _ "[None]"])
  next
    case pending: False
    with assms(3) slot have run: "and_then (prover_flush L P (?p, l)) (prover_fill L P) = Some (Ok (), p', l')"
      by (simp add: prover_entry_def Let_def)
    then obtain p1 l1 where flush: "prover_flush L P (?p, l) = Some (Ok (), p1, l1)"
      and fill: "prover_fill L P (p1, l1) = Some (Ok (), p', l')"
      by (auto simp: and_then_def split: option.splits sum.splits)
    from prover_flush_outcome [OF assms(1) flush] obtain e st
      where e: "proof_entry P (pr_pending p) (pr_prover p) = Some (e, st)"
        and p1: "p1 = ?p\<lparr>pr_pending := [], pr_prover := st\<rparr>"
        and l1: "ok l1" "entries l1 = entries l @ [e]"
      by auto
    from prover_fill_outcome [OF l1(1) fill] p1 assms(2) have "p' = p1" "l' = l1"
      by (auto split: if_splits)
    with e p1 l1 pending step show ?thesis
      by (auto simp: batched_def release_state_of_def intro!: exI [of _ "[None]"])
  qed
qed

lemma prover_entry_refines:
  assumes "ok l" "length (pr_pending p) < pr_batch_size p"
    and "prover_entry L P e (p, l) = Some (Ok (), p', l')"
  shows "\<exists>vs fs. release_step e (release_state_of p) = Ok (vs, release_state_of p') \<and>
    batched P vs p fs p' \<and> ok l' \<and> entries l' = entries l @ fs"
proof (cases e)
  case (SlotAttested slot q g)
  with prover_attested_refines assms show ?thesis by blast
next
  case (AttestFailed slot reason)
  with prover_failed_refines assms show ?thesis by blast
qed (use assms in \<open>auto simp: prover_entry_def prover_fill_def release_state_of_def batched_def
      intro!: exI [of _ "[]"]\<close>)

lemma prover_entries_refines:
  assumes "ok l" "length (pr_pending p) < pr_batch_size p"
    and "prover_entries L P es (p, l) = Some (Ok (), p', l')"
  shows "\<exists>vs fs. releases es (release_state_of p) = Ok (vs, release_state_of p') \<and>
    batched P vs p fs p' \<and> ok l' \<and> entries l' = entries l @ fs"
  using assms
proof (induction es arbitrary: p l)
  case Nil
  then show ?case by (auto simp: batched_Nil intro!: exI [of _ "[]"])
next
  case (Cons e es)
  then obtain p1 l1 where step: "prover_entry L P e (p, l) = Some (Ok (), p1, l1)"
    and rest: "prover_entries L P es (p1, l1) = Some (Ok (), p', l')"
    by (auto simp: and_then_def split: option.splits sum.splits)
  from prover_entry_refines [OF Cons.prems(1,2) step] obtain vs fs
    where vs: "release_step e (release_state_of p) = Ok (vs, release_state_of p1)"
      and b: "batched P vs p fs p1" and l1: "ok l1" "entries l1 = entries l @ fs"
    by blast
  from Cons.IH [OF l1(1) batched_sizes [OF b Cons.prems(2)] rest] obtain ws gs
    where ws: "releases es (release_state_of p1) = Ok (ws, release_state_of p')"
      and c: "batched P ws p1 gs p'" and l': "ok l'" "entries l' = entries l1 @ gs"
    by blast
  from vs ws batched_trans [OF b c] l1 l' show ?case
    by (intro exI [of _ "vs @ ws"] exI [of _ "fs @ gs"]) simp
qed

end

end
