(* ===== verification/Prove_Recovery.thy ===== *)
theory Prove_Recovery
  imports Prove_Batching
begin

text \<open>
  The prover against a log that commits and rules in order: its cursor and the contents it holds
  stay in step with the log, so that a start from recovery, at any point, meets no slot gap and
  no missing commit; what a backend owes (\<open>proof_system\<close>), met by the mock; and both together
  over a log that does not fail (\<open>proving\<close>).
\<close>

section \<open>In step with the log\<close>

definition logged :: "entry list \<Rightarrow> committed_slot \<Rightarrow> bool" where
  "logged es c \<longleftrightarrow>
     (\<exists>p t. SlotCommitted (cs_slot c) (cs_intents c) p (cs_commitment c) t \<in> set es)"

lemma logged_mono: "logged es c \<Longrightarrow> set es \<subseteq> set fs \<Longrightarrow> logged fs c"
  by (auto simp: logged_def)

text \<open>
  After reading \<open>i\<close> entries: \<open>k\<close> slots were ruled on and \<open>n\<close> committed, the next slot to release
  lies between, and the contents of the slots from there on are waiting.
\<close>

definition in_step :: "entry list \<Rightarrow> nat \<Rightarrow> (u64 \<rightharpoonup> committed_slot) \<Rightarrow> nat \<Rightarrow> bool" where
  "in_step es i aw nxt \<longleftrightarrow>
     (\<exists>k n. ruled_slots (take i es) = slot_run 0 k \<and> committed_slots (take i es) = slot_run 0 n \<and>
        k \<le> nxt \<and> nxt \<le> n \<and>
        (\<forall>s. nxt \<le> s \<longrightarrow> s < n \<longrightarrow> aw (word_of_nat s) \<noteq> None)) \<and>
     keyed aw \<and> (\<forall>c \<in> ran aw. logged es c)"

lemma in_stepI:
  assumes "ruled_slots (take i es) = slot_run 0 k" "committed_slots (take i es) = slot_run 0 n"
    and "k \<le> nxt" "nxt \<le> n" "\<And>s. nxt \<le> s \<Longrightarrow> s < n \<Longrightarrow> aw (word_of_nat s) \<noteq> None"
    and "keyed aw" "\<And>c. c \<in> ran aw \<Longrightarrow> logged es c"
  shows "in_step es i aw nxt"
  using assms unfolding in_step_def by blast

lemma length_committed_slots: "length (committed_slots es) \<le> length es"
  by (induction es) (simp_all split: option.split)

lemma committed_count_less:
  assumes "length es < 2 ^ 64" "committed_slots (take i es) = slot_run 0 n"
  shows "n < 2 ^ 64"
  using assms length_committed_slots [of "take i es"] by simp

lemma ran_upd_subset: "c \<in> ran (m(s := None)) \<Longrightarrow> c \<in> ran m"
  by (auto simp: ran_def split: if_splits)

lemma in_step_commit:
  assumes "in_step es i aw nxt" "well_ruled es" "i < length es" "length es < 2 ^ 64"
    and e: "es ! i = SlotCommitted slot is p c t"
  shows "in_step es (Suc i) (aw(slot \<mapsto> \<lparr>cs_slot = slot, cs_intents = is, cs_commitment = c\<rparr>)) nxt"
proof -
  let ?aw = "aw(slot \<mapsto> \<lparr>cs_slot = slot, cs_intents = is, cs_commitment = c\<rparr>)"
  from assms(1) obtain k n where k: "ruled_slots (take i es) = slot_run 0 k"
    and n: "committed_slots (take i es) = slot_run 0 n" and le: "k \<le> nxt" "nxt \<le> n"
    and aw: "\<And>s. nxt \<le> s \<Longrightarrow> s < n \<Longrightarrow> aw (word_of_nat s) \<noteq> None"
    and keyed: "keyed aw" and logged: "\<forall>c \<in> ran aw. logged es c"
    by (auto simp: in_step_def)
  have slot: "slot = word_of_nat n"
    using well_ruled_step(1) [OF assms(2,3) k n, of slot] e by simp
  have take: "take (Suc i) es = take i es @ [es ! i]"
    using assms(3) by (rule take_Suc_conv_app_nth)
  have "ruled_slots (take (Suc i) es) = slot_run 0 k"
    "committed_slots (take (Suc i) es) = slot_run 0 (Suc n)"
    using k n slot by (simp_all add: take e slot_run_Suc)
  moreover have "?aw (word_of_nat s) \<noteq> None" if "nxt \<le> s" "s < Suc n" for s
    using aw [OF that(1)] that(2) slot by (cases "s = n") auto
  moreover have "keyed ?aw"
    using keyed by (simp add: keyed_def)
  moreover have "logged es c'" if "c' \<in> ran ?aw" for c'
  proof -
    have "SlotCommitted slot is p c t \<in> set es"
      using e nth_mem [OF assms(3)] by simp
    moreover from that have "c' \<in> ran aw \<or> c' = \<lparr>cs_slot = slot, cs_intents = is, cs_commitment = c\<rparr>"
      by (auto simp: ran_def split: if_splits)
    ultimately show ?thesis
      using logged unfolding logged_def by force
  qed
  ultimately show ?thesis
    using le by (intro in_stepI [of "Suc i" es k "Suc n"]) auto
qed

lemma in_step_ruled:
  assumes "in_step es i aw nxt" "well_ruled es" "i < length es" "length es < 2 ^ 64"
    and e: "ruled_slot (es ! i) = Some slot"
  shows "(slot < word_of_nat nxt \<and> in_step es (Suc i) aw nxt) \<or>
    (slot = word_of_nat nxt \<and> aw slot \<noteq> None \<and> in_step es (Suc i) (aw(slot := None)) (Suc nxt))"
proof -
  from assms(1) obtain k n where k: "ruled_slots (take i es) = slot_run 0 k"
    and n: "committed_slots (take i es) = slot_run 0 n" and le: "k \<le> nxt" "nxt \<le> n"
    and aw: "\<And>s. nxt \<le> s \<Longrightarrow> s < n \<Longrightarrow> aw (word_of_nat s) \<noteq> None"
    and keyed: "keyed aw" and logged: "\<forall>c \<in> ran aw. logged es c"
    by (auto simp: in_step_def)
  have slot: "slot = word_of_nat k" and "k < n"
    using well_ruled_step(2) [OF assms(2,3) k n e] by simp_all
  have "n < 2 ^ 64"
    using committed_count_less [OF assms(4) n] .
  have take: "take (Suc i) es = take i es @ [es ! i]"
    using assms(3) by (rule take_Suc_conv_app_nth)
  have "slot_of_commit (es ! i) = None"
    using e by (cases "es ! i") simp_all
  then have k': "ruled_slots (take (Suc i) es) = slot_run 0 (Suc k)"
    and n': "committed_slots (take (Suc i) es) = slot_run 0 n"
    using k n slot e by (simp_all add: take slot_run_Suc)
  show ?thesis
  proof (cases "k < nxt")
    case True
    then have "slot < word_of_nat nxt"
      using slot le \<open>n < 2 ^ 64\<close> by (simp add: word_of_nat_less_iff64)
    moreover have "in_step es (Suc i) aw nxt"
      using k' n' True le aw keyed logged by (intro in_stepI [of "Suc i" es "Suc k" n]) auto
    ultimately show ?thesis by simp
  next
    case False
    with le have "k = nxt" by simp
    with slot aw [of nxt] \<open>k < n\<close> have here: "slot = word_of_nat nxt" "aw slot \<noteq> None"
      by simp_all
    have rest: "(aw(slot := None)) (word_of_nat s) \<noteq> None" if "Suc nxt \<le> s" "s < n" for s
    proof -
      have "word_of_nat s \<noteq> slot"
        using that slot \<open>k = nxt\<close> \<open>n < 2 ^ 64\<close> by (simp add: word_of_nat_eq_iff64)
      with aw [of s] that show ?thesis by simp
    qed
    have "in_step es (Suc i) (aw(slot := None)) (Suc nxt)"
    proof (rule in_stepI [OF k' n'])
      show "keyed (aw(slot := None))"
        using keyed by (simp add: keyed_def)
      show "logged es c" if "c \<in> ran (aw(slot := None))" for c
        using logged ran_upd_subset [OF that] by blast
    qed (use rest \<open>k = nxt\<close> \<open>k < n\<close> in simp_all)
    with here show ?thesis by simp
  qed
qed

lemma in_step_other:
  assumes "in_step es i aw nxt" "i < length es"
    and "ruled_slot (es ! i) = None" "slot_of_commit (es ! i) = None"
  shows "in_step es (Suc i) aw nxt"
  using assms by (simp add: in_step_def take_Suc_conv_app_nth)

text \<open>One entry never fails, and what it releases is a committed and ruled slot.\<close>

definition verdict_logged :: "entry list \<Rightarrow> committed_slot option \<Rightarrow> bool" where
  "verdict_logged es v \<longleftrightarrow>
     (\<forall>c. v = Some c \<longrightarrow> logged es c \<and> (\<exists>q g. SlotAttested (cs_slot c) q g \<in> set es))"

lemma release_step_in_step:
  assumes "in_step es i aw nxt" "well_ruled es" "i < length es" "length es < 2 ^ 64"
  shows "\<exists>vs aw' nxt'. release_step (es ! i) (aw, word_of_nat nxt) = Ok (vs, aw', word_of_nat nxt') \<and>
    in_step es (Suc i) aw' nxt' \<and> nxt' = nxt + length vs \<and> (\<forall>v \<in> set vs. verdict_logged es v)"
proof -
  have mem: "es ! i \<in> set es" using assms(3) by simp
  have keyed: "keyed aw" and log: "\<forall>c \<in> ran aw. logged es c"
    using assms(1) by (simp_all add: in_step_def)
  show ?thesis
  proof (cases "es ! i")
    case (SlotCommitted slot "is" p c t)
    with in_step_commit [OF assms this] show ?thesis
      by (intro exI [of _ "[]"]) auto
  next
    case (SlotAttested slot q g)
    then have ruled: "ruled_slot (es ! i) = Some slot" by simp
    from in_step_ruled [OF assms this] show ?thesis
    proof
      assume "slot < word_of_nat nxt \<and> in_step es (Suc i) aw nxt"
      with SlotAttested show ?thesis by (intro exI [of _ "[]"]) auto
    next
      assume *: "slot = word_of_nat nxt \<and> aw slot \<noteq> None \<and> in_step es (Suc i) (aw(slot := None)) (Suc nxt)"
      then obtain c where c: "aw slot = Some c" by auto
      with keyed log have "cs_slot c = slot" "logged es c"
        by (auto simp: keyed_def ran_def)
      with SlotAttested mem have "verdict_logged es (Some c)"
        by (auto simp: verdict_logged_def)
      with * c SlotAttested show ?thesis
        by (intro exI [of _ "[Some c]"] exI [of _ "aw(slot := None)"] exI [of _ "Suc nxt"])
          (auto simp: add.commute)
    qed
  next
    case (AttestFailed slot r)
    then have ruled: "ruled_slot (es ! i) = Some slot" by simp
    from in_step_ruled [OF assms this] show ?thesis
    proof
      assume "slot < word_of_nat nxt \<and> in_step es (Suc i) aw nxt"
      with AttestFailed show ?thesis by (intro exI [of _ "[]"]) auto
    next
      assume "slot = word_of_nat nxt \<and> aw slot \<noteq> None \<and> in_step es (Suc i) (aw(slot := None)) (Suc nxt)"
      with AttestFailed show ?thesis
        by (intro exI [of _ "[None]"] exI [of _ "aw(slot := None)"] exI [of _ "Suc nxt"])
          (auto simp: add.commute verdict_logged_def)
    qed
  qed (use in_step_other [OF assms(1,3)] in \<open>auto intro!: exI [of _ "[]"]\<close>)
qed

lemma releases_in_step:
  assumes "in_step es i aw nxt" "well_ruled es" "i \<le> length es" "length es < 2 ^ 64"
  shows "\<exists>vs aw' nxt'. releases (drop i es) (aw, word_of_nat nxt) = Ok (vs, aw', word_of_nat nxt') \<and>
    in_step es (length es) aw' nxt' \<and> nxt' = nxt + length vs \<and> (\<forall>v \<in> set vs. verdict_logged es v)"
  using assms(1,3)
proof (induction "length es - i" arbitrary: i aw nxt)
  case 0
  then show ?case by (intro exI [of _ "[]"] exI [of _ aw] exI [of _ nxt]) simp
next
  case (Suc d)
  then have i: "i < length es" by simp
  from release_step_in_step [OF Suc.prems(1) assms(2) i assms(4)] obtain vs aw1 nxt1
    where step: "release_step (es ! i) (aw, word_of_nat nxt) = Ok (vs, aw1, word_of_nat nxt1)"
      and in1: "in_step es (Suc i) aw1 nxt1" and n1: "nxt1 = nxt + length vs" and vs: "\<forall>v \<in> set vs. verdict_logged es v"
    by blast
  have "d = length es - Suc i"
    using Suc.hyps(2) by simp
  from Suc.hyps(1) [OF this in1] i obtain ws aw2 nxt2
    where rest: "releases (drop (Suc i) es) (aw1, word_of_nat nxt1) = Ok (ws, aw2, word_of_nat nxt2)"
      and in2: "in_step es (length es) aw2 nxt2" and n2: "nxt2 = nxt1 + length ws" and ws: "\<forall>v \<in> set ws. verdict_logged es v"
    by (metis Suc_leI)
  have "drop i es = es ! i # drop (Suc i) es"
    using i by (rule Cons_nth_drop_Suc [symmetric])
  with step rest in2 vs ws n1 n2 show ?case
    by (intro exI [of _ "vs @ ws"] exI [of _ aw2] exI [of _ nxt2]) auto
qed

text \<open>Appending entries leaves the prover in step; it only has more to read.\<close>

lemma in_step_append:
  assumes "in_step es i aw nxt" "i \<le> length es"
  shows "in_step (es @ fs) i aw nxt"
  using assms logged_mono [of es _ "es @ fs"] by (auto simp: in_step_def)

section \<open>Recovery\<close>

fun proved_upto :: "entry \<Rightarrow> u64 option" where
  "proved_upto (SlotsProven _ to_slot _) = Some to_slot"
| "proved_upto (ProveFailed _ to_slot _) = Some to_slot"
| "proved_upto _ = None"

definition proved_slots :: "entry list \<Rightarrow> u64 list" where
  "proved_slots es = List.map_filter proved_upto es"

lemma proved_slots_simps [simp]:
  "proved_slots [] = []"
  "proved_slots (e # es) =
     (case proved_upto e of None \<Rightarrow> proved_slots es | Some s \<Rightarrow> s # proved_slots es)"
  "proved_slots (es @ fs) = proved_slots es @ proved_slots fs"
  by (simp_all add: proved_slots_def map_filter_simps map_filter_append split: option.split)

lemma fold_prover_recover_entry:
  "fold prover_recover_entry pes (d, m) =
     (fold high_water (proved_slots (map snd pes)) d, fold index_slot pes m)"
proof (induction pes arbitrary: d m)
  case Nil
  then show ?case by simp
next
  case (Cons pe pes)
  obtain p e where "pe = (p, e)" by (cases pe)
  with Cons.IH show ?case
    by (cases e) (simp_all add: high_water_def fun_upd_def)
qed

lemma prover_resume_eq:
  assumes "fold high_water (proved_slots es) None = (if nxt = 0 then None else Some (word_of_nat (nxt - 1)))"
  shows "prover_resume (positioned es) head =
    (case slot_index es (word_of_nat nxt) of Some p \<Rightarrow> p | None \<Rightarrow> head, word_of_nat nxt)"
  using assms
  by (cases nxt) (simp_all add: prover_resume_def fold_prover_recover_entry slot_index_def
      of_nat_Suc add.commute Let_def)

text \<open>Resuming from the first slot not proven, the prover is in step at its cursor.\<close>

lemma prover_resume_in_step:
  assumes "well_ruled es" "length es < 2 ^ 64" "committed_slots es = slot_run 0 n" "nxt \<le> n"
    and "fold high_water (proved_slots es) None = (if nxt = 0 then None else Some (word_of_nat (nxt - 1)))"
  shows "\<exists>c \<le> length es. in_step es c Map.empty nxt \<and>
    prover_resume (positioned es) (position_of (length es)) = (position_of c, word_of_nat nxt)"
proof -
  have n: "n < 2 ^ 64"
    using committed_count_less [OF assms(2), of "length es"] assms(3) by simp
  show ?thesis
  proof (cases "nxt = n")
    case True
    obtain k where "k \<le> n" "ruled_slots es = slot_run 0 k"
      using well_ruled_obtains [OF assms(1), of "length es"] assms(3) by (auto simp: slot_run_inject)
    then have "in_step es (length es) Map.empty nxt"
      using assms(3) True by (intro in_stepI [of "length es" es k n]) simp_all
    moreover have "slot_index es (word_of_nat nxt) = None"
      using slot_index_beyond [OF assms(3)] True n by simp
    ultimately show ?thesis
      by (intro exI [of _ "length es"]) (simp add: prover_resume_eq [OF assms(5)])
  next
    case False
    with assms(4) have "nxt < n" by simp
    then obtain c where c: "c < length es" "slot_index es (word_of_nat nxt) = Some (position_of c)"
      "committed_slots (take c es) = slot_run 0 nxt"
      using slot_index_run [OF assms(3)] n by (metis less_imp_le)
    obtain k where "k \<le> nxt" "ruled_slots (take c es) = slot_run 0 k"
      using well_ruled_obtains [OF assms(1), of c] c by (auto simp: slot_run_inject)
    then have "in_step es c Map.empty nxt"
      using c by (intro in_stepI [of c es k nxt]) simp_all
    with c show ?thesis
      by (intro exI [of _ c]) (simp add: prover_resume_eq [OF assms(5)])
  qed
qed

section \<open>What a backend owes\<close>

locale proof_system =
  fixes P :: "'p prove_ops"
    and good :: "'p \<Rightarrow> bool"
    and statement :: "committed_slot list \<Rightarrow> bytes"
  assumes prove_total: "good st \<Longrightarrow> slots \<noteq> [] \<Longrightarrow> \<exists>r st'. pv_prove P slots st = Some (r, st')"
    and prove_good: "good st \<Longrightarrow> pv_prove P slots st = Some (r, st') \<Longrightarrow> good st'"
    and prove_verifies: "pv_prove P slots st = Some (Ok h, st') \<Longrightarrow> pv_verify P h slots st'' = Ok ()"
    and verify_statement: "pv_verify P h slots st = Ok () \<Longrightarrow> ph_public_inputs h = statement slots"
begin

text \<open>One proof is a proof of one statement.\<close>

lemma verify_same_statement:
  "pv_verify P h slots st = Ok () \<Longrightarrow> pv_verify P h slots' st' = Ok () \<Longrightarrow>
     statement slots = statement slots'"
  by (metis verify_statement)

lemma proof_entry_total:
  "good st \<Longrightarrow> batch \<noteq> [] \<Longrightarrow> \<exists>e st'. proof_entry P batch st = Some (e, st') \<and> good st'"
  using prove_total [of st batch] prove_good [of st batch]
  by (fastforce simp: proof_entry_def Let_def split: sum.splits)

end

text \<open>What a batch turns into: a proof that verifies against its slots, or a recorded failure.\<close>

definition discharged :: "'p prove_ops \<Rightarrow> committed_slot list \<Rightarrow> entry \<Rightarrow> bool" where
  "discharged P batch e \<longleftrightarrow>
     (\<exists>h. e = SlotsProven (cs_slot (hd batch)) (cs_slot (last batch)) h \<and>
        (\<forall>st. pv_verify P h batch st = Ok ())) \<or>
     (\<exists>r. e = ProveFailed (cs_slot (hd batch)) (cs_slot (last batch)) r)"

context proof_system
begin

lemma proof_entry_discharged:
  "proof_entry P batch st = Some (e, st') \<Longrightarrow> batch \<noteq> [] \<and> discharged P batch e"
  by (auto simp: proof_entry_def discharged_def Let_def prove_verifies
      split: if_splits option.splits prod.splits sum.splits)

lemma run_batches_discharged:
  "run_batches P bs st = Some (fs, st') \<Longrightarrow> list_all2 (discharged P) bs fs"
proof (induction bs arbitrary: st fs)
  case Nil
  then show ?case by simp
next
  case (Cons b bs)
  then show ?case
    by (auto split: bind_splits dest!: proof_entry_discharged)
qed

lemma run_batches_good: "run_batches P bs st = Some (fs, st') \<Longrightarrow> good st \<Longrightarrow> good st'"
proof (induction bs arbitrary: st fs)
  case Nil
  then show ?case by simp
next
  case (Cons b bs)
  then obtain e st1 gs where e: "proof_entry P b st = Some (e, st1)"
    and rest: "run_batches P bs st1 = Some (gs, st')"
    by (auto split: bind_splits)
  from proof_entry_discharged [OF e] proof_entry_total [OF Cons.prems(2)] e have "good st1"
    by fastforce
  with Cons.IH [OF rest] show ?case by simp
qed

end

lemma mock_statement_inject:
  "mock_statement xs = mock_statement ys \<longleftrightarrow> map cs_commitment xs = map cs_commitment ys"
proof -
  have len: "length (mock_statement zs) = 32 * length zs" for zs
    by (induction zs) (simp_all add: mock_statement_def)
  have inj: "mock_statement xs = mock_statement ys \<longleftrightarrow> map cs_commitment xs = map cs_commitment ys"
    if "length xs = length ys"
    using that
    by (induction xs ys rule: list_induct2) (auto simp: mock_statement_def intro: commitment.expand)
  show ?thesis
  proof (cases "length xs = length ys")
    case False
    then have "length (mock_statement xs) \<noteq> length (mock_statement ys)"
      by (simp add: len)
    with False show ?thesis by (metis length_map)
  qed (rule inj)
qed

text \<open>The mock meets it, as long as its configured latency cannot overflow a \<open>Duration\<close>.\<close>

definition mock_latency_ok :: "mock_prover \<Rightarrow> bool" where
  "mock_latency_ok m \<longleftrightarrow> (\<forall>n. duration_mul_fits (mp_per_slot m) n)"

lemma mock_prove_ops_simps [simp]:
  "pv_prove (mock_prove_ops K) = mock_prove K"
  "pv_verify (mock_prove_ops K) = mock_verify K"
  by (simp_all add: mock_prove_ops_def)

lemma mock_verify_Ok_iff:
  "mock_verify K h slots m = Ok () \<longleftrightarrow>
     ph_backend h = Mock \<and> ph_vkey_hash h = MOCK_VKEY_HASH \<and>
     ph_public_inputs h = mock_statement slots \<and> ph_proof h = mock_chain K slots"
  by (simp add: mock_verify_def)

interpretation mock_backend: proof_system "mock_prove_ops K" mock_latency_ok mock_statement for K
proof (unfold_locales, goal_cases)
  case (1 st slots)
  then show ?case by (auto simp: mock_prove_def mock_latency_ok_def Let_def)
next
  case (2 st slots r st')
  then show ?case
    by (auto simp: mock_prove_def mock_latency_ok_def Let_def split: if_splits)
next
  case (3 slots st h st' st'')
  then show ?case
    by (auto simp: mock_prove_def mock_verify_Ok_iff Let_def split: if_splits)
next
  case (4 h slots st)
  then show ?case by (simp add: mock_verify_Ok_iff)
qed

lemma mock_latency_ok_new: "mock_latency_ok mock_prover_new"
proof -
  have "unat n * 50000000 < 2 ^ 64" for n :: u32
  proof -
    have "unat n < 2 ^ 32" using unsigned_less [of n] by simp
    then show ?thesis by simp
  qed
  then have "unat n * 50000000 div 1000000000 < 2 ^ 64" for n :: u32
    by (rule le_less_trans [OF div_le_dividend])
  then show ?thesis
    by (simp add: mock_latency_ok_def mock_prover_new_def duration_mul_fits_def unat_from_millis_nanos
        mult.commute) (simp add: from_millis_def)
qed

end
