(* ===== verification/Prover_Task.thy ===== *)
theory Prover_Task
  imports Prove_Recovery
begin

text \<open>
  The running prover: the invariant \<open>prover_inv\<close> that ties its state to the log, and the locale
  \<open>proving\<close>, a backend that meets its contract over a log that does not fail, in which every
  handler returns without a panic or an error, keeps the invariant, and appends only proofs and
  proof failures of contiguous ranges of attested slots. Interpreted on the mock backend and the
  in-memory log.
\<close>

definition prover_inv :: "('p \<Rightarrow> bool) \<Rightarrow> entry list \<Rightarrow> 'p prover \<Rightarrow> bool" where
  "prover_inv good es p \<longleftrightarrow>
     (\<exists>i nxt. i \<le> length es \<and> pr_cursor p = position_of i \<and> pr_next_slot p = word_of_nat nxt \<and>
        in_step es i (pr_awaiting p) nxt \<and> length (pr_pending p) \<le> nxt \<and>
        map cs_slot (pr_pending p) = slot_run (nxt - length (pr_pending p)) nxt) \<and>
     length (pr_pending p) < pr_batch_size p \<and>
     (\<forall>c \<in> set (pr_pending p). verdict_logged es (Some c)) \<and> good (pr_prover p)"

lemma prover_invI:
  assumes "i \<le> length es" "pr_cursor p = position_of i" "pr_next_slot p = word_of_nat nxt"
    and "in_step es i (pr_awaiting p) nxt" "length (pr_pending p) \<le> nxt"
    and "map cs_slot (pr_pending p) = slot_run (nxt - length (pr_pending p)) nxt"
    and "length (pr_pending p) < pr_batch_size p"
    and "\<And>c. c \<in> set (pr_pending p) \<Longrightarrow> verdict_logged es (Some c)" "good (pr_prover p)"
  shows "prover_inv good es p"
  using assms unfolding prover_inv_def by blast

text \<open>A proof entry is about a batch of consecutive, committed and attested slots.\<close>

definition proof_fine :: "'p prove_ops \<Rightarrow> nat \<Rightarrow> entry list \<Rightarrow> entry \<Rightarrow> bool" where
  "proof_fine P b es e \<longleftrightarrow>
     (\<exists>batch. batch \<noteq> [] \<and> length batch \<le> b \<and> contiguous batch \<and>
        (\<forall>c \<in> set batch. verdict_logged es (Some c)) \<and> discharged P batch e)"

lemma proof_fine_other: "proof_fine P b es e \<Longrightarrow> ruled_slot e = None \<and> slot_of_commit e = None"
  by (auto simp: proof_fine_def discharged_def)

lemma verdict_logged_append: "verdict_logged es v \<Longrightarrow> verdict_logged (es @ fs) v"
  unfolding verdict_logged_def using logged_mono [of es _ "es @ fs"] by fastforce

lemma prover_inv_append: "prover_inv good es p \<Longrightarrow> prover_inv good (es @ fs) p"
  unfolding prover_inv_def
  by (metis in_step_append verdict_logged_append length_append trans_le_add1)

lemma fold_cursor:
  "fold (\<lambda>(pos, e) _. position_next pos) (positioned_from n es) c =
     (if es = [] then c else position_of (n + length es))"
  by (induction n es arbitrary: c rule: positioned_from.induct) auto

locale proving = reliable_log L entries ok + proof_system P good statement
  for L :: "'l log_ops" and entries :: "'l \<Rightarrow> entry list" and ok :: "'l \<Rightarrow> bool"
    and P :: "'p prove_ops" and good :: "'p \<Rightarrow> bool" and statement :: "committed_slot list \<Rightarrow> bytes"
begin

lemma prover_flush_total:
  assumes "ok l" "pr_pending p \<noteq> []" "good (pr_prover p)"
  shows "\<exists>p' l'. prover_flush L P (p, l) = Some (Ok (), p', l')"
proof -
  obtain e st where "proof_entry P (pr_pending p) (pr_prover p) = Some (e, st)"
    using proof_entry_total [OF assms(3,2)] by blast
  moreover obtain pos l' where "lg_append L e l = (Ok pos, l')"
    using append_total by blast
  ultimately show ?thesis
    by (simp add: prover_flush_def)
qed

lemma prover_fill_total:
  assumes "ok l" "0 < pr_batch_size p" "good (pr_prover p)"
  shows "\<exists>p' l'. prover_fill L P (p, l) = Some (Ok (), p', l')"
  using prover_flush_total [OF assms(1) _ assms(3)] assms(2)
  by (cases "pr_pending p = []") (auto simp: prover_fill_def)

lemma prover_flush_fill_total:
  assumes "ok l" "pr_pending p \<noteq> []" "0 < pr_batch_size p" "good (pr_prover p)"
  shows "\<exists>p' l'. and_then (prover_flush L P (p, l)) (prover_fill L P) = Some (Ok (), p', l')"
proof -
  from prover_flush_total [OF assms(1,2,4)] obtain p1 l1
    where flush: "prover_flush L P (p, l) = Some (Ok (), p1, l1)"
    by blast
  from prover_flush_outcome [OF assms(1) flush] proof_entry_total [OF assms(4,2)]
  have "ok l1" "good (pr_prover p1)" "pr_batch_size p1 = pr_batch_size p"
    by auto
  with prover_fill_total [of l1 p1] assms(3) flush show ?thesis
    by simp
qed

lemma prover_entry_total:
  assumes "ok l" "0 < pr_batch_size p" "good (pr_prover p)"
    and "release_step e (release_state_of p) = Ok r"
  shows "\<exists>p' l'. prover_entry L P e (p, l) = Some (Ok (), p', l')"
  using assms
  by (cases e)
    (auto simp: prover_entry_def release_state_of_def Let_def
      intro!: prover_fill_total prover_flush_fill_total split: if_splits option.splits)

lemma batched_good: "batched P vs p fs p' \<Longrightarrow> good (pr_prover p) \<Longrightarrow> good (pr_prover p')"
  by (auto simp: batched_def dest: run_batches_good)

lemma prover_entries_total:
  assumes "ok l" "length (pr_pending p) < pr_batch_size p" "good (pr_prover p)"
    and "releases es (release_state_of p) = Ok r"
  shows "\<exists>p' l'. prover_entries L P es (p, l) = Some (Ok (), p', l')"
  using assms
proof (induction es arbitrary: p l r)
  case Nil
  then show ?case by simp
next
  case (Cons e es)
  then obtain vs s' r' where vs: "release_step e (release_state_of p) = Ok (vs, s')"
    and rest: "releases es s' = Ok r'"
    by (auto simp: try_bind_Ok_iff)
  have "0 < pr_batch_size p" using Cons.prems(2) by simp
  from prover_entry_total [OF Cons.prems(1) this Cons.prems(3) vs] obtain p1 l1
    where step: "prover_entry L P e (p, l) = Some (Ok (), p1, l1)"
    by blast
  from prover_entry_refines [OF Cons.prems(1,2) step] vs obtain us fs
    where s': "s' = release_state_of p1" and b: "batched P us p fs p1" and "ok l1"
    by auto
  from Cons.IH [OF \<open>ok l1\<close> batched_sizes [OF b Cons.prems(2)] batched_good [OF b Cons.prems(3)]
      rest [unfolded s']] step
  show ?case by simp
qed

lemma batched_fine:
  assumes "batched P vs p fs p'" "labelled nxt vs" "\<forall>v \<in> set vs. verdict_logged es v"
    and "length (pr_pending p) \<le> nxt" "length (pr_pending p) < pr_batch_size p"
    and "map cs_slot (pr_pending p) = slot_run (nxt - length (pr_pending p)) nxt"
    and "\<forall>c \<in> set (pr_pending p). verdict_logged es (Some c)"
  shows "(\<forall>f \<in> set fs. proof_fine P (pr_batch_size p) es f) \<and>
    (\<forall>c \<in> set (pr_pending p'). verdict_logged es (Some c)) \<and>
    length (pr_pending p') \<le> nxt + length vs \<and>
    map cs_slot (pr_pending p') = slot_run (nxt + length vs - length (pr_pending p')) (nxt + length vs)"
proof -
  from assms(1) obtain bs where plan: "batch_plan (pr_batch_size p) (pr_pending p) vs = (bs, pr_pending p')"
    and run: "run_batches P bs (pr_prover p) = Some (fs, pr_prover p')"
    by (auto simp: batched_def)
  have "set (concat bs @ pr_pending p') \<subseteq> set (pr_pending p) \<union> {c. Some c \<in> set vs}"
    unfolding concat_batch_plan [OF plan] by (auto simp: mem_map_filter)
  with assms(3,7) have mem: "verdict_logged es (Some c)"
    if "c \<in> set (pr_pending p') \<or> (\<exists>b \<in> set bs. c \<in> set b)" for c
    using that by fastforce
  note contig = batch_plan_contiguous [OF plan assms(2,4,6)]
  note sizes = batch_plan_sizes [OF plan assms(5)]
  have "proof_fine P (pr_batch_size p) es f" if "f \<in> set fs" for f
  proof -
    from that run_batches_discharged [OF run] obtain b where "b \<in> set bs" "discharged P b f"
      by (metis in_set_conv_nth list_all2_conv_all_nth)
    with contig sizes mem show ?thesis
      unfolding proof_fine_def by blast
  qed
  with contig mem show ?thesis by blast
qed

text \<open>The doorbell handler.\<close>

lemma prover_doorbell_ok:
  assumes "ok l" "prover_inv good (entries l) p" "well_ruled (entries l)"
    and "length (entries l) < 2 ^ 64"
  shows "\<exists>p' l' fs. prover_on_doorbell L P (p, l) = Some (Ok (), p', l') \<and> ok l' \<and>
    entries l' = entries l @ fs \<and> (\<forall>f \<in> set fs. proof_fine P (pr_batch_size p) (entries l) f) \<and>
    prover_inv good (entries l') p' \<and> pr_batch_size p' = pr_batch_size p \<and>
    pr_cursor p' = position_of (length (entries l))"
proof -
  let ?es = "entries l"
  from assms(2) obtain i nxt where i: "i \<le> length ?es" "pr_cursor p = position_of i"
    and nxt: "pr_next_slot p = word_of_nat nxt" and step: "in_step ?es i (pr_awaiting p) nxt"
    and len: "length (pr_pending p) \<le> nxt"
    and run: "map cs_slot (pr_pending p) = slot_run (nxt - length (pr_pending p)) nxt"
    and size: "length (pr_pending p) < pr_batch_size p"
    and pend: "\<forall>c \<in> set (pr_pending p). verdict_logged ?es (Some c)" and good: "good (pr_prover p)"
    by (auto simp: prover_inv_def)
  let ?p = "p\<lparr>pr_cursor := position_of (length ?es)\<rparr>"
  have read: "lg_read_from L (pr_cursor p) l = Ok (positioned_from i (drop i ?es))"
    using read_from_eq [OF assms(1)] i assms(4) by (simp add: drop_positioned_from)
  have bell: "prover_on_doorbell L P (p, l) = prover_entries L P (drop i ?es) (?p, l)"
  proof -
    have "fold (\<lambda>(pos, e) _. position_next pos) (positioned_from i (drop i ?es)) (pr_cursor p) =
        position_of (length ?es)"
      using i by (cases "i = length ?es") (simp_all add: fold_cursor)
    then show ?thesis
      by (simp add: prover_on_doorbell_def read)
  qed
  from releases_in_step [OF step assms(3) i(1) assms(4)] obtain vs aw' nxt'
    where rel: "releases (drop i ?es) (pr_awaiting p, word_of_nat nxt) = Ok (vs, aw', word_of_nat nxt')"
      and step': "in_step ?es (length ?es) aw' nxt'" and nxt': "nxt' = nxt + length vs" and vs: "\<forall>v \<in> set vs. verdict_logged ?es v"
    by blast
  have keyed: "keyed (pr_awaiting p)"
    using step by (simp add: in_step_def)
  have lab: "labelled nxt vs"
    using releases_labelled [OF rel keyed] by simp
  have "releases (drop i ?es) (release_state_of ?p) = Ok (vs, aw', word_of_nat nxt')"
    using rel nxt by (simp add: release_state_of_def)
  note rel' = this
  from prover_entries_total [OF assms(1) _ _ rel'] size good obtain p' l'
    where out: "prover_entries L P (drop i ?es) (?p, l) = Some (Ok (), p', l')"
    by auto
  from prover_entries_refines [OF assms(1) _ out] size rel' obtain fs
    where st: "release_state_of p' = (aw', word_of_nat nxt')" and b: "batched P vs ?p fs p'"
      and l': "ok l'" "entries l' = ?es @ fs"
    by auto
  have fine: "(\<forall>f \<in> set fs. proof_fine P (pr_batch_size p) ?es f) \<and>
      (\<forall>c \<in> set (pr_pending p'). verdict_logged ?es (Some c)) \<and>
      length (pr_pending p') \<le> nxt' \<and>
      map cs_slot (pr_pending p') = slot_run (nxt' - length (pr_pending p')) nxt'"
    using batched_fine [OF b lab vs] len size run pend nxt' by simp
  have "pr_cursor p' = position_of (length ?es)" "pr_batch_size p' = pr_batch_size p"
    using b by (simp_all add: batched_def)
  moreover have "length (pr_pending p') < pr_batch_size p'" "good (pr_prover p')"
    using batched_sizes [OF b] batched_good [OF b] size good by simp_all
  ultimately have "prover_inv good ?es p'"
    using fine step' st
    by (intro prover_invI [of "length ?es" _ _ nxt']) (auto simp: release_state_of_def)
  then have "prover_inv good (entries l') p'"
    using l'(2) prover_inv_append by simp
  with bell out l' fine \<open>pr_cursor p' = _\<close> \<open>pr_batch_size p' = _\<close> show ?thesis
    by auto
qed

text \<open>The flush timer.\<close>

lemma prover_timer_ok:
  assumes "ok l" "prover_inv good (entries l) p"
  shows "\<exists>p' l' fs. prover_on_timer L P (p, l) = Some (Ok (), p', l') \<and> ok l' \<and>
    entries l' = entries l @ fs \<and> (\<forall>f \<in> set fs. proof_fine P (pr_batch_size p) (entries l) f) \<and>
    prover_inv good (entries l') p' \<and> pr_batch_size p' = pr_batch_size p"
proof (cases "pr_pending p = []")
  case True
  with assms show ?thesis
    by (intro exI [of _ p] exI [of _ l] exI [of _ "[]"]) (simp add: prover_on_timer_def)
next
  case False
  let ?es = "entries l"
  from assms(2) obtain i nxt where i: "i \<le> length ?es" "pr_cursor p = position_of i"
    "pr_next_slot p = word_of_nat nxt" "in_step ?es i (pr_awaiting p) nxt"
    and len: "length (pr_pending p) \<le> nxt"
    and run: "map cs_slot (pr_pending p) = slot_run (nxt - length (pr_pending p)) nxt"
    and size: "length (pr_pending p) < pr_batch_size p"
    and pend: "\<forall>c \<in> set (pr_pending p). verdict_logged ?es (Some c)" and good: "good (pr_prover p)"
    by (auto simp: prover_inv_def)
  from prover_flush_total [OF assms(1) False good] obtain p' l'
    where flush: "prover_flush L P (p, l) = Some (Ok (), p', l')"
    by blast
  from prover_flush_outcome [OF assms(1) flush] obtain e st
    where e: "proof_entry P (pr_pending p) (pr_prover p) = Some (e, st)"
      and p': "p' = p\<lparr>pr_pending := [], pr_prover := st\<rparr>" and l': "ok l'" "entries l' = ?es @ [e]"
    by auto
  have "contiguous (pr_pending p)"
    unfolding contiguous_def using run len by (intro exI [of _ "nxt - length (pr_pending p)"]) simp
  with proof_entry_discharged [OF e] size pend have fine: "proof_fine P (pr_batch_size p) ?es e"
    unfolding proof_fine_def by (intro exI [of _ "pr_pending p"]) auto
  have "good st"
    using proof_entry_total [OF good False] e by auto
  with i size have "prover_inv good ?es p'"
    unfolding p' by (intro prover_invI [of i _ _ nxt]) simp_all
  then have "prover_inv good (entries l') p'"
    using l'(2) prover_inv_append by simp
  moreover have "prover_on_timer L P (p, l) = Some (Ok (), p', l')"
    using False flush by (simp add: prover_on_timer_def)
  ultimately show ?thesis
    using l' fine p' by auto
qed

text \<open>
  A prover started on a log that commits and rules in order, whose newest proof is of a slot it
  committed.
\<close>

lemma prover_start_inv:
  assumes "ok l" "well_ruled (entries l)" "length (entries l) < 2 ^ 64" "good st"
    and "0 < bc_batch_size cfg" "committed_slots (entries l) = slot_run 0 n" "nxt \<le> n"
    and "fold high_water (proved_slots (entries l)) None =
      (if nxt = 0 then None else Some (word_of_nat (nxt - 1)))"
  shows "\<exists>p. prover_start L st cfg l = Ok p \<and> prover_inv good (entries l) p \<and>
    pr_next_slot p = word_of_nat nxt"
proof -
  from prover_resume_in_step [OF assms(2,3,6,7,8)] obtain c
    where c: "c \<le> length (entries l)" "in_step (entries l) c Map.empty nxt"
      "prover_resume (positioned (entries l)) (position_of (length (entries l))) =
        (position_of c, word_of_nat nxt)"
    by blast
  have "recover_prover L l = Ok (position_of c, word_of_nat nxt)"
    using read_from_eq [OF assms(1), of position_ZERO] c(3) assms(1)
    by (simp add: recover_prover_def head_eq)
  with c assms(4,5) show ?thesis
    by (auto simp: prover_start_def intro!: prover_invI [of c _ _ nxt])
qed

end

text \<open>The mock backend over the in-memory log.\<close>

interpretation mock_proving: proving mem_ops ml_entries "\<lambda>_. True" "mock_prove_ops K" mock_latency_ok
  mock_statement for K
  by unfold_locales

end
