(* ===== verification/Startup.thy ===== *)
theory Startup
  imports Prove Attest Sequencer
begin

text \<open>
  The process start (\<^verbatim>\<open>src/src/main.rs\<close>): the \<open>FAIL_SLOTS\<close> parser and the configuration the
  pipeline runs with. Strings are UTF-8 bytes, so trimming removes the encodings of the
  characters with Unicode property \<open>White_Space\<close>.
\<close>

section \<open>Standard library string functions\<close>

definition utf8 :: "nat list \<Rightarrow> string" where "utf8 = map char_of"

definition white_space :: "string list" where
  "white_space =
     map (\<lambda>n. utf8 [n]) [0x09, 0x0A, 0x0B, 0x0C, 0x0D, 0x20] @
     [utf8 [0xC2, 0x85], utf8 [0xC2, 0xA0], utf8 [0xE1, 0x9A, 0x80]] @
     map (\<lambda>n. utf8 [0xE2, 0x80, 0x80 + n]) [0..<11] @
     [utf8 [0xE2, 0x80, 0xA8], utf8 [0xE2, 0x80, 0xA9], utf8 [0xE2, 0x80, 0xAF],
      utf8 [0xE2, 0x81, 0x9F], utf8 [0xE3, 0x80, 0x80]]"

lemma white_space_nonempty: "w \<in> set white_space \<Longrightarrow> w \<noteq> []"
  by (auto simp: white_space_def utf8_def)

definition starts_with :: "string \<Rightarrow> string \<Rightarrow> bool" where
  "starts_with w s \<longleftrightarrow> take (length w) s = w"

lemma starts_with_shorter: "starts_with w s \<Longrightarrow> w \<noteq> [] \<Longrightarrow> length s - length w < length s"
  unfolding starts_with_def by (cases s; cases w) auto

function trim_start_of :: "string list \<Rightarrow> string \<Rightarrow> string" where
  "trim_start_of ws s =
    (case find (\<lambda>w. w \<noteq> [] \<and> starts_with w s) ws of
       None \<Rightarrow> s
     | Some w \<Rightarrow> trim_start_of ws (drop (length w) s))"
  by pat_completeness auto
termination
  by (relation "measure (\<lambda>(ws, s). length s)") (auto simp: find_Some_iff intro: starts_with_shorter)

declare trim_start_of.simps [simp del]

definition trim :: "string \<Rightarrow> string" where
  "trim s = rev (trim_start_of (map rev white_space) (rev (trim_start_of white_space s)))"

text \<open>\<open>split(c)\<close> yields one more piece than there are separators.\<close>

fun split_char :: "char \<Rightarrow> string \<Rightarrow> string list" where
  "split_char c [] = [[]]"
| "split_char c (x # xs) =
    (if x = c then [] # split_char c xs
     else (case split_char c xs of [] \<Rightarrow> [[x]] | p # ps \<Rightarrow> (x # p) # ps))"

fun split_once :: "char \<Rightarrow> string \<Rightarrow> (string \<times> string) option" where
  "split_once c [] = None"
| "split_once c (x # xs) =
    (if x = c then Some ([], xs)
     else map_option (\<lambda>(a, b). (x # a, b)) (split_once c xs))"

text \<open>\<open>str::parse::<u64>()\<close>: an optional plus, at least one digit, and no overflow on the way.\<close>

definition digit_value :: "char \<Rightarrow> nat option" where
  "digit_value c =
    (let n = (of_char c :: nat) in if 48 \<le> n \<and> n \<le> 57 then Some (n - 48) else None)"

fun parse_digits :: "nat \<Rightarrow> string \<Rightarrow> nat option" where
  "parse_digits acc [] = Some acc"
| "parse_digits acc (c # cs) =
    (case digit_value c of
       None \<Rightarrow> None
     | Some d \<Rightarrow> if acc * 10 + d < 2 ^ 64 then parse_digits (acc * 10 + d) cs else None)"

definition parse_u64 :: "string \<Rightarrow> u64 option" where
  "parse_u64 s =
    (let digits = (case s of c # cs \<Rightarrow> if c = CHR ''+'' then cs else s | [] \<Rightarrow> [])
     in if digits = [] then None else map_option word_of_nat (parse_digits 0 digits))"

section \<open>\<open>fail_slots\<close>\<close>

datatype fail_slots_error =
    NotFromTo string
  | NonNumericBound string
  | RunsBackwards string

definition parse_range :: "string \<Rightarrow> fail_slots_error + u64 \<times> u64" where
  "parse_range rng =
     try_bind (ok_or (NotFromTo rng) (split_once (CHR ''-'') rng))
       (\<lambda>(from_s, to_s).
          let bound = (\<lambda>s. ok_or (NonNumericBound rng) (parse_u64 (trim s)))
          in try_bind (bound from_s) (\<lambda>from_slot. try_bind (bound to_s) (\<lambda>to_slot.
               if from_slot > to_slot then Err (RunsBackwards rng)
               else Ok (from_slot, to_slot))))"

text \<open>Collecting into a \<open>Result\<close> stops at the first error.\<close>

fun collect_results :: "('a \<Rightarrow> 'e + 'b) \<Rightarrow> 'a list \<Rightarrow> 'e + 'b list" where
  "collect_results f [] = Ok []"
| "collect_results f (x # xs) =
     try_bind (f x) (\<lambda>y. try_bind (collect_results f xs) (\<lambda>ys. Ok (y # ys)))"

text \<open>The argument is what \<open>std::env::var\<close> yields: \<open>None\<close> when unset or not UTF-8.\<close>

definition fail_slots :: "string option \<Rightarrow> fail_slots_error + (u64 \<times> u64) list" where
  "fail_slots env =
    (case env of
       None \<Rightarrow> Ok []
     | Some spec \<Rightarrow>
         collect_results parse_range
           (filter (\<lambda>r. r \<noteq> []) (map trim (split_char (CHR '','') spec))))"

section \<open>The configuration of \<open>main\<close>\<close>

definition from_secs :: "u64 \<Rightarrow> duration" where
  "from_secs s = \<lparr>dur_secs = s, dur_nanos = 0\<rparr>"

definition main_guarantee :: guarantee_config where
  "main_guarantee = \<lparr>g_slot_duration = from_millis 100, g_max_slots = 20\<rparr>"

definition main_enclave :: mock_enclave where "main_enclave = mock_enclave_new"

definition main_backend :: "(u64 \<times> u64) list \<Rightarrow> mock_prover" where
  "main_backend fail =
     prover_failing_on fail (prover_with_latency (from_millis 50) mock_prover_new)"

definition main_batch_config :: batch_config where
  "main_batch_config = \<lparr>bc_batch_size = 10, bc_flush_after = from_secs 5\<rparr>"

section \<open>What the parser accepts\<close>

lemma collect_results_Ok:
  "collect_results f xs = Ok ys \<longleftrightarrow> list_all2 (\<lambda>x y. f x = Ok y) xs ys"
proof (induction xs arbitrary: ys)
  case Nil
  then show ?case by auto
next
  case (Cons x xs)
  then show ?case
    by (cases ys) (auto simp: try_bind_Ok_iff)
qed

lemma parse_range_Ok: "parse_range s = Ok (a, b) \<Longrightarrow> a \<le> b"
  by (auto simp: parse_range_def try_bind_Ok_iff Let_def split: if_splits)

lemma fail_slots_ordered: "fail_slots env = Ok rs \<Longrightarrow> (a, b) \<in> set rs \<Longrightarrow> a \<le> b"
  by (auto simp: fail_slots_def collect_results_Ok in_set_conv_nth list_all2_conv_all_nth
      split: option.splits) (metis parse_range_Ok)

text \<open>Decimal rendering and parsing are inverse.\<close>

lemma digit_value_digit_char: "d < 10 \<Longrightarrow> digit_value (digit_char d) = Some d"
  by (simp add: digit_value_def digit_char_def)

lemma parse_digits_append:
  "parse_digits acc (cs @ ds) = Option.bind (parse_digits acc cs) (\<lambda>a. parse_digits a ds)"
  by (induction acc cs rule: parse_digits.induct) (auto split: option.split)

lemma parse_digits_show_nat: "n < 2 ^ 64 \<Longrightarrow> parse_digits 0 (show_nat n) = Some n"
proof (induction n rule: show_nat.induct)
  case (1 n)
  show ?case
  proof (cases "n < 10")
    case True
    with "1.prems" show ?thesis
      by (simp add: show_nat.simps [of n] digit_value_digit_char)
  next
    case False
    moreover have "n div 10 * 10 + n mod 10 = n" by simp
    ultimately show ?thesis
      using 1 by (simp add: show_nat.simps [of n] parse_digits_append digit_value_digit_char)
  qed
qed

lemma show_nat_digits: "set (show_nat n) \<subseteq> digit_char ` {..<10}"
proof (induction n rule: show_nat.induct)
  case (1 n)
  then show ?case
    by (cases "n < 10") (simp_all add: show_nat.simps [of n])
qed

lemma show_nat_nonempty [simp]: "show_nat n \<noteq> []"
  by (simp add: show_nat.simps [of n])

lemma of_char_digit: "d < 10 \<Longrightarrow> of_char (digit_char d) = (48 + d :: nat)"
  by (simp add: digit_char_def)

lemma digit_char_neq: "d < 10 \<Longrightarrow> of_char c < (48 :: nat) \<Longrightarrow> digit_char d \<noteq> c"
  using of_char_digit [of d] by auto

lemma parse_u64_show: "parse_u64 (show_u64 w) = Some w"
proof -
  have lt: "unat w < 2 ^ 64"
    using unsigned_less [of w] by simp
  have "hd (show_nat (unat w)) \<in> digit_char ` {..<10}"
    using show_nat_digits [of "unat w"] hd_in_set [OF show_nat_nonempty, of "unat w"] by blast
  then have "hd (show_nat (unat w)) \<noteq> CHR ''+''"
    using digit_char_neq [of _ "CHR ''+''"] by fastforce
  then have "(case show_nat (unat w) of c # cs \<Rightarrow> if c = CHR ''+'' then cs else show_nat (unat w) | [] \<Rightarrow> []) =
      show_nat (unat w)"
    by (cases "show_nat (unat w)") auto
  then show ?thesis
    by (simp add: parse_u64_def show_u64_def parse_digits_show_nat [OF lt])
qed

end
