(* ===== verification/Prove_Properties.thy ===== *)
theory Prove_Properties
  imports Prover_Task Startup
begin

text \<open>
  The properties of the proof stage over the in-memory log and the mock backend: recovery, the two
  handlers, what a proof binds, and the two ways the task can be brought down.
\<close>

section \<open>A concrete log and prover\<close>

text \<open>Slots 0 to 2, of which 0 was attested and 1 failed attestation.\<close>

definition prove_slot :: "u64 \<Rightarrow> entry" where
  "prove_slot s = SlotCommitted s [] position_ZERO (Commitment (array_repeat 0)) 0"

definition prove_log :: mem_log where
  "prove_log =
     \<lparr>ml_entries =
        [prove_slot 0, SlotAttested 0 [] (Signature (array_repeat 0)), prove_slot 1,
         AttestFailed 1 [], prove_slot 2],
      ml_doorbell = []\<rparr>"

lemma slot_run_small [simp]:
  "slot_run 0 (Suc 0) = [0]" "slot_run 0 (Suc (Suc 0)) = [0, 1]"
  "slot_run 0 (Suc (Suc (Suc 0))) = [0, 1, 2]" "slot_run 0 3 = [0, 1, 2]"
  by (simp_all add: slot_run_def upt_conv_Cons)

lemma prove_log_well_ruled: "well_ruled (ml_entries prove_log)"
  by (simp add: well_ruled_code prove_log_def prove_slot_def Let_def upt_conv_Cons numeral_eq_Suc)

lemma prove_log_facts:
  "length (ml_entries prove_log) < 2 ^ 64" "committed_slots (ml_entries prove_log) = slot_run 0 3"
  "fold high_water (proved_slots (ml_entries prove_log)) None =
     (if (0::nat) = 0 then None else Some (word_of_nat (0 - 1)))"
  by (simp_all add: prove_log_def prove_slot_def)

section \<open>Properties\<close>

text \<open>
  On a log that commits and rules in order and whose newest proof is of slot
  \<open>nxt - 1\<close> (none when \<open>nxt\<close> is 0), the prover starts without error, expects slot \<open>nxt\<close> next,
  and is in step with the log: what it still needs lies at or after its cursor.
\<close>

theorem prover_recovery_in_step:
  assumes "well_ruled (ml_entries l)" "length (ml_entries l) < 2 ^ 64"
    and "committed_slots (ml_entries l) = slot_run 0 n"
    and "fold high_water (proved_slots (ml_entries l)) None =
      (if nxt = 0 then None else Some (word_of_nat (nxt - 1)))"
    and "nxt \<le> n" "0 < bc_batch_size cfg" "mock_latency_ok m"
  shows "\<exists>p. prover_start mem_ops m cfg l = Ok p \<and> pr_next_slot p = word_of_nat nxt \<and>
    prover_inv mock_latency_ok (ml_entries l) p"
  using mock_proving.prover_start_inv [OF TrueI assms(1,2,7,6,3,5,4)] by blast

theorem prover_recovery_in_step_witness:
  "\<exists>p. prover_start mem_ops mock_prover_new main_batch_config prove_log = Ok p \<and>
    pr_next_slot p = word_of_nat 0 \<and> prover_inv mock_latency_ok (ml_entries prove_log) p"
  by (rule prover_recovery_in_step [OF prove_log_well_ruled prove_log_facts])
    (simp_all add: main_batch_config_def mock_latency_ok_new)

text \<open>
  C22: The prover never stalls. In step with a log that commits and rules in order, its doorbell
  handler meets no slot gap, no missing commit and no panic; everything it appends is a proof, or
  a recorded failure, of a non-empty batch of at most \<open>batch_size\<close> consecutive slots that were
  committed and attested, a proof verifies against those slots, and it is in step afterwards.
\<close>

theorem prover_never_stalls:
  assumes "prover_inv mock_latency_ok (ml_entries l) p" "well_ruled (ml_entries l)"
    and "length (ml_entries l) < 2 ^ 64"
  shows "\<exists>p' l' fs. prover_on_doorbell mem_ops (mock_prove_ops K) (p, l) = Some (Ok (), p', l') \<and>
    ml_entries l' = ml_entries l @ fs \<and>
    (\<forall>f \<in> set fs. \<exists>batch. batch \<noteq> [] \<and> length batch \<le> pr_batch_size p \<and> contiguous batch \<and>
       (\<forall>c \<in> set batch. verdict_logged (ml_entries l) (Some c)) \<and>
       discharged (mock_prove_ops K) batch f) \<and>
    prover_inv mock_latency_ok (ml_entries l') p'"
  using mock_proving.prover_doorbell_ok [OF TrueI assms] unfolding proof_fine_def by blast

theorem prover_never_stalls_witness:
  "\<exists>p p' l'. prover_start mem_ops mock_prover_new main_batch_config prove_log = Ok p \<and>
    prover_on_doorbell mem_ops (mock_prove_ops (\<lambda>_. array_repeat 0)) (p, prove_log) = Some (Ok (), p', l')"
proof -
  obtain p where p: "prover_start mem_ops mock_prover_new main_batch_config prove_log = Ok p"
    "prover_inv mock_latency_ok (ml_entries prove_log) p"
    using mock_proving.prover_start_inv [OF TrueI prove_log_well_ruled prove_log_facts(1)
        mock_latency_ok_new _ prove_log_facts(2) _ prove_log_facts(3), of main_batch_config]
    by (auto simp: main_batch_config_def)
  from prover_never_stalls [OF p(2) prove_log_well_ruled prove_log_facts(1), of "\<lambda>_. array_repeat 0"] p(1)
  show ?thesis by blast
qed

text \<open>
  The flush timer proves whatever is pending, under the same guarantees, and keeps the prover
  in step.
\<close>

theorem prover_timer_flushes:
  assumes "prover_inv mock_latency_ok (ml_entries l) p"
  shows "\<exists>p' l' fs. prover_on_timer mem_ops (mock_prove_ops K) (p, l) = Some (Ok (), p', l') \<and>
    ml_entries l' = ml_entries l @ fs \<and>
    (\<forall>f \<in> set fs. proof_fine (mock_prove_ops K) (pr_batch_size p) (ml_entries l) f) \<and>
    prover_inv mock_latency_ok (ml_entries l') p'"
  using mock_proving.prover_timer_ok [OF TrueI assms] by blast

theorem prover_timer_flushes_witness:
  "\<exists>p p' l'. prover_start mem_ops mock_prover_new main_batch_config prove_log = Ok p \<and>
    prover_on_timer mem_ops (mock_prove_ops (\<lambda>_. array_repeat 0)) (p, prove_log) = Some (Ok (), p', l')"
proof -
  obtain p where p: "prover_start mem_ops mock_prover_new main_batch_config prove_log = Ok p"
    "prover_inv mock_latency_ok (ml_entries prove_log) p"
    using mock_proving.prover_start_inv [OF TrueI prove_log_well_ruled prove_log_facts(1)
        mock_latency_ok_new _ prove_log_facts(2) _ prove_log_facts(3), of main_batch_config]
    by (auto simp: main_batch_config_def)
  from prover_timer_flushes [OF p(2), of "\<lambda>_. array_repeat 0"] p(1)
  show ?thesis by blast
qed

text \<open>
  What a mock proof binds: a handle the backend produced verifies against its own slots under
  every verifier state, and a handle that verifies against two batches is about the same
  commitments in the same order.
\<close>

theorem mock_proof_binds_commitments:
  assumes "mock_prove K slots m = Some (Ok h, m')"
  shows "mock_verify K h slots m'' = Ok () \<and>
    (mock_verify K h slots' m'' = Ok () \<longleftrightarrow> map cs_commitment slots' = map cs_commitment slots)"
proof -
  have "mock_verify K h slots m'' = Ok ()"
    using mock_backend.prove_verifies assms by simp
  moreover have chain: "mock_chain K slots = mock_chain K slots'"
    if "map cs_commitment slots' = map cs_commitment slots"
  proof -
    have "fold (\<lambda>s h. hasher_update (array_bytes (commitment_array (cs_commitment s))) h) zs hs =
        fold (\<lambda>c h. hasher_update (array_bytes (commitment_array c)) h) (map cs_commitment zs) hs" for zs hs
      by (induction zs arbitrary: hs) simp_all
    then show ?thesis
      unfolding mock_chain_def by (metis that)
  qed
  ultimately show ?thesis
    by (auto simp: mock_verify_Ok_iff mock_statement_inject)
qed

definition prove_sample :: committed_slot where
  "prove_sample = \<lparr>cs_slot = 0, cs_intents = [], cs_commitment = Commitment (array_repeat 7)\<rparr>"

theorem mock_proof_binds_commitments_witness:
  "mock_verify (\<lambda>_. array_repeat 0)
     \<lparr>ph_backend = Mock, ph_proof = mock_chain (\<lambda>_. array_repeat 0) [prove_sample],
      ph_public_inputs = mock_statement [prove_sample], ph_vkey_hash = MOCK_VKEY_HASH\<rparr>
     [prove_sample] mock_prover_new = Ok ()"
proof -
  have "duration_mul_fits (mp_per_slot mock_prover_new) 1"
    using mock_latency_ok_new by (simp add: mock_latency_ok_def)
  then have "\<exists>m'. mock_prove (\<lambda>_. array_repeat 0) [prove_sample] mock_prover_new = Some (Ok
      \<lparr>ph_backend = Mock, ph_proof = mock_chain (\<lambda>_. array_repeat 0) [prove_sample],
       ph_public_inputs = mock_statement [prove_sample], ph_vkey_hash = MOCK_VKEY_HASH\<rparr>, m')"
    by (simp add: mock_prove_def Let_def mock_prover_new_def)
  with mock_proof_binds_commitments show ?thesis by blast
qed

text \<open>
  What a mock proof does not bind: verification reads only the commitments, so replacing the
  ordered intents of every slot leaves its verdict unchanged. Only \<open>verify_preconf\<close> recomputes a
  commitment from intents.
\<close>

theorem mock_verify_ignores_intents:
  "mock_verify K h (map (\<lambda>s. s\<lparr>cs_intents := f (cs_slot s)\<rparr>) slots) m = mock_verify K h slots m"
proof -
  have "mock_statement (map (\<lambda>s. s\<lparr>cs_intents := f (cs_slot s)\<rparr>) slots) = mock_statement slots"
    by (simp add: mock_statement_def comp_def)
  moreover have "mock_chain K (map (\<lambda>s. s\<lparr>cs_intents := f (cs_slot s)\<rparr>) slots) = mock_chain K slots"
    by (simp add: mock_chain_def fold_map comp_def)
  ultimately show ?thesis
    by (simp add: mock_verify_def)
qed



text \<open>
  A batch size of zero is not a configuration the task survives: the first entry of any kind
  that reaches the end of the loop body makes it flush an empty batch, which panics.
\<close>

theorem zero_batch_size_panics:
  assumes "pr_batch_size p = 0" "pr_pending p = []"
  shows "prover_entry L P (IntentReceived i intent t) (p, l) = None"
  using assms by (simp add: prover_entry_def prover_fill_def prover_flush_def proof_entry_def)

theorem zero_batch_size_panics_witness:
  "prover_entry mem_ops (mock_prove_ops (\<lambda>_. array_repeat 0)) (IntentReceived (IntentId (array_repeat 1)) (dummy 1) 5)
     (\<lparr>pr_prover = mock_prover_new, pr_awaiting = Map.empty, pr_pending = [], pr_batch_size = 0,
       pr_flush_after = from_secs 5, pr_cursor = position_ZERO, pr_next_slot = 0\<rparr>, mem_log_new) = None"
  by (rule zero_batch_size_panics) simp_all

end
