(* ===== verification/Receipt.thy ===== *)
theory Receipt
  imports Log_Entry
begin

text \<open>
  The API contract's types (\<^verbatim>\<open>src/src/receipt.rs\<close>): lifecycle, status and the receipt with its
  guarantee state and evidence. Their JSON is in \<open>Wire\<close>.
\<close>

datatype lifecycle =
    Received
  | Sequenced
  | Preconfirmed
  | Expired
  | FinalProven
  | Failed string
      \<comment> \<open>\<open>reason\<close>\<close>

record status_response =
  st_intent_id :: intent_id
  st_lifecycle :: lifecycle
  st_slot :: "u64 option"

record sequence_position =
  sp_slot :: u64
  sp_index :: u32
  sp_slot_commitment :: commitment

datatype guarantee_state =
    Pending
  | Overdue
  | Met u64 u64
      \<comment> \<open>\<open>slot\<close>, \<open>committed_at_ms\<close>\<close>
  | Missed u64 u64
      \<comment> \<open>\<open>deadline_ms\<close>, \<open>expired_at_ms\<close>\<close>

record inclusion_guarantee =
  ig_received_at_ms :: u64
  ig_max_slots :: u32
  ig_deadline_ms :: u64
  ig_intent_deadline_ms :: u64
  ig_state :: guarantee_state

record preconf_ref =
  pf_slot :: u64
  pf_commitment :: commitment
  pf_quote :: string
  pf_signature :: signature

record proof_ref =
  pf_from_slot :: u64
  pf_to_slot :: u64
  pf_backend :: string
  pf_vkey_hash :: string
  pf_proof :: string

record receipt =
  rc_intent_id :: intent_id
  rc_lifecycle :: lifecycle
  rc_log_position :: position
  rc_sequence :: "sequence_position option"
  rc_guarantee :: inclusion_guarantee
  rc_preconf :: "preconf_ref option"
  rc_proof :: "proof_ref option"

end
