(* ===== verification/Projection.thy ===== *)
theory Projection
  imports Receipt Intent_Log Guarantee
begin

text \<open>
  The read model (\<^verbatim>\<open>src/src/projection.rs\<close>): slot and intent rows, \<open>apply\<close> for every entry, the
  derived lifecycle, status and receipt, and the projector task; then the invariant of the rows
  and the characterisation of the state as a fold over the log. \<open>hex::encode\<close> is the parameter
  \<open>hex\<close>. \<open>Expired\<close> is also a rejection of the admission gate; this theory does not import it.
\<close>

section \<open>State\<close>

datatype slot_stage =
    StageCommitted
  | StagePreconfirmed
  | StageProven
  | StageFailed string
      \<comment> \<open>\<open>reason\<close>\<close>

record preconf =
  pr_quote :: bytes
  pr_signature :: signature

record proven_range =
  rg_from_slot :: u64
  rg_to_slot :: u64
  rg_handle :: proof_handle

record slot_row =
  sr_committed_at_ms :: u64
  sr_commitment :: commitment
  sr_stage :: slot_stage
  sr_preconf :: "preconf option"
  sr_proof :: "proven_range option"

record intent_row =
  ir_position :: position
  ir_received_at_ms :: u64
  ir_deadline_ms :: u64
  ir_slot :: "u64 option"
  ir_index_in_slot :: "u32 option"
  ir_expired :: "(u64 \<times> u64) option"

record projections =
  pj_guarantee :: guarantee_config
  pj_intents :: "intent_id \<rightharpoonup> intent_row"
  pj_slots :: "u64 \<rightharpoonup> slot_row"
  pj_cursor :: position

definition projections_new :: "guarantee_config \<Rightarrow> projections" where
  "projections_new g =
     \<lparr>pj_guarantee = g, pj_intents = Map.empty, pj_slots = Map.empty, pj_cursor = position_ZERO\<rparr>"

section \<open>\<open>apply\<close>\<close>

text \<open>\<open>if let Some(row) = m.get_mut(k)\<close> with a body that changes the row.\<close>

definition modify :: "'k \<Rightarrow> ('v \<Rightarrow> 'v) \<Rightarrow> ('k \<rightharpoonup> 'v) \<Rightarrow> ('k \<rightharpoonup> 'v)" where
  "modify k f m = m(k := map_option f (m k))"

lemma modify_apply: "modify k f m x = (if x = k then map_option f (m x) else m x)"
  by (simp add: modify_def)

text \<open>\<open>from..=to\<close>\<close>

definition inclusive_range :: "u64 \<Rightarrow> u64 \<Rightarrow> u64 list" where
  "inclusive_range a b = map word_of_nat [unat a..<Suc (unat b)]"

definition attest_row :: "bytes \<Rightarrow> signature \<Rightarrow> slot_row \<Rightarrow> slot_row" where
  "attest_row quote sig row =
    (if sr_stage row = StageCommitted
     then row\<lparr>sr_stage := StagePreconfirmed,
              sr_preconf := Some \<lparr>pr_quote = quote, pr_signature = sig\<rparr>\<rparr>
     else row)"

definition prove_row :: "u64 \<Rightarrow> u64 \<Rightarrow> proof_handle \<Rightarrow> slot_row \<Rightarrow> slot_row" where
  "prove_row from_slot to_slot h row =
    (if sr_stage row = StagePreconfirmed
     then row\<lparr>sr_stage := StageProven,
              sr_proof := Some \<lparr>rg_from_slot = from_slot, rg_to_slot = to_slot, rg_handle = h\<rparr>\<rparr>
     else row)"

definition fail_row :: "string \<Rightarrow> slot_row \<Rightarrow> slot_row" where
  "fail_row reason row = row\<lparr>sr_stage := StageFailed reason\<rparr>"

text \<open>\<open>intents.iter().enumerate()\<close>: each known intent gets the slot and its index.\<close>

fun place_intents ::
    "u64 \<Rightarrow> nat \<Rightarrow> intent_id list \<Rightarrow> (intent_id \<rightharpoonup> intent_row) \<Rightarrow> (intent_id \<rightharpoonup> intent_row)" where
  "place_intents slot k [] m = m"
| "place_intents slot k (i # is) m =
     place_intents slot (Suc k) is
       (modify i (\<lambda>row. row\<lparr>ir_slot := Some slot, ir_index_in_slot := Some (word_of_nat k)\<rparr>) m)"

definition projection_apply :: "position \<Rightarrow> entry \<Rightarrow> projections \<Rightarrow> projections" where
  "projection_apply pos e p =
    (let p =
       (case e of
          IntentReceived i intent received_at \<Rightarrow>
            (case pj_intents p i of
               Some _ \<Rightarrow> p
             | None \<Rightarrow>
                 p\<lparr>pj_intents := (pj_intents p)(i \<mapsto>
                     \<lparr>ir_position = pos, ir_received_at_ms = received_at,
                      ir_deadline_ms = i_deadline_ms intent, ir_slot = None,
                      ir_index_in_slot = None, ir_expired = None\<rparr>)\<rparr>)
        | IntentExpired i guarantee_deadline_ms at_ms \<Rightarrow>
            p\<lparr>pj_intents :=
                modify i (\<lambda>row. row\<lparr>ir_expired := Some (guarantee_deadline_ms, at_ms)\<rparr>) (pj_intents p)\<rparr>
        | SlotCommitted slot intents _ c committed_at_ms \<Rightarrow>
            p\<lparr>pj_slots := (pj_slots p)(slot \<mapsto>
                \<lparr>sr_committed_at_ms = committed_at_ms, sr_commitment = c,
                 sr_stage = StageCommitted, sr_preconf = None, sr_proof = None\<rparr>),
              pj_intents := place_intents slot 0 intents (pj_intents p)\<rparr>
        | SlotAttested slot quote sig \<Rightarrow>
            p\<lparr>pj_slots := modify slot (attest_row quote sig) (pj_slots p)\<rparr>
        | SlotsProven from_slot to_slot h \<Rightarrow>
            p\<lparr>pj_slots :=
                fold (\<lambda>slot. modify slot (prove_row from_slot to_slot h))
                  (inclusive_range from_slot to_slot) (pj_slots p)\<rparr>
        | AttestFailed slot reason \<Rightarrow>
            p\<lparr>pj_slots := modify slot (fail_row reason) (pj_slots p)\<rparr>
        | ProveFailed from_slot to_slot reason \<Rightarrow>
            p\<lparr>pj_slots :=
                fold (\<lambda>slot. modify slot (fail_row reason))
                  (inclusive_range from_slot to_slot) (pj_slots p)\<rparr>)
     in p\<lparr>pj_cursor := position_next pos\<rparr>)"

section \<open>Status and receipt\<close>

definition lifecycle_of :: "projections \<Rightarrow> intent_row \<Rightarrow> lifecycle option" where
  "lifecycle_of p row =
    (if ir_expired row \<noteq> None then Some Expired
     else
       case ir_slot row of
         None \<Rightarrow> Some Received
       | Some slot \<Rightarrow>
           (case pj_slots p slot of
              None \<Rightarrow> None
            | Some sr \<Rightarrow>
                Some (case sr_stage sr of
                        StageCommitted \<Rightarrow> Sequenced
                      | StagePreconfirmed \<Rightarrow> Preconfirmed
                      | StageProven \<Rightarrow> FinalProven
                      | StageFailed reason \<Rightarrow> Failed reason)))"

definition status_of :: "projections \<Rightarrow> intent_id \<Rightarrow> status_response option" where
  "status_of p i =
    (case pj_intents p i of
       None \<Rightarrow> None
     | Some row \<Rightarrow>
         (case lifecycle_of p row of
            None \<Rightarrow> None
          | Some lc \<Rightarrow> Some \<lparr>st_intent_id = i, st_lifecycle = lc, st_slot = ir_slot row\<rparr>))"

definition receipt_sequence :: "intent_row \<Rightarrow> slot_row option \<Rightarrow> sequence_position option" where
  "receipt_sequence row slot_row =
    (case (ir_slot row, ir_index_in_slot row, slot_row) of
       (Some slot, Some index, Some sr) \<Rightarrow>
         Some \<lparr>sp_slot = slot, sp_index = index, sp_slot_commitment = sr_commitment sr\<rparr>
     | _ \<Rightarrow> None)"

definition receipt_state :: "u64 \<Rightarrow> u64 \<Rightarrow> intent_row \<Rightarrow> slot_row option \<Rightarrow> guarantee_state" where
  "receipt_state deadline_ms now_ms row slot_row =
    (case (ir_expired row, ir_slot row, slot_row) of
       (Some (deadline_ms, expired_at_ms), _, _) \<Rightarrow> Missed deadline_ms expired_at_ms
     | (None, Some slot, Some sr) \<Rightarrow> Met slot (sr_committed_at_ms sr)
     | _ \<Rightarrow> if now_ms > deadline_ms then Overdue else Pending)"

definition receipt_preconf ::
    "(bytes \<Rightarrow> string) \<Rightarrow> intent_row \<Rightarrow> slot_row option \<Rightarrow> preconf_ref option" where
  "receipt_preconf hex row slot_row =
     Option.bind slot_row (\<lambda>sr. Option.bind (sr_preconf sr) (\<lambda>p. Option.bind (ir_slot row) (\<lambda>slot.
       Some \<lparr>pf_slot = slot, pf_commitment = sr_commitment sr, pf_quote = hex (pr_quote p),
             pf_signature = pr_signature p\<rparr>)))"

definition receipt_proof :: "(bytes \<Rightarrow> string) \<Rightarrow> slot_row option \<Rightarrow> proof_ref option" where
  "receipt_proof hex slot_row =
     Option.bind slot_row (\<lambda>sr. Option.bind (sr_proof sr) (\<lambda>pr.
       Some \<lparr>pf_from_slot = rg_from_slot pr, pf_to_slot = rg_to_slot pr,
             pf_backend = backend_as_str (ph_backend (rg_handle pr)),
             pf_vkey_hash = hex (array_bytes (ph_vkey_hash (rg_handle pr))),
             pf_proof = hex (ph_proof (rg_handle pr))\<rparr>))"

definition receipt_of ::
    "(bytes \<Rightarrow> string) \<Rightarrow> projections \<Rightarrow> intent_id \<Rightarrow> u64 \<Rightarrow> receipt option" where
  "receipt_of hex p i now_ms =
     Option.bind (pj_intents p i) (\<lambda>row. Option.bind (lifecycle_of p row) (\<lambda>lc.
       let slot_row = Option.bind (ir_slot row) (pj_slots p);
           deadline_ms = deadline_for (pj_guarantee p) (ir_received_at_ms row)
       in Some
         \<lparr>rc_intent_id = i,
          rc_lifecycle = lc,
          rc_log_position = ir_position row,
          rc_sequence = receipt_sequence row slot_row,
          rc_guarantee =
            \<lparr>ig_received_at_ms = ir_received_at_ms row,
             ig_max_slots = g_max_slots (pj_guarantee p),
             ig_deadline_ms = deadline_ms,
             ig_intent_deadline_ms = ir_deadline_ms row,
             ig_state = receipt_state deadline_ms now_ms row slot_row\<rparr>,
          rc_preconf = receipt_preconf hex row slot_row,
          rc_proof = receipt_proof hex slot_row\<rparr>))"

section \<open>The projector\<close>

text \<open>One turn of the loop; an error on read waits for the next doorbell.\<close>

definition projector_on_doorbell :: "'l log_ops \<Rightarrow> 'l \<Rightarrow> projections \<Rightarrow> projections" where
  "projector_on_doorbell L l p =
    (case lg_read_from L (pj_cursor p) l of
       Err _ \<Rightarrow> p
     | Ok batch \<Rightarrow> fold (\<lambda>(pos, e). projection_apply pos e) batch p)"

end
