(* ===== verification/Projection_Rows.thy ===== *)
theory Projection_Rows
  imports Projection Slot_Log Admission
begin

text \<open>
  The read model row by row: each slot row and each intent row is its own state machine over the
  log (\<open>slot_step\<close>, \<open>intent_step\<close>), the whole state is the fold of \<open>apply\<close> over the log
  (\<open>project\<close>), every piece of evidence a row holds comes from an entry of the log, and the
  projector keeps the state equal to a prefix of that fold.
\<close>

section \<open>Ranges\<close>

lemma set_inclusive_range: "s \<in> set (inclusive_range a b) \<longleftrightarrow> a \<le> s \<and> s \<le> b"
proof
  assume "s \<in> set (inclusive_range a b)"
  then obtain n where n: "unat a \<le> n" "n \<le> unat b" "s = word_of_nat n"
    by (auto simp: inclusive_range_def less_Suc_eq_le simp del: upt_Suc)
  moreover have "unat b < 2 ^ 64"
    using unsigned_less [of b] by simp
  ultimately show "a \<le> s \<and> s \<le> b"
    by (simp add: word_le_nat_alt unat_of_nat64)
next
  assume "a \<le> s \<and> s \<le> b"
  then have "unat s \<in> {unat a..<Suc (unat b)}" and "s = word_of_nat (unat s)"
    by (simp_all add: word_le_nat_alt)
  then show "s \<in> set (inclusive_range a b)"
    unfolding inclusive_range_def by (metis atLeastLessThan_upt image_eqI list.set_map)
qed

lemma distinct_inclusive_range: "distinct (inclusive_range a b)"
proof -
  have "unat b < 2 ^ 64"
    using unsigned_less [of b] by simp
  then have "inj_on (word_of_nat :: nat \<Rightarrow> u64) {unat a..<Suc (unat b)}"
    by (auto intro!: inj_onI simp: word_of_nat_eq_iff64)
  then show ?thesis
    by (simp add: inclusive_range_def distinct_map del: upt_Suc)
qed

lemma fold_modify:
  "distinct ks \<Longrightarrow>
     fold (\<lambda>k. modify k f) ks m x = (if x \<in> set ks then map_option f (m x) else m x)"
  by (induction ks arbitrary: m) (auto simp: modify_apply)

section \<open>Slot rows\<close>

fun slot_step :: "u64 \<Rightarrow> entry \<Rightarrow> slot_row option \<Rightarrow> slot_row option" where
  "slot_step s (SlotCommitted slot _ _ c t) row =
    (if s = slot
     then Some \<lparr>sr_committed_at_ms = t, sr_commitment = c, sr_stage = StageCommitted,
                sr_preconf = None, sr_proof = None\<rparr>
     else row)"
| "slot_step s (SlotAttested slot q g) row = (if s = slot then map_option (attest_row q g) row else row)"
| "slot_step s (AttestFailed slot r) row = (if s = slot then map_option (fail_row r) row else row)"
| "slot_step s (SlotsProven a b h) row =
    (if a \<le> s \<and> s \<le> b then map_option (prove_row a b h) row else row)"
| "slot_step s (ProveFailed a b r) row =
    (if a \<le> s \<and> s \<le> b then map_option (fail_row r) row else row)"
| "slot_step s _ row = row"

lemma apply_slots: "pj_slots (projection_apply pos e p) s = slot_step s e (pj_slots p s)"
  by (cases e)
    (simp_all add: projection_apply_def Let_def modify_apply fold_modify distinct_inclusive_range
      set_inclusive_range split: option.split)

text \<open>The steps of a slot's lifecycle: one stage at a time, or to failure.\<close>

inductive stage_step :: "slot_stage \<Rightarrow> slot_stage \<Rightarrow> bool" where
  step_attest: "stage_step StageCommitted StagePreconfirmed"
| step_prove: "stage_step StagePreconfirmed StageProven"
| step_fail: "stage_step st (StageFailed r)"

inductive_cases stage_step_to_proven: "stage_step st StageProven"
inductive_cases stage_step_to_preconfirmed: "stage_step st StagePreconfirmed"
inductive_cases stage_step_from_failed: "stage_step (StageFailed r) st"

lemma slot_step_stage:
  assumes "slot_step s e (Some row) = Some row'" "slot_of_commit e \<noteq> Some s"
  shows "(row' = row \<or> stage_step (sr_stage row) (sr_stage row')) \<and>
    sr_commitment row' = sr_commitment row \<and> sr_committed_at_ms row' = sr_committed_at_ms row"
  using assms
  by (cases e)
    (auto simp: attest_row_def prove_row_def fail_row_def split: if_splits intro: stage_step.intros)

text \<open>A row holds the evidence its stage calls for, and all of it comes from the log.\<close>

definition evidence_ok :: "slot_row \<Rightarrow> bool" where
  "evidence_ok row \<longleftrightarrow>
     (case sr_stage row of
        StageCommitted \<Rightarrow> sr_preconf row = None \<and> sr_proof row = None
      | StagePreconfirmed \<Rightarrow> sr_preconf row \<noteq> None \<and> sr_proof row = None
      | StageProven \<Rightarrow> sr_preconf row \<noteq> None \<and> sr_proof row \<noteq> None
      | StageFailed _ \<Rightarrow> sr_proof row \<noteq> None \<longrightarrow> sr_preconf row \<noteq> None)"

definition row_logged :: "entry list \<Rightarrow> u64 \<Rightarrow> slot_row \<Rightarrow> bool" where
  "row_logged es s row \<longleftrightarrow>
     (\<exists>is p. SlotCommitted s is p (sr_commitment row) (sr_committed_at_ms row) \<in> set es) \<and>
     (\<forall>pc. sr_preconf row = Some pc \<longrightarrow> SlotAttested s (pr_quote pc) (pr_signature pc) \<in> set es) \<and>
     (\<forall>rg. sr_proof row = Some rg \<longrightarrow>
        SlotsProven (rg_from_slot rg) (rg_to_slot rg) (rg_handle rg) \<in> set es \<and>
        rg_from_slot rg \<le> s \<and> s \<le> rg_to_slot rg)"

definition slot_rows :: "entry list \<Rightarrow> u64 \<Rightarrow> slot_row option" where
  "slot_rows es s = fold (slot_step s) es None"

lemma slot_rows_simps [simp]:
  "slot_rows [] s = None"
  "slot_rows (es @ [e]) s = slot_step s e (slot_rows es s)"
  by (simp_all add: slot_rows_def)

lemma slot_rows_None: "slot_rows es s = None \<longleftrightarrow> s \<notin> set (committed_slots es)"
proof (induction es rule: rev_induct)
  case Nil
  then show ?case by simp
next
  case (snoc e es)
  then show ?case by (cases e) auto
qed

lemma slot_rows_evidence: "slot_rows es s = Some row \<Longrightarrow> evidence_ok row"
proof (induction es arbitrary: row rule: rev_induct)
  case Nil
  then show ?case by simp
next
  case (snoc e es)
  then show ?case
    by (cases e)
      (auto simp: evidence_ok_def attest_row_def prove_row_def fail_row_def
        split: if_splits slot_stage.splits)
qed

lemma slot_rows_logged: "slot_rows es s = Some row \<Longrightarrow> row_logged es s row"
proof (induction es arbitrary: row rule: rev_induct)
  case Nil
  then show ?case by simp
next
  case (snoc e es)
  from snoc show ?case
    by (cases e)
      (auto simp: row_logged_def attest_row_def prove_row_def fail_row_def split: if_splits, blast+)
qed

section \<open>Intent rows\<close>

text \<open>The last index at which an intent stands in a slot.\<close>

lemma place_intents_apply:
  "place_intents slot k is m i =
    (if i \<in> set is
     then map_option (\<lambda>row. row\<lparr>ir_slot := Some slot,
            ir_index_in_slot := Some (word_of_nat (k + (GREATEST j. j < length is \<and> is ! j = i)))\<rparr>) (m i)
     else m i)"
proof (induction slot k "is" m rule: place_intents.induct)
  case (1 slot k m)
  then show ?case by simp
next
  case (2 slot k x xs m)
  show ?case
  proof (cases "i \<in> set xs")
    case True
    then obtain j0 where "j0 < length xs" "xs ! j0 = i"
      by (auto simp: in_set_conv_nth)
    then have G: "(GREATEST j. j < length xs \<and> xs ! j = i) < length xs \<and>
        xs ! (GREATEST j. j < length xs \<and> xs ! j = i) = i"
      by (rule_tac GreatestI_nat [where P = "\<lambda>j. j < length xs \<and> xs ! j = i" and b = "length xs"]) auto
    have "(GREATEST j. j < length (x # xs) \<and> (x # xs) ! j = i) =
        Suc (GREATEST j. j < length xs \<and> xs ! j = i)"
    proof (rule Greatest_equality)
      show "Suc (GREATEST j. j < length xs \<and> xs ! j = i) < length (x # xs) \<and>
          (x # xs) ! Suc (GREATEST j. j < length xs \<and> xs ! j = i) = i"
        using G by simp
    next
      fix y
      assume y: "y < length (x # xs) \<and> (x # xs) ! y = i"
      show "y \<le> Suc (GREATEST j. j < length xs \<and> xs ! j = i)"
      proof (cases y)
        case (Suc z)
        with y have "z < length xs \<and> xs ! z = i" by simp
        then have "z \<le> (GREATEST j. j < length xs \<and> xs ! j = i)"
          by (rule Greatest_le_nat [where b = "length xs"]) auto
        with Suc show ?thesis by simp
      qed simp
    qed
    with True 2 show ?thesis
      by (simp add: add.assoc [symmetric]) (simp add: modify_apply option.map_comp comp_def ac_simps)
  next
    case False
    have "(GREATEST j. j < length (x # xs) \<and> (x # xs) ! j = i) = 0" if "x = i"
    proof (rule Greatest_equality)
      fix y
      assume "y < length (x # xs) \<and> (x # xs) ! y = i"
      with False show "y \<le> 0"
        by (cases y) (auto simp: in_set_conv_nth)
    qed (use that in simp)
    with False 2 show ?thesis
      by simp (auto simp: modify_apply)
  qed
qed

definition intent_step :: "intent_id \<Rightarrow> position \<Rightarrow> entry \<Rightarrow> intent_row option \<Rightarrow> intent_row option" where
  "intent_step i pos e row =
    (case e of
       IntentReceived i' intent t \<Rightarrow>
         (if i' = i \<and> row = None
          then Some \<lparr>ir_position = pos, ir_received_at_ms = t, ir_deadline_ms = i_deadline_ms intent,
                     ir_slot = None, ir_index_in_slot = None, ir_expired = None\<rparr>
          else row)
     | IntentExpired i' d t \<Rightarrow>
         (if i' = i then map_option (\<lambda>row. row\<lparr>ir_expired := Some (d, t)\<rparr>) row else row)
     | SlotCommitted slot is _ _ _ \<Rightarrow> place_intents slot 0 is (\<lambda>_. row) i
     | _ \<Rightarrow> row)"

lemma apply_intents: "pj_intents (projection_apply pos e p) i = intent_step i pos e (pj_intents p i)"
  by (cases e)
    (auto simp: projection_apply_def intent_step_def Let_def modify_apply place_intents_apply
      split: option.split)

lemma apply_other [simp]:
  "pj_cursor (projection_apply pos e p) = position_next pos"
  "pj_guarantee (projection_apply pos e p) = pj_guarantee p"
  by (cases e; simp add: projection_apply_def Let_def split: option.split)+

section \<open>The state as a fold over the log\<close>

definition project :: "guarantee_config \<Rightarrow> entry list \<Rightarrow> projections" where
  "project g es = fold (\<lambda>(pos, e). projection_apply pos e) (positioned es) (projections_new g)"

lemma project_Nil [simp]: "project g [] = projections_new g"
  by (simp add: project_def)

lemma project_snoc: "project g (es @ [e]) = projection_apply (position_of (length es)) e (project g es)"
  by (simp add: project_def positioned_from_append)

lemma project_slots: "pj_slots (project g es) s = slot_rows es s"
  by (induction es rule: rev_induct) (simp_all add: projections_new_def project_snoc apply_slots)

lemma project_cursor: "pj_cursor (project g es) = position_of (length es)"
  by (induction es rule: rev_induct) (simp_all add: projections_new_def project_snoc position_of_0)

lemma project_guarantee [simp]: "pj_guarantee (project g es) = g"
  by (induction es rule: rev_induct) (simp_all add: projections_new_def project_snoc)

text \<open>An intent is known once it was received; its slot is one that was committed with it.\<close>

definition intent_logged :: "entry list \<Rightarrow> intent_id \<Rightarrow> intent_row \<Rightarrow> bool" where
  "intent_logged es i row \<longleftrightarrow>
     (\<exists>n intent. n < length es \<and> es ! n = IntentReceived i intent (ir_received_at_ms row) \<and>
        ir_position row = position_of n \<and> ir_deadline_ms row = i_deadline_ms intent) \<and>
     (\<forall>d t. ir_expired row = Some (d, t) \<longrightarrow> IntentExpired i d t \<in> set es) \<and>
     (ir_slot row = None \<longleftrightarrow> ir_index_in_slot row = None) \<and>
     (\<forall>s. ir_slot row = Some s \<longrightarrow>
        (\<exists>is p c t j. SlotCommitted s is p c t \<in> set es \<and> j < length is \<and> is ! j = i \<and>
           ir_index_in_slot row = Some (word_of_nat j)))"

lemma place_intents_row:
  "place_intents slot 0 is (\<lambda>_. row) i = Some r \<Longrightarrow>
     (i \<notin> set is \<and> row = Some r) \<or>
     (\<exists>j r0. j < length is \<and> is ! j = i \<and> row = Some r0 \<and>
        r = r0\<lparr>ir_slot := Some slot, ir_index_in_slot := Some (word_of_nat j)\<rparr>)"
proof (cases "i \<in> set is")
  case True
  assume placed: "place_intents slot 0 is (\<lambda>_. row) i = Some r"
  from True obtain j0 where "j0 < length is \<and> is ! j0 = i"
    by (auto simp: in_set_conv_nth)
  then have "(GREATEST j. j < length is \<and> is ! j = i) < length is \<and>
      is ! (GREATEST j. j < length is \<and> is ! j = i) = i"
    by (rule GreatestI_nat [where b = "length is"]) auto
  with True placed show ?thesis
    by (auto simp: place_intents_apply)
qed (simp add: place_intents_apply)

lemma intent_logged_mono: "intent_logged es i row \<Longrightarrow> intent_logged (es @ [e]) i row"
proof -
  assume log: "intent_logged es i row"
  then obtain n intent where "n < length es" "es ! n = IntentReceived i intent (ir_received_at_ms row)"
    "ir_position row = position_of n" "ir_deadline_ms row = i_deadline_ms intent"
    by (auto simp: intent_logged_def)
  then have "\<exists>n intent. n < length (es @ [e]) \<and>
      (es @ [e]) ! n = IntentReceived i intent (ir_received_at_ms row) \<and>
      ir_position row = position_of n \<and> ir_deadline_ms row = i_deadline_ms intent"
    by (intro exI [of _ n] exI [of _ intent]) (simp add: nth_append)
  with log show ?thesis
    unfolding intent_logged_def by fastforce
qed

lemma project_intents_logged: "pj_intents (project g es) i = Some row \<Longrightarrow> intent_logged es i row"
proof (induction es arbitrary: row rule: rev_induct)
  case Nil
  then show ?case by (simp add: projections_new_def)
next
  case (snoc e es)
  then have step: "intent_step i (position_of (length es)) e (pj_intents (project g es) i) = Some row"
    by (simp add: project_snoc apply_intents)
  show ?case
  proof (cases "pj_intents (project g es) i")
    case None
    then obtain intent t where "e = IntentReceived i intent t"
      and "row = \<lparr>ir_position = position_of (length es), ir_received_at_ms = t,
        ir_deadline_ms = i_deadline_ms intent, ir_slot = None, ir_index_in_slot = None,
        ir_expired = None\<rparr>"
      using step by (cases e) (auto simp: intent_step_def place_intents_apply split: if_splits)
    then show ?thesis
      by (auto simp: intent_logged_def intro!: exI [of _ "length es"])
  next
    case (Some r)
    note old = intent_logged_mono [OF snoc.IH [OF Some], of e]
    show ?thesis
    proof (cases "row = r")
      case False
      then consider (expired) d t where "e = IntentExpired i d t" "row = r\<lparr>ir_expired := Some (d, t)\<rparr>"
        | (placed) slot "is" p c t j where "e = SlotCommitted slot is p c t" "j < length is" "is ! j = i"
          "row = r\<lparr>ir_slot := Some slot, ir_index_in_slot := Some (word_of_nat j)\<rparr>"
        using step Some
        by (cases e) (auto simp: intent_step_def split: if_splits dest!: place_intents_row)
      then show ?thesis
      proof cases
        case expired
        with old show ?thesis by (auto simp: intent_logged_def)
      next
        case placed
        have "SlotCommitted slot is p c t \<in> set (es @ [e])"
          using placed(1) by simp
        with old placed show ?thesis
          unfolding intent_logged_def by auto
      qed
    qed (use old in simp)
  qed
qed

lemma project_intents_None: "pj_intents (project g es) i = None \<longleftrightarrow> i \<notin> set (received_ids es)"
proof (induction es rule: rev_induct)
  case Nil
  then show ?case by (simp add: projections_new_def received_ids_def)
next
  case (snoc e es)
  then show ?case
    by (cases e)
      (auto simp: project_snoc apply_intents intent_step_def received_ids_def place_intents_apply)
qed

section \<open>What the read model answers\<close>

lemma project_slot_known:
  "pj_intents (project g es) i = Some row \<Longrightarrow> ir_slot row = Some s \<Longrightarrow> slot_rows es s \<noteq> None"
proof -
  assume "pj_intents (project g es) i = Some row" "ir_slot row = Some s"
  then obtain "is" p c t where "SlotCommitted s is p c t \<in> set es"
    using project_intents_logged [of g es i row] by (auto simp: intent_logged_def)
  then have "s \<in> set (committed_slots es)"
    by (force simp: committed_slots_def mem_map_filter)
  then show ?thesis
    by (simp add: slot_rows_None)
qed

lemma lifecycle_known: "pj_intents (project g es) i = Some row \<Longrightarrow> lifecycle_of (project g es) row \<noteq> None"
  using project_slot_known [of g es i row]
  by (auto simp: lifecycle_of_def project_slots split: option.split)

lemma status_of_None: "status_of (project g es) i = None \<longleftrightarrow> i \<notin> set (received_ids es)"
  using lifecycle_known [of g es i] project_intents_None [of g es i]
  by (auto simp: status_of_def split: option.split)

lemma receipt_of_None: "receipt_of hex (project g es) i now_ms = None \<longleftrightarrow> i \<notin> set (received_ids es)"
  using lifecycle_known [of g es i] project_intents_None [of g es i]
  by (auto simp: receipt_of_def Let_def split: bind_splits)

text \<open>An expiry is terminal.\<close>

lemma intent_step_expired:
  "intent_step i pos e row = Some r' \<Longrightarrow> row = Some r \<Longrightarrow> ir_expired r \<noteq> None \<Longrightarrow> ir_expired r' \<noteq> None"
  by (cases e) (auto simp: intent_step_def place_intents_apply split: if_splits)

lemma intent_step_Some: "intent_step i pos e (Some r) \<noteq> None"
  by (cases e) (auto simp: intent_step_def place_intents_apply)

lemma expired_stays:
  assumes "pj_intents (project g es) i = Some row" "ir_expired row \<noteq> None"
  shows "\<exists>row'. pj_intents (project g (es @ fs)) i = Some row' \<and> ir_expired row' \<noteq> None"
proof (induction fs rule: rev_induct)
  case Nil
  with assms show ?case by simp
next
  case (snoc f fs)
  then obtain row' where row': "pj_intents (project g (es @ fs)) i = Some row'" "ir_expired row' \<noteq> None"
    by blast
  then obtain r where "intent_step i (position_of (length (es @ fs))) f (Some row') = Some r"
    using intent_step_Some [of i _ f row'] by blast
  with row' show ?case
    using intent_step_expired [of i _ f "Some row'" r row']
    by (auto simp: project_snoc apply_intents simp flip: append_assoc)
qed

section \<open>The projector\<close>

context intent_log
begin

text \<open>A turn of the projector reaches the fold over the whole log, or leaves the state alone.\<close>

lemma projector_outcome:
  assumes "ok l" "length (entries l) < 2 ^ 64" "i \<le> length (entries l)"
  shows "projector_on_doorbell L l (project g (take i (entries l))) =
    (case lg_read_from L (position_of i) l of
       Err _ \<Rightarrow> project g (take i (entries l))
     | Ok _ \<Rightarrow> project g (entries l))"
proof (cases "lg_read_from L (position_of i) l")
  case (Inl x)
  with assms(3) show ?thesis
    by (simp add: projector_on_doorbell_def project_cursor min_def)
next
  case (Inr pes)
  let ?xs = "take i (entries l)"
  have "positioned (entries l) = positioned ?xs @ positioned_from (length ?xs) (drop i (entries l))"
    by (metis add_0 append_take_drop_id positioned_from_append)
  moreover have "pes = positioned_from (length ?xs) (drop i (entries l))"
    using read_from_Ok [OF assms(1) Inr] assms(2,3) by (simp add: drop_positioned_from)
  ultimately have "positioned (entries l) = positioned ?xs @ pes"
    by simp
  then have "project g (entries l) = fold (\<lambda>(pos, e). projection_apply pos e) pes (project g ?xs)"
    by (simp only: project_def fold_append comp_apply)
  then show ?thesis
    using Inr assms(3) by (simp add: projector_on_doorbell_def project_cursor)
qed

end

end
