(* ===== verification/Api.thy ===== *)
theory Api
  imports Projection_Rows
begin

text \<open>
  The HTTP surface (\<^verbatim>\<open>src/src/api.rs\<close>): the error type with its status codes, and the three
  handlers over the shared application state. Extraction and route matching belong to axum; the
  documents are in \<open>Wire\<close>, the replies in \<open>Http\<close>; \<open>hex\<close> and \<open>unhex\<close> stand for the \<open>hex\<close> crate.
\<close>

section \<open>Errors\<close>

text \<open>\<open>Display\<close> of a log error; a position is shown by its derived \<open>Debug\<close>.\<close>

fun log_error_to_string :: "log_error \<Rightarrow> string" where
  "log_error_to_string (Io e) = ''io: '' @ e"
| "log_error_to_string (Encode e) = ''encode: '' @ e"
| "log_error_to_string (Decode p) =
     ''entry at Position('' @ show_u64 (position_index p) @ '') failed to decode''"
| "log_error_to_string EmptyBatch = ''append_batch called with no entries''"

datatype api_error =
    ApiLog log_error
  | NotFound
  | NotReady
  | BadIntentId
  | ApiRejected rejection

fun api_error_from :: "admit_error \<Rightarrow> api_error" where
  "api_error_from (AdmitLog l) = ApiLog l"
| "api_error_from (AdmitRejected r) = ApiRejected r"

text \<open>The body is the rejection as JSON, or the error's text.\<close>

datatype response_body = JsonBody rejection | TextBody string

fun api_status :: "api_error \<Rightarrow> status_code" where
  "api_status (ApiRejected r) = rejection_status r"
| "api_status NotFound = NOT_FOUND"
| "api_status NotReady = SERVICE_UNAVAILABLE"
| "api_status BadIntentId = BAD_REQUEST"
| "api_status (ApiLog _) = INTERNAL_SERVER_ERROR"

fun api_body :: "api_error \<Rightarrow> response_body" where
  "api_body (ApiRejected r) = JsonBody r"
| "api_body (ApiLog e) = TextBody (''log: '' @ log_error_to_string e)"
| "api_body NotFound = TextBody ''unknown intent''"
| "api_body NotReady = TextBody ''projection lagging; retry''"
| "api_body BadIntentId = TextBody ''intent id must be 64 hex chars''"

definition into_response :: "api_error \<Rightarrow> status_code \<times> response_body" where
  "into_response e = (let code = api_status e in (code, api_body e))"

section \<open>Handlers\<close>

record submit_response =
  sub_intent_id :: intent_id
  sub_log_position :: position

record 'l app_state =
  app_log :: 'l
  app_projections :: projections
  app_admission :: admission

definition submit ::
    "'l log_ops \<Rightarrow> keccak \<Rightarrow> intent \<Rightarrow> u64 \<Rightarrow> 'l app_state \<Rightarrow>
       (api_error + submit_response) \<times> 'l app_state" where
  "submit L K intent now_ms app =
    (let (r, adm, l) = admit_and_append L K intent now_ms (app_admission app, app_log app);
         app' = app\<lparr>app_log := l, app_admission := adm\<rparr>
     in case r of
          Err e \<Rightarrow> (Err (api_error_from e), app')
        | Ok (i, pos) \<Rightarrow> (Ok \<lparr>sub_intent_id = i, sub_log_position = pos\<rparr>, app'))"

definition miss :: "'l log_ops \<Rightarrow> projections \<Rightarrow> 'l app_state \<Rightarrow> api_error" where
  "miss L p app = (if pj_cursor p < lg_head L (app_log app) then NotReady else NotFound)"

definition api_status_of ::
    "'l log_ops \<Rightarrow> (string \<Rightarrow> bytes option) \<Rightarrow> string \<Rightarrow> 'l app_state \<Rightarrow> api_error + status_response" where
  "api_status_of L unhex path app =
     try_bind (ok_or BadIntentId (intent_id_parse unhex path))
       (\<lambda>i. let p = app_projections app
            in case status_of p i of
                 Some s \<Rightarrow> Ok s
               | None \<Rightarrow> Err (miss L p app))"

definition api_receipt_of ::
    "'l log_ops \<Rightarrow> (string \<Rightarrow> bytes option) \<Rightarrow> (bytes \<Rightarrow> string) \<Rightarrow> string \<Rightarrow> u64 \<Rightarrow> 'l app_state \<Rightarrow>
       api_error + receipt" where
  "api_receipt_of L unhex hex path now_ms app =
     try_bind (ok_or BadIntentId (intent_id_parse unhex path))
       (\<lambda>i. let p = app_projections app
            in case receipt_of hex p i now_ms of
                 Some r \<Rightarrow> Ok r
               | None \<Rightarrow> Err (miss L p app))"

definition health :: string where "health = ''ok''"

section \<open>What a miss means\<close>

text \<open>The application state while the projector has consumed the first \<open>i\<close> entries.\<close>

definition app_projected :: "('l \<Rightarrow> entry list) \<Rightarrow> guarantee_config \<Rightarrow> nat \<Rightarrow> 'l app_state \<Rightarrow> bool" where
  "app_projected entries g i app \<longleftrightarrow>
     i \<le> length (entries (app_log app)) \<and> length (entries (app_log app)) < 2 ^ 64 \<and>
     app_projections app = project g (take i (entries (app_log app)))"

context intent_log
begin

lemma miss_eq:
  assumes "ok (app_log app)" "app_projected entries g i app"
  shows "miss L (app_projections app) app =
    (if i < length (entries (app_log app)) then NotReady else NotFound)"
proof -
  have "i < 2 ^ 64"
    using assms(2) by (simp add: app_projected_def)
  with assms show ?thesis
    by (simp add: miss_def head_eq app_projected_def project_cursor)
qed

lemma status_outcome:
  assumes "ok (app_log app)" "app_projected entries g i app" "intent_id_parse unhex path = Some x"
  shows "case api_status_of L unhex path app of
      Ok s \<Rightarrow> st_intent_id s = x \<and> x \<in> set (received_ids (take i (entries (app_log app))))
    | Err e \<Rightarrow> x \<notin> set (received_ids (take i (entries (app_log app)))) \<and>
        e = (if i < length (entries (app_log app)) then NotReady else NotFound)"
proof -
  have p: "app_projections app = project g (take i (entries (app_log app)))"
    using assms(2) by (simp add: app_projected_def)
  show ?thesis
    using status_of_None [of g "take i (entries (app_log app))" x] miss_eq [OF assms(1,2)] assms(3)
    by (auto simp: api_status_of_def p Let_def status_of_def split: option.splits)
qed

lemma receipt_outcome:
  assumes "ok (app_log app)" "app_projected entries g i app" "intent_id_parse unhex path = Some x"
  shows "case api_receipt_of L unhex hex path now_ms app of
      Ok r \<Rightarrow> rc_intent_id r = x \<and> x \<in> set (received_ids (take i (entries (app_log app))))
    | Err e \<Rightarrow> x \<notin> set (received_ids (take i (entries (app_log app)))) \<and>
        e = (if i < length (entries (app_log app)) then NotReady else NotFound)"
proof -
  have p: "app_projections app = project g (take i (entries (app_log app)))"
    using assms(2) by (simp add: app_projected_def)
  have id: "receipt_of hex q x now_ms = Some r \<Longrightarrow> rc_intent_id r = x" for q r
    by (auto simp: receipt_of_def Let_def split: bind_splits)
  show ?thesis
    using receipt_of_None [of hex g "take i (entries (app_log app))" x now_ms]
      miss_eq [OF assms(1,2)] assms(3)
    by (auto simp: api_receipt_of_def p Let_def split: option.splits dest: id)
qed

text \<open>A submission that is accepted is the entry at the position returned; one that is not writes nothing.\<close>

lemma submit_outcome:
  assumes "ok (app_log app)" "submit L K intent now_ms app = (r, app')"
  shows "app_projections app' = app_projections app \<and> ok (app_log app') \<and>
    (case r of
       Ok s \<Rightarrow>
         sub_intent_id s = intent_id_of K intent \<and>
         sub_log_position s = position_of (length (entries (app_log app))) \<and>
         entries (app_log app') =
           entries (app_log app) @ [IntentReceived (intent_id_of K intent) intent now_ms]
     | Err e \<Rightarrow>
         entries (app_log app') = entries (app_log app) \<and> app_admission app' = app_admission app)"
proof -
  obtain x adm l where out: "admit_and_append L K intent now_ms (app_admission app, app_log app) = (x, adm, l)"
    by (metis prod_cases3)
  from admit_outcome [OF assms(1) out] assms(2) out show ?thesis
    by (auto simp: submit_def split: sum.splits)
qed

end

end
