(* ===== verification/Projection_Properties.thy ===== *)
theory Projection_Properties
  imports Api
begin

text \<open>
  The properties of the read model and of the HTTP surface over the in-memory log: the projector
  rebuilds the state from the log, slots advance stage by stage, receipts hold only logged
  evidence, an expiry is final, and a miss tells an unknown intent from a lagging projector.
\<close>

section \<open>Receipts\<close>

lemma committed_once:
  "distinct (committed_slots es) \<Longrightarrow> SlotCommitted s is p c t \<in> set es \<Longrightarrow>
     SlotCommitted s is' p' c' t' \<in> set es \<Longrightarrow> is = is' \<and> p = p' \<and> c = c' \<and> t = t'"
proof (induction es)
  case (Cons e es)
  have mem: "s \<in> set (committed_slots es)" if "SlotCommitted s js q d u \<in> set es" for js q d u
    using that by (force simp: committed_slots_def mem_map_filter)
  show ?case
  proof (cases "s \<in> set (committed_slots es)")
    case True
    with Cons.prems(1) have "e \<noteq> SlotCommitted s js q d u" for js q d u
      by auto
    with Cons show ?thesis
      by (cases "slot_of_commit e") auto
  next
    case False
    with mem Cons.prems(2,3) have "e = SlotCommitted s is p c t" "e = SlotCommitted s is' p' c' t'"
      by auto
    then show ?thesis by simp
  qed
qed simp

lemma receipt_of_Some:
  assumes "receipt_of hex (project g es) i now_ms = Some r"
  obtains row where "pj_intents (project g es) i = Some row"
    "rc_intent_id r = i" "lifecycle_of (project g es) row = Some (rc_lifecycle r)"
    "rc_log_position r = ir_position row"
    "rc_sequence r = receipt_sequence row (Option.bind (ir_slot row) (slot_rows es))"
    "rc_preconf r = receipt_preconf hex row (Option.bind (ir_slot row) (slot_rows es))"
    "rc_proof r = receipt_proof hex (Option.bind (ir_slot row) (slot_rows es))"
    "ig_state (rc_guarantee r) = receipt_state (deadline_for g (ir_received_at_ms row)) now_ms row
       (Option.bind (ir_slot row) (slot_rows es))"
proof -
  have slots: "pj_slots (project g es) = slot_rows es"
    by (simp add: fun_eq_iff project_slots)
  from assms show ?thesis
    by (auto simp: receipt_of_def Let_def slots split: bind_splits intro: that)
qed

lemma receipt_sequence_logged:
  assumes "distinct (committed_slots es)" "intent_logged es i row"
    and "receipt_sequence row (Option.bind (ir_slot row) (slot_rows es)) = Some sp"
  shows "\<exists>is p t j. SlotCommitted (sp_slot sp) is p (sp_slot_commitment sp) t \<in> set es \<and>
    j < length is \<and> is ! j = i \<and> sp_index sp = word_of_nat j"
proof -
  from assms(3) obtain s k sr where row: "ir_slot row = Some s" "ir_index_in_slot row = Some k"
    "slot_rows es s = Some sr"
    and sp: "sp = \<lparr>sp_slot = s, sp_index = k, sp_slot_commitment = sr_commitment sr\<rparr>"
    by (auto simp: receipt_sequence_def split: option.splits bind_splits)
  from assms(2) row obtain "is" p c t j where "SlotCommitted s is p c t \<in> set es"
    "j < length is" "is ! j = i" "k = word_of_nat j"
    by (auto simp: intent_logged_def)
  moreover from slot_rows_logged [OF row(3)] obtain is' p'
    where "SlotCommitted s is' p' (sr_commitment sr) (sr_committed_at_ms sr) \<in> set es"
    by (auto simp: row_logged_def)
  ultimately show ?thesis
    using committed_once [OF assms(1)] sp by fastforce
qed

lemma receipt_preconf_logged:
  assumes "receipt_preconf hex row (Option.bind (ir_slot row) (slot_rows es)) = Some pf"
  shows "\<exists>q. SlotAttested (pf_slot pf) q (pf_signature pf) \<in> set es \<and> pf_quote pf = hex q"
  using assms slot_rows_logged
  by (fastforce simp: receipt_preconf_def row_logged_def split: bind_splits)

lemma receipt_proof_logged:
  assumes "receipt_proof hex (Option.bind (ir_slot row) (slot_rows es)) = Some pr"
  shows "\<exists>s h. ir_slot row = Some s \<and> SlotsProven (pf_from_slot pr) (pf_to_slot pr) h \<in> set es \<and>
    pf_from_slot pr \<le> s \<and> s \<le> pf_to_slot pr \<and> pf_proof pr = hex (ph_proof h)"
  using assms slot_rows_logged
  by (fastforce simp: receipt_proof_def row_logged_def split: bind_splits)

lemma final_receipt_complete:
  assumes "pj_intents (project g es) i = Some row"
    and "lifecycle_of (project g es) row = Some FinalProven"
  shows "receipt_sequence row (Option.bind (ir_slot row) (slot_rows es)) \<noteq> None \<and>
    receipt_preconf hex row (Option.bind (ir_slot row) (slot_rows es)) \<noteq> None \<and>
    receipt_proof hex (Option.bind (ir_slot row) (slot_rows es)) \<noteq> None \<and>
    (\<exists>s t. receipt_state d now_ms row (Option.bind (ir_slot row) (slot_rows es)) = Met s t)"
proof -
  from assms(2) obtain s sr where "ir_expired row = None" "ir_slot row = Some s"
    "slot_rows es s = Some sr" "sr_stage sr = StageProven"
    by (cases "ir_expired row")
      (auto simp: lifecycle_of_def project_slots split: option.splits slot_stage.splits)
  moreover from this slot_rows_evidence have "sr_preconf sr \<noteq> None" "sr_proof sr \<noteq> None"
    by (force simp: evidence_ok_def)+
  moreover have "ir_index_in_slot row \<noteq> None"
    using project_intents_logged [OF assms(1)] \<open>ir_slot row = Some s\<close> by (auto simp: intent_logged_def)
  ultimately show ?thesis
    by (auto simp: receipt_sequence_def receipt_preconf_def receipt_proof_def receipt_state_def)
qed

section \<open>Properties\<close>

text \<open>
  C19: The read model is a fold over the log: a turn of the projector takes the state of any prefix
  it has consumed, the empty one after a restart included, to the state of the whole log.
\<close>

theorem projector_rebuilds:
  assumes "i \<le> length (ml_entries l)" "length (ml_entries l) < 2 ^ 64"
  shows "projector_on_doorbell mem_ops l (project g (take i (ml_entries l))) = project g (ml_entries l)"
  using mem.projector_outcome [OF TrueI assms(2,1), of g] by (simp add: mem_read_from_eq)

theorem projector_rebuilds_witness:
  "projector_on_doorbell mem_ops \<lparr>ml_entries = [AttestFailed 0 []], ml_doorbell = []\<rparr>
     (projections_new guarantee_default) = project guarantee_default [AttestFailed 0 []]"
  using projector_rebuilds [of 0 "\<lparr>ml_entries = [AttestFailed 0 []], ml_doorbell = []\<rparr>" guarantee_default]
  by simp

text \<open>
  C20: No stage is skipped. Whatever entry comes next, unless it commits the same slot again, a
  slot's row stays, advances by one stage (committed, preconfirmed, proven) or fails, and keeps
  its commitment and its close time; at every stage it holds exactly the evidence the stage calls
  for, and a preconfirmation is kept after proving.
\<close>

theorem stages_never_skip:
  assumes "pj_slots (project g es) s = Some row" "slot_of_commit e \<noteq> Some s"
  shows "evidence_ok row \<and>
    (\<exists>row'. pj_slots (project g (es @ [e])) s = Some row' \<and> evidence_ok row' \<and>
       (row' = row \<or> stage_step (sr_stage row) (sr_stage row')) \<and>
       sr_commitment row' = sr_commitment row \<and>
       sr_committed_at_ms row' = sr_committed_at_ms row)"
proof -
  from assms(1) have row: "slot_rows es s = Some row"
    by (simp add: project_slots)
  have "slot_step s e (Some row) \<noteq> None"
    by (cases e) simp_all
  then obtain row' where row': "slot_step s e (Some row) = Some row'"
    by blast
  then have new: "slot_rows (es @ [e]) s = Some row'"
    using row by simp
  show ?thesis
    using slot_step_stage [OF row' assms(2)] slot_rows_evidence [OF row] slot_rows_evidence [OF new] new
    by (simp add: project_slots)
qed

theorem stages_never_skip_witness:
  "\<exists>row'. pj_slots (project guarantee_default
      ([SlotCommitted 0 [] position_ZERO (Commitment (array_repeat 0)) 1] @ [AttestFailed 0 ''down''])) 0 =
    Some row'"
  using stages_never_skip [where g = guarantee_default and s = 0 and e = "AttestFailed 0 ''down''"
      and es = "[SlotCommitted 0 [] position_ZERO (Commitment (array_repeat 0)) 1]"]
  by (simp add: project_slots slot_rows_def)

text \<open>
  C18: A receipt holds only what the log says. Its position is where the intent was received; its
  sequence names a committed slot, that slot's commitment and an index at which the committed
  order has this intent; its attestation and its proof are those of log entries about that slot;
  and a final receipt is complete and reports the guarantee met.
\<close>

theorem receipt_is_logged:
  assumes "receipt_of hex (project g es) i now_ms = Some r" "distinct (committed_slots es)"
  shows "rc_intent_id r = i \<and>
    (\<exists>n intent t. n < length es \<and> es ! n = IntentReceived i intent t \<and>
       rc_log_position r = position_of n) \<and>
    (\<forall>sp. rc_sequence r = Some sp \<longrightarrow>
       (\<exists>is p t j. SlotCommitted (sp_slot sp) is p (sp_slot_commitment sp) t \<in> set es \<and>
          j < length is \<and> is ! j = i \<and> sp_index sp = word_of_nat j)) \<and>
    (\<forall>pf. rc_preconf r = Some pf \<longrightarrow>
       (\<exists>q. SlotAttested (pf_slot pf) q (pf_signature pf) \<in> set es \<and> pf_quote pf = hex q)) \<and>
    (\<forall>pr. rc_proof r = Some pr \<longrightarrow>
       (\<exists>h. SlotsProven (pf_from_slot pr) (pf_to_slot pr) h \<in> set es \<and>
          pf_proof pr = hex (ph_proof h))) \<and>
    (rc_lifecycle r = FinalProven \<longrightarrow>
       rc_sequence r \<noteq> None \<and> rc_preconf r \<noteq> None \<and> rc_proof r \<noteq> None \<and>
       (\<exists>s t. ig_state (rc_guarantee r) = Met s t))"
proof -
  obtain row where row: "pj_intents (project g es) i = Some row" "rc_intent_id r = i"
    "lifecycle_of (project g es) row = Some (rc_lifecycle r)" "rc_log_position r = ir_position row"
    "rc_sequence r = receipt_sequence row (Option.bind (ir_slot row) (slot_rows es))"
    "rc_preconf r = receipt_preconf hex row (Option.bind (ir_slot row) (slot_rows es))"
    "rc_proof r = receipt_proof hex (Option.bind (ir_slot row) (slot_rows es))"
    "ig_state (rc_guarantee r) = receipt_state (deadline_for g (ir_received_at_ms row)) now_ms row
       (Option.bind (ir_slot row) (slot_rows es))"
    by (rule receipt_of_Some [OF assms(1)])
  note log = project_intents_logged [OF row(1)]
  show ?thesis
  proof (intro conjI allI impI)
    show "\<exists>n intent t. n < length es \<and> es ! n = IntentReceived i intent t \<and> rc_log_position r = position_of n"
      using log row(4) by (auto simp: intent_logged_def)
    show "\<exists>is p t j. SlotCommitted (sp_slot sp) is p (sp_slot_commitment sp) t \<in> set es \<and>
        j < length is \<and> is ! j = i \<and> sp_index sp = word_of_nat j" if "rc_sequence r = Some sp" for sp
      using receipt_sequence_logged [OF assms(2) log] that row(5) by simp
    show "\<exists>q. SlotAttested (pf_slot pf) q (pf_signature pf) \<in> set es \<and> pf_quote pf = hex q"
      if "rc_preconf r = Some pf" for pf
      using receipt_preconf_logged that row(6) by metis
    show "\<exists>h. SlotsProven (pf_from_slot pr) (pf_to_slot pr) h \<in> set es \<and> pf_proof pr = hex (ph_proof h)"
      if "rc_proof r = Some pr" for pr
      using receipt_proof_logged that row(7) by metis
    assume "rc_lifecycle r = FinalProven"
    with final_receipt_complete [OF row(1)] row(3)
    have "rc_sequence r \<noteq> None \<and> rc_preconf r \<noteq> None \<and> rc_proof r \<noteq> None \<and>
        (\<exists>s t. ig_state (rc_guarantee r) = Met s t)"
      unfolding row(5-8) by metis
    then show "rc_sequence r \<noteq> None" "rc_preconf r \<noteq> None" "rc_proof r \<noteq> None"
      "\<exists>s t. ig_state (rc_guarantee r) = Met s t"
      by blast+
  qed (rule row(2))
qed

definition receipt_sample_log :: "entry list" where
  "receipt_sample_log =
     [IntentReceived (IntentId (array_repeat 1)) (dummy 1) 5,
      SlotCommitted 0 [IntentId (array_repeat 1)] (Position 1) (Commitment (array_repeat 0)) 7]"

theorem receipt_is_logged_witness:
  "\<exists>r. receipt_of (\<lambda>_. []) (project guarantee_default receipt_sample_log) (IntentId (array_repeat 1)) 9 = Some r \<and>
    rc_intent_id r = IntentId (array_repeat 1)"
proof -
  have "IntentId (array_repeat 1) \<in> set (received_ids receipt_sample_log)"
    by (simp add: receipt_sample_log_def received_ids_def)
  then obtain r where r: "receipt_of (\<lambda>_. []) (project guarantee_default receipt_sample_log)
      (IntentId (array_repeat 1)) 9 = Some r"
    using receipt_of_None [of "\<lambda>_. []" guarantee_default receipt_sample_log] by blast
  have "distinct (committed_slots receipt_sample_log)"
    by (simp add: receipt_sample_log_def)
  from receipt_is_logged [OF r this] r show ?thesis by blast
qed

text \<open>
  An expiry is final. Once an intent's status is \<open>expired\<close> it stays so, whatever the log
  holds afterwards.
\<close>

theorem expiry_is_final:
  assumes "status_of (project g es) i = Some s" "st_lifecycle s = lifecycle.Expired"
  shows "\<exists>s'. status_of (project g (es @ fs)) i = Some s' \<and> st_lifecycle s' = lifecycle.Expired"
proof -
  from assms obtain row where row: "pj_intents (project g es) i = Some row"
    "lifecycle_of (project g es) row = Some lifecycle.Expired"
    by (auto simp: status_of_def split: option.splits)
  then have "ir_expired row \<noteq> None"
    by (auto simp: lifecycle_of_def split: if_splits option.splits slot_stage.splits)
  with expired_stays [OF row(1)] obtain row'
    where "pj_intents (project g (es @ fs)) i = Some row'" "ir_expired row' \<noteq> None"
    by blast
  then show ?thesis
    by (simp add: status_of_def lifecycle_of_def)
qed

theorem expiry_is_final_witness:
  "\<exists>s'. status_of (project guarantee_default
      ([IntentReceived (IntentId (array_repeat 1)) (dummy 1) 5, IntentExpired (IntentId (array_repeat 1)) 5 6] @
       [SlotCommitted 0 [IntentId (array_repeat 1)] (Position 2) (Commitment (array_repeat 0)) 7]))
      (IntentId (array_repeat 1)) = Some s' \<and> st_lifecycle s' = lifecycle.Expired"
proof (rule expiry_is_final)
  let ?es = "[IntentReceived (IntentId (array_repeat 1)) (dummy 1) 5, IntentExpired (IntentId (array_repeat 1)) 5 6]"
  show "status_of (project guarantee_default ?es) (IntentId (array_repeat 1)) =
      Some \<lparr>st_intent_id = IntentId (array_repeat 1), st_lifecycle = lifecycle.Expired, st_slot = None\<rparr>"
    by (simp add: project_def projection_apply_def projections_new_def modify_def status_of_def
        lifecycle_of_def Let_def)
qed simp

text \<open>
  C29: A submission that is answered with success is in the log at the position it was told, under
  its content-derived id; one that is refused, by the gate or by the log, leaves log, gate and
  read model as they were, and the refusal carries its own HTTP status.
\<close>

theorem submit_is_atomic:
  "case submit mem_ops K intent now_ms app of
     (Ok s, app') \<Rightarrow>
       sub_intent_id s = intent_id_of K intent \<and>
       sub_log_position s = position_of (length (ml_entries (app_log app))) \<and>
       ml_entries (app_log app') =
         ml_entries (app_log app) @ [IntentReceived (intent_id_of K intent) intent now_ms] \<and>
       app_projections app' = app_projections app
   | (Err e, app') \<Rightarrow>
       ml_entries (app_log app') = ml_entries (app_log app) \<and>
       app_admission app' = app_admission app \<and> app_projections app' = app_projections app \<and>
       fst (into_response e) =
         (case e of ApiLog _ \<Rightarrow> INTERNAL_SERVER_ERROR | NotFound \<Rightarrow> NOT_FOUND
          | NotReady \<Rightarrow> SERVICE_UNAVAILABLE | BadIntentId \<Rightarrow> BAD_REQUEST
          | ApiRejected (Replay _) \<Rightarrow> CONFLICT | ApiRejected (StaleNonce _ _) \<Rightarrow> CONFLICT
          | ApiRejected _ \<Rightarrow> BAD_REQUEST)"
proof -
  obtain r app' where out: "submit mem_ops K intent now_ms app = (r, app')"
    by fastforce
  have "fst (into_response e) =
         (case e of ApiLog _ \<Rightarrow> INTERNAL_SERVER_ERROR | NotFound \<Rightarrow> NOT_FOUND
          | NotReady \<Rightarrow> SERVICE_UNAVAILABLE | BadIntentId \<Rightarrow> BAD_REQUEST
          | ApiRejected (Replay _) \<Rightarrow> CONFLICT | ApiRejected (StaleNonce _ _) \<Rightarrow> CONFLICT
          | ApiRejected _ \<Rightarrow> BAD_REQUEST)" for e
    by (cases e) (auto simp: into_response_def Let_def split: rejection.split)
  with mem.submit_outcome [OF TrueI out] show ?thesis
    by (cases r) (simp_all add: out)
qed

end
