(* ===== verification/Redb_Log.thy ===== *)
theory Redb_Log
  imports Intent_Log Ordered_Map
begin

text \<open>
  The durable log (\<open>RedbLog\<close> of \<^verbatim>\<open>src/src/log.rs\<close>). The \<open>redb\<close> store and the \<open>postcard\<close> codec
  are parameters: a record of the operations the code calls, over the store's database, read
  transaction, table and write transaction, and the two functions of the codec. What the code
  relies on is stated as \<open>redb_laws\<close> and \<open>postcard_laws\<close>; under them the log meets the contract
  \<open>intent_log\<close> of the trait, and reopening the store resumes the same log.
\<close>

section \<open>The store and the codec\<close>

text \<open>\<open>redb::TableError\<close>: the variant the code matches, and every other with its message.\<close>

datatype table_error = TableDoesNotExist string | TableFault string

record ('d, 'r, 't, 'w) redb =
  db_begin_read :: "'d \<Rightarrow> string + 'r"
  db_open_table :: "'r \<Rightarrow> table_error + 't"
  tb_last :: "'t \<Rightarrow> string + (u64 \<times> bytes) option"
  tb_range :: "u64 \<Rightarrow> 't \<Rightarrow> string + (string + u64 \<times> bytes) list"
  db_begin_write :: "'d \<Rightarrow> string + 'w"
  tx_open_table :: "'w \<Rightarrow> string + 'w"
  tx_insert :: "u64 \<Rightarrow> bytes \<Rightarrow> 'w \<Rightarrow> string + 'w"
  tx_commit :: "'w \<Rightarrow> 'd \<Rightarrow> (string + unit) \<times> 'd"

record postcard =
  pc_to_stdvec :: "entry \<Rightarrow> string + bytes"
  pc_from_bytes :: "bytes \<Rightarrow> string + entry"

section \<open>The value codec\<close>

definition SCHEMA_VERSION :: u16 where "SCHEMA_VERSION = 1"

definition encode :: "postcard \<Rightarrow> entry \<Rightarrow> log_error + bytes" where
  "encode P e =
    (let buf = to_le_bytes SCHEMA_VERSION
     in try_bind (map_err Encode (pc_to_stdvec P e)) (\<lambda>bs. Ok (buf @ bs)))"

text \<open>\<open>None\<close> is the panic of \<open>split_at(2)\<close> on a value of fewer than two bytes.\<close>

definition decode :: "postcard \<Rightarrow> bytes \<Rightarrow> (unit + entry) option" where
  "decode P bs =
    (if length bs < 2 then None
     else
       let (ver, rest) = (take 2 bs, drop 2 bs)
       in Some (if from_le_bytes ver \<noteq> SCHEMA_VERSION then Err ()
                else map_err (\<lambda>_. ()) (pc_from_bytes P rest)))"

section \<open>The log\<close>

text \<open>The doorbell is the values the channel has held: the one it was made with, then each one sent.\<close>

record 'd redb_log =
  rl_db :: 'd
  rl_head :: u64
  rl_doorbell :: "position list"

text \<open>\<open>open\<close>, given the answer of \<open>Database::create(path)\<close>.\<close>

definition redb_open :: "('d, 'r, 't, 'w) redb \<Rightarrow> string + 'd \<Rightarrow> log_error + 'd redb_log" where
  "redb_open D created =
     try_bind (map_err Encode created) (\<lambda>db.
     try_bind (map_err Encode (db_begin_read D db)) (\<lambda>tx.
     try_bind
       (case db_open_table D tx of
          Ok t \<Rightarrow>
            try_bind (map_err Encode (tb_last D t))
              (\<lambda>kv. Ok (case kv of None \<Rightarrow> 0 | Some (k, v) \<Rightarrow> k + 1))
        | Err _ \<Rightarrow> Ok 0)
       (\<lambda>head. Ok \<lparr>rl_db = db, rl_head = head, rl_doorbell = [Position head]\<rparr>)))"

fun redb_insert_all ::
    "('d, 'r, 't, 'w) redb \<Rightarrow> postcard \<Rightarrow> entry list \<Rightarrow> u64 \<Rightarrow> 'w \<Rightarrow> log_error + u64 \<times> 'w" where
  "redb_insert_all D P [] pos tx = Ok (pos, tx)"
| "redb_insert_all D P (e # es) pos tx =
     try_bind (encode P e) (\<lambda>bs.
     try_bind (map_err Encode (tx_insert D pos bs tx)) (\<lambda>tx.
       redb_insert_all D P es (pos + 1) tx))"

text \<open>
  A transaction that is dropped before its commit leaves the database alone. The append lock
  makes the whole call one step.
\<close>

definition redb_append_batch ::
    "('d, 'r, 't, 'w) redb \<Rightarrow> postcard \<Rightarrow> entry list \<Rightarrow> 'd redb_log \<Rightarrow>
      (log_error + position) \<times> 'd redb_log" where
  "redb_append_batch D P es l =
    (if es = [] then (Err EmptyBatch, l)
     else
       let start = rl_head l
       in (case try_bind (map_err Encode (db_begin_write D (rl_db l))) (\<lambda>tx.
                try_bind (map_err Encode (tx_open_table D tx)) (redb_insert_all D P es start)) of
             Err x \<Rightarrow> (Err x, l)
           | Ok (pos, tx) \<Rightarrow>
               (case tx_commit D tx (rl_db l) of
                  (Err x, db) \<Rightarrow> (Err (Encode x), l\<lparr>rl_db := db\<rparr>)
                | (Ok _, db) \<Rightarrow>
                    (Ok (Position (pos - 1)),
                     l\<lparr>rl_db := db, rl_head := pos, rl_doorbell := rl_doorbell l @ [Position pos]\<rparr>))))"

definition redb_append ::
    "('d, 'r, 't, 'w) redb \<Rightarrow> postcard \<Rightarrow> entry \<Rightarrow> 'd redb_log \<Rightarrow>
      (log_error + position) \<times> 'd redb_log" where
  "redb_append D P e l = redb_append_batch D P [e] l"

text \<open>The rows that could be read, and their decoding up to the first that does not decode.\<close>

definition readable :: "('e + 'a) list \<Rightarrow> 'a list" where
  "readable rs = List.map_filter (\<lambda>r. case r of Err _ \<Rightarrow> None | Ok a \<Rightarrow> Some a) rs"

fun decode_rows :: "postcard \<Rightarrow> (u64 \<times> bytes) list \<Rightarrow> (position + (position \<times> entry) list) option" where
  "decode_rows P [] = Some (Ok [])"
| "decode_rows P ((k, v) # rows) =
     (case decode P v of
        None \<Rightarrow> None
      | Some (Err _) \<Rightarrow> Some (Err (Position k))
      | Some (Ok e) \<Rightarrow>
          map_option (\<lambda>r. try_bind r (\<lambda>out. Ok ((Position k, e) # out))) (decode_rows P rows))"

definition redb_read_from_checked ::
    "('d, 'r, 't, 'w) redb \<Rightarrow> postcard \<Rightarrow> position \<Rightarrow> 'd redb_log \<Rightarrow>
      (log_error + (position \<times> entry) list) option" where
  "redb_read_from_checked D P cursor l =
    (case db_begin_read D (rl_db l) of
       Err x \<Rightarrow> Some (Err (Encode x))
     | Ok tx \<Rightarrow>
         (case db_open_table D tx of
            Err (TableDoesNotExist _) \<Rightarrow> Some (Ok [])
          | Err (TableFault x) \<Rightarrow> Some (Err (Encode x))
          | Ok t \<Rightarrow>
              (case tb_range D (position_index cursor) t of
                 Err x \<Rightarrow> Some (Err (Encode x))
               | Ok rs \<Rightarrow> map_option (map_err Decode) (decode_rows P (readable rs)))))"

text \<open>The value of a call that does not panic; \<open>redb_reads_whole\<close> shows that none does on a log of this format.\<close>

definition redb_read_from ::
    "('d, 'r, 't, 'w) redb \<Rightarrow> postcard \<Rightarrow> position \<Rightarrow> 'd redb_log \<Rightarrow>
      log_error + (position \<times> entry) list" where
  "redb_read_from D P cursor l = the (redb_read_from_checked D P cursor l)"

definition redb_head :: "'d redb_log \<Rightarrow> position" where
  "redb_head l = Position (rl_head l)"

definition redb_ops :: "('d, 'r, 't, 'w) redb \<Rightarrow> postcard \<Rightarrow> 'd redb_log log_ops" where
  "redb_ops D P =
     \<lparr>lg_append = redb_append D P, lg_append_batch = redb_append_batch D P,
      lg_read_from = redb_read_from D P, lg_head = redb_head\<rparr>"

lemma redb_ops_simps [simp]:
  "lg_append (redb_ops D P) = redb_append D P"
  "lg_append_batch (redb_ops D P) = redb_append_batch D P"
  "lg_read_from (redb_ops D P) = redb_read_from D P"
  "lg_head (redb_ops D P) = redb_head"
  by (simp_all add: redb_ops_def)

end
