(* ===== verification/Redb_Contract.thy ===== *)
theory Redb_Contract
  imports Redb_Log
begin

text \<open>
  The durable log meets the trait's contract. The laws of the store and of the codec are
  predicates on the parameters of \<open>Redb_Log\<close>; \<open>store_log\<close> is a store that obeys them.
\<close>

section \<open>What the code relies on\<close>

type_synonym rows = "(u64 \<times> bytes) list"

text \<open>The contents of the \<open>entries\<close> table as each handle sees it; \<open>None\<close> before it exists.\<close>

record ('d, 'r, 't, 'w) views =
  vw_db :: "'d \<Rightarrow> rows option"
  vw_read :: "'r \<Rightarrow> rows option"
  vw_table :: "'t \<Rightarrow> rows"
  vw_write :: "'w \<Rightarrow> rows option"

text \<open>
  A read transaction is a snapshot; opening a table for reading fails with \<open>TableDoesNotExist\<close>
  only when there is none; \<open>range\<close> yields every row from the bound on, in key order, or an error;
  opening a table for writing creates it; \<open>insert\<close> replaces the row of its key, and refuses a
  table too large for the storage; \<open>commit\<close> publishes the transaction or changes nothing.
\<close>

definition redb_laws :: "('d, 'r, 't, 'w) redb \<Rightarrow> ('d, 'r, 't, 'w) views \<Rightarrow> bool" where
  "redb_laws D V \<longleftrightarrow>
     (\<forall>d r. db_begin_read D d = Ok r \<longrightarrow> vw_read V r = vw_db V d) \<and>
     (\<forall>r t. db_open_table D r = Ok t \<longrightarrow> vw_read V r = Some (vw_table V t)) \<and>
     (\<forall>r x. db_open_table D r = Err (TableDoesNotExist x) \<longrightarrow> vw_read V r = None) \<and>
     (\<forall>t kv. tb_last D t = Ok kv \<longrightarrow>
        kv = (if vw_table V t = [] then None else Some (last (vw_table V t)))) \<and>
     (\<forall>c t rs. tb_range D c t = Ok rs \<longrightarrow> rs = map Ok (filter (\<lambda>(k, v). c \<le> k) (vw_table V t))) \<and>
     (\<forall>d w. db_begin_write D d = Ok w \<longrightarrow> vw_write V w = vw_db V d) \<and>
     (\<forall>w w'. tx_open_table D w = Ok w' \<longrightarrow>
        vw_write V w' = Some (case vw_write V w of None \<Rightarrow> [] | Some rows \<Rightarrow> rows)) \<and>
     (\<forall>k v w w' rows. tx_insert D k v w = Ok w' \<longrightarrow> vw_write V w = Some rows \<longrightarrow>
        vw_write V w' = Some (bt_insert k v rows) \<and> length (bt_insert k v rows) < 2 ^ 64) \<and>
     (\<forall>w d d'. tx_commit D w d = (Ok (), d') \<longrightarrow> vw_db V d' = vw_write V w) \<and>
     (\<forall>w d d' x. tx_commit D w d = (Err x, d') \<longrightarrow> vw_db V d' = vw_db V d)"

definition postcard_laws :: "postcard \<Rightarrow> bool" where
  "postcard_laws P \<longleftrightarrow> (\<forall>e bs. pc_to_stdvec P e = Ok bs \<longrightarrow> pc_from_bytes P bs = Ok e)"

lemma redb_lawsD:
  assumes "redb_laws D V"
  shows redb_begin_read: "db_begin_read D d = Ok r \<Longrightarrow> vw_read V r = vw_db V d"
    and redb_open_Ok: "db_open_table D r = Ok t \<Longrightarrow> vw_read V r = Some (vw_table V t)"
    and redb_open_missing: "db_open_table D r = Err (TableDoesNotExist x) \<Longrightarrow> vw_read V r = None"
    and redb_last: "tb_last D t = Ok kv \<Longrightarrow>
      kv = (if vw_table V t = [] then None else Some (last (vw_table V t)))"
    and redb_range: "tb_range D c t = Ok rs \<Longrightarrow>
      rs = map Ok (filter (\<lambda>(k, v). c \<le> k) (vw_table V t))"
    and redb_begin_write: "db_begin_write D d = Ok w \<Longrightarrow> vw_write V w = vw_db V d"
    and redb_open_write: "tx_open_table D w = Ok w' \<Longrightarrow>
      vw_write V w' = Some (case vw_write V w of None \<Rightarrow> [] | Some rows \<Rightarrow> rows)"
    and redb_insert: "tx_insert D k v w = Ok w' \<Longrightarrow> vw_write V w = Some rows \<Longrightarrow>
      vw_write V w' = Some (bt_insert k v rows) \<and> length (bt_insert k v rows) < 2 ^ 64"
    and redb_commit: "tx_commit D w d = (Ok (), d') \<Longrightarrow> vw_db V d' = vw_write V w"
  using assms by (auto simp: redb_laws_def)

lemma redb_commit_Err:
  assumes "redb_laws D V" "tx_commit D w d = (Err y, d')"
  shows "vw_db V d' = vw_db V d"
proof -
  have "\<forall>w d d' x. tx_commit D w d = (Err x, d') \<longrightarrow> vw_db V d' = vw_db V d"
    using assms(1) unfolding redb_laws_def by (elim conjE)
  with assms(2) show ?thesis by blast
qed

section \<open>The rows of a log\<close>

definition encoding :: "postcard \<Rightarrow> entry \<Rightarrow> bytes" where
  "encoding P e = (case encode P e of Err _ \<Rightarrow> [] | Ok bs \<Rightarrow> bs)"

definition row_of :: "postcard \<Rightarrow> position \<times> entry \<Rightarrow> u64 \<times> bytes" where
  "row_of P pe = (position_index (fst pe), encoding P (snd pe))"

definition stored :: "postcard \<Rightarrow> entry list \<Rightarrow> rows option \<Rightarrow> bool" where
  "stored P es t \<longleftrightarrow>
     (case t of None \<Rightarrow> [] | Some rows \<Rightarrow> rows) = map (row_of P) (positioned es) \<and>
     (\<forall>e \<in> set es. encode P e = Ok (encoding P e)) \<and> length es < 2 ^ 64"

definition redb_entries :: "postcard \<Rightarrow> ('d, 'r, 't, 'w) views \<Rightarrow> 'd redb_log \<Rightarrow> entry list" where
  "redb_entries P V l =
     List.map_filter (\<lambda>(k, v). case decode P v of Some (Ok e) \<Rightarrow> Some e | _ \<Rightarrow> None)
       (case vw_db V (rl_db l) of None \<Rightarrow> [] | Some rows \<Rightarrow> rows)"

definition redb_ok :: "postcard \<Rightarrow> ('d, 'r, 't, 'w) views \<Rightarrow> 'd redb_log \<Rightarrow> bool" where
  "redb_ok P V l \<longleftrightarrow>
     stored P (redb_entries P V l) (vw_db V (rl_db l)) \<and>
     rl_head l = word_of_nat (length (redb_entries P V l))"

text \<open>The value codec is a round trip, and what it writes is long enough to be read.\<close>

lemma decode_encode:
  assumes "postcard_laws P" "encode P e = Ok bs"
  shows "decode P bs = Some (Ok e)"
proof -
  from assms(2) obtain cs where cs: "pc_to_stdvec P e = Ok cs" "bs = to_le_bytes SCHEMA_VERSION @ cs"
    by (auto simp: encode_def Let_def try_bind_Ok_iff)
  have "length (to_le_bytes SCHEMA_VERSION) = 2"
    by simp
  with cs assms(1) show ?thesis
    by (simp add: decode_def Let_def postcard_laws_def from_le_bytes_to_le_bytes)
qed

lemma decode_encoding:
  "postcard_laws P \<Longrightarrow> encode P e = Ok (encoding P e) \<Longrightarrow> decode P (encoding P e) = Some (Ok e)"
  by (rule decode_encode)

lemma stored_None: "stored P es None \<Longrightarrow> es = []"
  by (cases es) (simp_all add: stored_def)

lemma redb_entries_eq:
  assumes "postcard_laws P" "stored P es (vw_db V (rl_db l))"
  shows "redb_entries P V l = es"
proof -
  have "List.map_filter (\<lambda>(k, v). case decode P v of Some (Ok e) \<Rightarrow> Some e | _ \<Rightarrow> None)
      (map (row_of P) (positioned_from n es)) = es" if "\<forall>e \<in> set es. encode P e = Ok (encoding P e)" for n
    using that
    by (induction n es rule: positioned_from.induct)
      (simp_all add: List.map_filter_simps row_of_def decode_encoding [OF assms(1)])
  then show ?thesis
    using assms(2) by (simp add: redb_entries_def stored_def)
qed

lemma redb_ok_iff:
  assumes "postcard_laws P"
  shows "redb_ok P V l \<longleftrightarrow>
    (\<exists>es. stored P es (vw_db V (rl_db l)) \<and> rl_head l = word_of_nat (length es))"
  using redb_entries_eq [OF assms] by (metis redb_ok_def)

lemma readable_Ok [simp]: "readable (map Ok xs) = xs"
  by (induction xs) (simp_all add: readable_def List.map_filter_simps)

lemma rows_from:
  assumes "n + length es \<le> 2 ^ 64"
  shows "filter (\<lambda>(k, v). c \<le> k) (map (row_of P) (positioned_from n es)) =
    map (row_of P) (drop (unat c - n) (positioned_from n es))"
  using assms
proof (induction n es rule: positioned_from.induct)
  case (2 n x xs)
  then have "c \<le> word_of_nat n \<longleftrightarrow> unat c \<le> n"
    by (simp add: word_le_nat_alt unat_of_nat64)
  with 2 show ?case
  proof (cases "unat c \<le> n")
    case False
    then have "unat c - n = Suc (unat c - Suc n)" by simp
    with 2 False \<open>c \<le> word_of_nat n \<longleftrightarrow> unat c \<le> n\<close> show ?thesis
      by (simp add: row_of_def position_of_def)
  qed (simp add: row_of_def position_of_def)
qed simp

lemma decode_rows_of:
  assumes "postcard_laws P" "\<forall>e \<in> snd ` set pes. encode P e = Ok (encoding P e)"
  shows "decode_rows P (map (row_of P) pes) = Some (Ok pes)"
  using assms(2)
  by (induction pes) (auto simp: row_of_def decode_encoding [OF assms(1)])

section \<open>The operations keep the rows of a log\<close>

lemma bt_insert_last: "\<forall>k' \<in> fst ` set m. k' < k \<Longrightarrow> bt_insert k v m = m @ [(k, v)]"
  by (induction k v m rule: bt_insert.induct) (auto dest: less_asym)

lemma stored_snoc:
  assumes "stored P es (Some rows)" "encode P e = Ok bs"
    and "length (bt_insert (word_of_nat (length es)) bs rows) < 2 ^ 64"
  shows "stored P (es @ [e]) (Some (bt_insert (word_of_nat (length es)) bs rows))"
proof -
  from assms(1) have rows: "rows = map (row_of P) (positioned es)"
    and small: "length es < 2 ^ 64" by (simp_all add: stored_def)
  have "\<forall>k \<in> fst ` set rows. k < word_of_nat (length es)"
    using small by (auto simp: rows row_of_def set_positioned_from position_of_def word_of_nat_less_iff64)
  then have "bt_insert (word_of_nat (length es)) bs rows = rows @ [(word_of_nat (length es), bs)]"
    by (rule bt_insert_last)
  with assms rows show ?thesis
    by (auto simp: stored_def positioned_from_append row_of_def position_of_def encoding_def)
qed

lemma insert_all_stored:
  assumes "redb_laws D V"
  shows "redb_insert_all D P es pos tx = Ok (pos', tx') \<Longrightarrow> pos = word_of_nat (length es0) \<Longrightarrow>
    stored P es0 (vw_write V tx) \<Longrightarrow> vw_write V tx \<noteq> None \<Longrightarrow>
    stored P (es0 @ es) (vw_write V tx') \<and> pos' = word_of_nat (length (es0 @ es))"
proof (induction es arbitrary: es0 pos tx)
  case (Cons e es)
  from Cons.prems(1) obtain bs tx1 where bs: "encode P e = Ok bs" "tx_insert D pos bs tx = Ok tx1"
    "redb_insert_all D P es (pos + 1) tx1 = Ok (pos', tx')"
    by (auto simp: try_bind_Ok_iff)
  from Cons.prems(4) obtain rows where rows: "vw_write V tx = Some rows" by auto
  from redb_insert [OF assms bs(2) rows] have tx1: "vw_write V tx1 = Some (bt_insert pos bs rows)"
    "length (bt_insert pos bs rows) < 2 ^ 64" by simp_all
  with Cons.prems(2,3) bs(1) rows have "stored P (es0 @ [e]) (vw_write V tx1)"
    using stored_snoc [of P es0 rows e bs] by simp
  moreover from Cons.prems(2) have "pos + 1 = word_of_nat (length (es0 @ [e]))"
    by (simp add: add.commute)
  ultimately show ?case
    using Cons.IH [OF bs(3), of "es0 @ [e]"] tx1(1) by simp
qed simp

lemma redb_append_batch_contract:
  assumes "redb_laws D V" "postcard_laws P" "redb_ok P V l"
  shows "redb_append_batch D P es l = (Ok p, l') \<Longrightarrow>
      redb_ok P V l' \<and> redb_entries P V l' = redb_entries P V l @ es \<and>
      p = position_of (length (redb_entries P V l) + length es - 1)"
    and "redb_append_batch D P es l = (Err x, l') \<Longrightarrow>
      redb_ok P V l' \<and> redb_entries P V l' = redb_entries P V l"
proof -
  let ?es0 = "redb_entries P V l"
  from assms(3) have st: "stored P ?es0 (vw_db V (rl_db l))" and hd: "rl_head l = word_of_nat (length ?es0)"
    by (simp_all add: redb_ok_def)
  {
    assume "redb_append_batch D P es l = (Ok p, l')"
    then obtain tx tx1 pos' tx' db where es: "es \<noteq> []"
      and w: "db_begin_write D (rl_db l) = Ok tx" "tx_open_table D tx = Ok tx1"
        "redb_insert_all D P es (rl_head l) tx1 = Ok (pos', tx')" "tx_commit D tx' (rl_db l) = (Ok (), db)"
      and l': "l' = l\<lparr>rl_db := db, rl_head := pos', rl_doorbell := rl_doorbell l @ [Position pos']\<rparr>"
        "p = Position (pos' - 1)"
      by (auto simp: redb_append_batch_def Let_def try_bind_Ok_iff split: if_splits sum.splits prod.splits)
    from redb_begin_write [OF assms(1) w(1)] redb_open_write [OF assms(1) w(2)] st
    have "stored P ?es0 (vw_write V tx1)" "vw_write V tx1 \<noteq> None"
      by (simp_all add: stored_def split: option.splits)
    from insert_all_stored [OF assms(1) w(3) hd this]
    have new: "stored P (?es0 @ es) (vw_db V db)" "pos' = word_of_nat (length (?es0 @ es))"
      by (simp_all add: redb_commit [OF assms(1) w(4)])
    then have "redb_entries P V l' = ?es0 @ es"
      using redb_entries_eq [OF assms(2), of "?es0 @ es" V l'] l'(1) by simp
    moreover have "p = position_of (length ?es0 + length es - 1)"
      using new(2) l'(2) es by (cases es) (simp_all add: position_of_def)
    ultimately show "redb_ok P V l' \<and> redb_entries P V l' = redb_entries P V l @ es \<and>
        p = position_of (length (redb_entries P V l) + length es - 1)"
      using new l'(1) by (simp add: redb_ok_def)
  }
  {
    assume "redb_append_batch D P es l = (Err x, l')"
    then have "l' = l \<or> (\<exists>tx db y. tx_commit D tx (rl_db l) = (Err y, db) \<and> l' = l\<lparr>rl_db := db\<rparr>)"
      by (auto simp: redb_append_batch_def Let_def split: if_splits sum.splits prod.splits)
    then have db: "vw_db V (rl_db l') = vw_db V (rl_db l)" and "rl_head l' = rl_head l"
      using redb_commit_Err [OF assms(1)] by auto
    moreover from db have "redb_entries P V l' = ?es0"
      by (simp add: redb_entries_def)
    ultimately show "redb_ok P V l' \<and> redb_entries P V l' = redb_entries P V l"
      using st hd by (simp add: redb_ok_def)
  }
qed

text \<open>Reading panics nowhere and yields the entries from the cursor on.\<close>

lemma redb_read_rows:
  assumes "redb_laws D V" "postcard_laws P" "redb_ok P V l"
    and "db_begin_read D (rl_db l) = Ok r" "db_open_table D r = Ok t" "tb_range D (position_index c) t = Ok rs"
  shows "redb_read_from_checked D P c l = Some (Ok (drop (offset c) (positioned (redb_entries P V l))))"
proof -
  let ?es = "redb_entries P V l"
  have "vw_db V (rl_db l) = Some (vw_table V t)"
    using redb_begin_read [OF assms(1,4)] redb_open_Ok [OF assms(1,5)] by simp
  with assms(3) have "vw_table V t = map (row_of P) (positioned ?es)" and small: "length ?es < 2 ^ 64"
    and enc: "\<forall>e \<in> set ?es. encode P e = Ok (encoding P e)"
    by (simp_all add: redb_ok_def stored_def)
  with redb_range [OF assms(1,6)]
  have "readable rs = map (row_of P) (drop (offset c) (positioned ?es))"
    using rows_from [of 0 ?es "position_index c" P] by (simp add: offset_def del: map_map)
  moreover have "\<forall>e \<in> snd ` set (drop (offset c) (positioned ?es)). encode P e = Ok (encoding P e)"
  proof -
    have "snd ` set (drop (offset c) (positioned ?es)) \<subseteq> snd ` set (positioned ?es)"
      by (intro image_mono set_drop_subset)
    also have "\<dots> = set ?es"
      by (simp flip: set_map)
    finally show ?thesis using enc by blast
  qed
  ultimately show ?thesis
    by (simp add: redb_read_from_checked_def assms(4-6) decode_rows_of [OF assms(2)])
qed

lemma redb_reads_whole:
  assumes "redb_laws D V" "postcard_laws P" "redb_ok P V l"
  shows "\<exists>r. redb_read_from_checked D P c l = Some r \<and>
    (\<forall>pes. r = Ok pes \<longrightarrow> pes = drop (offset c) (positioned (redb_entries P V l)))"
proof -
  let ?es = "redb_entries P V l"
  from assms(3) have st: "stored P ?es (vw_db V (rl_db l))" by (simp add: redb_ok_def)
  show ?thesis
  proof (cases "\<exists>r t rs. db_begin_read D (rl_db l) = Ok r \<and> db_open_table D r = Ok t \<and>
      tb_range D (position_index c) t = Ok rs")
    case True
    with redb_read_rows [OF assms] show ?thesis by fastforce
  next
    case False
    have none: "?es = []" if "db_begin_read D (rl_db l) = Ok r" "db_open_table D r = Err (TableDoesNotExist x)" for r x
      using redb_begin_read [OF assms(1) that(1)] redb_open_missing [OF assms(1) that(2)] st
      by (simp add: stored_None)
    with False show ?thesis
      by (auto simp: redb_read_from_checked_def split: sum.splits table_error.splits)
  qed
qed

lemma redb_intent_log:
  assumes "redb_laws D V" "postcard_laws P"
  shows "intent_log (redb_ops D P) (redb_entries P V) (redb_ok P V)"
proof (unfold_locales, goal_cases)
  case (1 l e p l')
  then show ?case
    using redb_append_batch_contract(1) [OF assms, of l "[e]"] by (simp add: redb_append_def)
next
  case (2 l e x l')
  then show ?case
    using redb_append_batch_contract(2) [OF assms, of l "[e]"] by (simp add: redb_append_def)
next
  case (3 l es p l')
  then show ?case
    using redb_append_batch_contract(1) [OF assms] by simp
next
  case (4 l es x l')
  then show ?case
    using redb_append_batch_contract(2) [OF assms] by simp
next
  case (5 l)
  show ?case by (simp add: redb_append_batch_def)
next
  case (6 l c pes)
  then show ?case
    using redb_reads_whole [OF assms, of l c] by (auto simp: redb_read_from_def)
next
  case (7 l)
  then show ?case by (simp add: redb_head_def redb_ok_def position_of_def)
qed

section \<open>Reopening\<close>

lemma redb_open_same:
  assumes "redb_laws D V" "postcard_laws P" "redb_ok P V old"
    and "\<forall>r x. db_open_table D r \<noteq> Err (TableFault x)"
    and "redb_open D (Ok (rl_db old)) = Ok l"
  shows "redb_ok P V l \<and> redb_entries P V l = redb_entries P V old \<and> redb_head l = redb_head old"
proof -
  let ?es = "redb_entries P V old"
  from assms(3) have st: "stored P ?es (vw_db V (rl_db old))"
    and hd: "rl_head old = word_of_nat (length ?es)" by (simp_all add: redb_ok_def)
  from assms(5) obtain tx where tx: "db_begin_read D (rl_db old) = Ok tx" and db: "rl_db l = rl_db old"
    by (auto simp: redb_open_def try_bind_Ok_iff)
  have "rl_head l = word_of_nat (length ?es)"
  proof (cases "db_open_table D tx")
    case (Inl x)
    with assms(4) obtain y where "x = TableDoesNotExist y" by (cases x) auto
    with Inl have "?es = []"
      using redb_begin_read [OF assms(1) tx] redb_open_missing [OF assms(1), of tx y] st
      by (simp add: stored_None)
    moreover from assms(5) Inl tx have "rl_head l = 0"
      by (auto simp: redb_open_def)
    ultimately show ?thesis by simp
  next
    case (Inr t)
    with assms(5) tx obtain kv where kv: "tb_last D t = Ok kv"
      and head: "rl_head l = (case kv of None \<Rightarrow> 0 | Some (k, v) \<Rightarrow> k + 1)"
      by (auto simp: redb_open_def try_bind_Ok_iff)
    have "vw_db V (rl_db old) = Some (vw_table V t)"
      using redb_begin_read [OF assms(1) tx] redb_open_Ok [OF assms(1) Inr] by simp
    with st have rows: "vw_table V t = map (row_of P) (positioned ?es)"
      by (simp add: stored_def)
    show ?thesis
    proof (cases ?es rule: rev_cases)
      case Nil
      with redb_last [OF assms(1) kv] head rows show ?thesis by simp
    next
      case (snoc es e)
      with redb_last [OF assms(1) kv] head rows show ?thesis
        by (simp add: positioned_from_append row_of_def position_of_def add.commute)
    qed
  qed
  with st hd db show ?thesis
    using redb_entries_eq [OF assms(2), of ?es V l] by (simp add: redb_ok_def redb_head_def)
qed

end
