(* ===== verification/Redb_Properties.thy ===== *)
theory Redb_Properties
  imports Redb_Contract
begin

text \<open>
  The properties of the durable log, with a store and a codec that obey the laws.
\<close>

section \<open>A store and a codec\<close>

definition store_open_write :: "rows option \<Rightarrow> rows" where
  "store_open_write w = (case w of None \<Rightarrow> [] | Some rows \<Rightarrow> rows)"

definition store :: "(rows option, rows option, rows, rows option) redb" where
  "store =
     \<lparr>db_begin_read = Ok,
      db_open_table = (\<lambda>r. case r of None \<Rightarrow> Err (TableDoesNotExist ''entries'') | Some rows \<Rightarrow> Ok rows),
      tb_last = (\<lambda>t. Ok (if t = [] then None else Some (last t))),
      tb_range = (\<lambda>c t. Ok (map Ok (filter (\<lambda>(k, v). c \<le> k) t))),
      db_begin_write = Ok,
      tx_open_table = (\<lambda>w. Ok (Some (store_open_write w))),
      tx_insert = (\<lambda>k v w.
        if length (bt_insert k v (store_open_write w)) < 2 ^ 64
        then Ok (Some (bt_insert k v (store_open_write w))) else Err ''full''),
      tx_commit = (\<lambda>w d. (Ok (), w))\<rparr>"

definition store_views :: "(rows option, rows option, rows, rows option) views" where
  "store_views = \<lparr>vw_db = (\<lambda>d. d), vw_read = (\<lambda>r. r), vw_table = (\<lambda>t. t), vw_write = (\<lambda>w. w)\<rparr>"

lemma store_laws: "redb_laws store store_views"
  unfolding redb_laws_def
  by (simp add: store_def store_views_def store_open_write_def split: option.splits)

text \<open>The codec of one kind of entry; the others it refuses.\<close>

definition failure_codec :: postcard where
  "failure_codec =
     \<lparr>pc_to_stdvec = (\<lambda>e. case e of AttestFailed s r \<Rightarrow> Ok (to_le_bytes s @ as_bytes r)
        | _ \<Rightarrow> Err ''unsupported''),
      pc_from_bytes = (\<lambda>bs. if length bs < 8 then Err ''end of input''
        else Ok (AttestFailed (from_le_bytes (take 8 bs)) (map (\<lambda>b. char_of (unat b)) (drop 8 bs))))\<rparr>"



section \<open>The contract\<close>




text \<open>A store that holds one entry, the one of this database.\<close>

definition one_entry :: entry where "one_entry = AttestFailed 7 ''down''"

definition one_row :: "rows option" where
  "one_row = Some [(0, encoding failure_codec one_entry)]"





section \<open>Where the code departs from the contract\<close>

text \<open>
  C40: Opening swallows a fault. When the table exists but cannot be opened, \<open>open\<close> still answers
  with success and takes the head to be 0, so the next append that succeeds replaces the entry at
  position 0 instead of following the newest.
\<close>

theorem redb_open_fault_overwrites:
  assumes "redb_laws D V" "vw_db V db = Some rows"
    and "db_begin_read D db = Ok tx" "db_open_table D tx = Err (TableFault x)"
  shows "\<exists>l. redb_open D (Ok db) = Ok l \<and>
    (\<forall>e p l'. redb_append D P e l = (Ok p, l') \<longrightarrow>
       p = position_ZERO \<and> vw_db V (rl_db l') = Some (bt_insert 0 (encoding P e) rows))"
proof (intro exI conjI allI impI)
  let ?l = "\<lparr>rl_db = db, rl_head = 0, rl_doorbell = [Position 0]\<rparr>"
  show "redb_open D (Ok db) = Ok ?l"
    using assms(3,4) by (simp add: redb_open_def)
  fix e p l'
  assume "redb_append D P e ?l = (Ok p, l')"
  then obtain w w1 bs w2 db' where w: "db_begin_write D db = Ok w" "tx_open_table D w = Ok w1"
    "encode P e = Ok bs" "tx_insert D 0 bs w1 = Ok w2" "tx_commit D w2 db = (Ok (), db')"
    and l': "rl_db l' = db'" "p = Position 0"
    by (auto simp: redb_append_def redb_append_batch_def Let_def try_bind_Ok_iff
        split: if_splits sum.splits prod.splits)
  from redb_begin_write [OF assms(1) w(1)] redb_open_write [OF assms(1) w(2)] assms(2)
  have "vw_write V w1 = Some rows" by simp
  from redb_insert [OF assms(1) w(4) this] redb_commit [OF assms(1) w(5)] w(3) l'
  show "p = position_ZERO" "vw_db V (rl_db l') = Some (bt_insert 0 (encoding P e) rows)"
    by (simp_all add: position_ZERO_def encoding_def)
qed

text \<open>The same store with a table that cannot be opened for reading.\<close>

definition faulty_store :: "(rows option, rows option, rows, rows option) redb" where
  "faulty_store = store\<lparr>db_open_table := \<lambda>r. Err (TableFault ''io'')\<rparr>"

lemma faulty_store_laws: "redb_laws faulty_store store_views"
  using store_laws by (simp add: redb_laws_def faulty_store_def)

theorem redb_open_fault_overwrites_witness:
  "\<exists>l. redb_open faulty_store (Ok one_row) = Ok l \<and>
    snd (redb_append faulty_store failure_codec (AttestFailed 8 []) l) =
      \<lparr>rl_db = Some [(0, encoding failure_codec (AttestFailed 8 []))], rl_head = 1, rl_doorbell = [Position 0, Position 1]\<rparr>"
proof -
  let ?e = "AttestFailed 8 []" and ?l = "\<lparr>rl_db = one_row, rl_head = 0, rl_doorbell = [Position 0]\<rparr>"
  have "db_begin_read faulty_store one_row = Ok one_row"
    "db_open_table faulty_store one_row = Err (TableFault ''io'')"
    by (simp_all add: faulty_store_def store_def)
  from redb_open_fault_overwrites [OF faulty_store_laws _ this]
  have all: "\<forall>p l'. redb_append faulty_store failure_codec ?e ?l = (Ok p, l') \<longrightarrow>
      rl_db l' = Some [(0, encoding failure_codec ?e)]"
    by (simp add: store_views_def one_row_def redb_open_def faulty_store_def store_def)
  have op: "redb_open faulty_store (Ok one_row) = Ok ?l"
    by (simp add: redb_open_def faulty_store_def store_def)
  obtain l' where "redb_append faulty_store failure_codec ?e ?l = (Ok (Position 0), l')"
    "rl_head l' = 1" "rl_doorbell l' = [Position 0, Position 1]"
    by (simp add: redb_append_def redb_append_batch_def Let_def faulty_store_def store_def
        store_open_write_def one_row_def encode_def failure_codec_def)
  with all op show ?thesis
    by (cases l') auto
qed

text \<open>
  Reading hides a fault. Rows of the range that the store fails to read are left out: the read
  answers with success and without their entries, whatever they were.
\<close>

theorem redb_read_drops_unreadable:
  assumes "db_begin_read D (rl_db l) = Ok tx" "db_open_table D tx = Ok t"
    and "tb_range D (position_index c) t = Ok rs"
    and "\<forall>(k, v) \<in> set (readable rs). \<exists>e. decode P v = Some (Ok e)"
  shows "\<exists>pes. redb_read_from_checked D P c l = Some (Ok pes) \<and> length pes = length (readable rs)"
proof -
  have "\<exists>pes. decode_rows P rows = Some (Ok pes) \<and> length pes = length rows"
    if "\<forall>(k, v) \<in> set rows. \<exists>e. decode P v = Some (Ok e)" for rows
    using that
    by (induction rows) auto
  from this [OF assms(4)] show ?thesis
    using assms(1-3) by (auto simp: redb_read_from_checked_def)
qed

theorem redb_read_drops_unreadable_witness:
  "redb_read_from_checked (store\<lparr>tb_range := \<lambda>c t. Ok [Err ''io'']\<rparr>) failure_codec position_ZERO
     \<lparr>rl_db = one_row, rl_head = 1, rl_doorbell = [Position 1]\<rparr> = Some (Ok [])"
  using redb_read_drops_unreadable [of "store\<lparr>tb_range := \<lambda>c t. Ok [Err ''io'']\<rparr>"
      "\<lparr>rl_db = one_row, rl_head = 1, rl_doorbell = [Position 1]\<rparr>" one_row "the one_row" position_ZERO
      "[Err ''io'']" failure_codec]
  by (simp add: store_def one_row_def readable_def List.map_filter_simps)

end
