(* ===== verification/Pipeline.thy ===== *)
theory Pipeline
  imports Sequencer_Properties Attest_Properties Prover_Task Projection_Properties
begin

text \<open>
  The tasks running together on the in-memory log, as \<^verbatim>\<open>src/src/main.rs\<close> wires them: a step
  relation that interleaves them at the granularity of one append. A submission is one step, for
  it holds the gate's lock over check, append and record. The sequencer, once a slot closes, works
  through an outbox of appends; the attester and the prover work through the batch they read; any
  other task may run between two of their steps. The composition of the sequencer's steps without
  interruption is the handler \<open>seq_on_tick\<close> (\<open>seq_on_tick_eq\<close>), and likewise
  \<open>att_on_doorbell\<close> and \<open>prover_on_doorbell\<close>.

  The steps are those that leave fewer than \<open>2^64\<close> entries in the log: beyond that the positions
  of the code itself would repeat.
\<close>

section \<open>The system\<close>

record pipeline =
  pl_log :: mem_log
  pl_gate :: admission
  pl_seq :: sequencer
  pl_outbox :: "entry list"
  pl_att :: "mock_enclave attester"
  pl_att_todo :: "(position \<times> entry) list"
  pl_prv :: "mock_prover prover"
  pl_prv_todo :: "entry list"
  pl_proj :: projections

abbreviation pl_entries :: "pipeline \<Rightarrow> entry list" where
  "pl_entries s \<equiv> ml_entries (pl_log s)"

definition log_fits :: "mem_log \<Rightarrow> bool" where
  "log_fits l \<longleftrightarrow> length (ml_entries l) < 2 ^ 64"

inductive pipe_step :: "keccak \<Rightarrow> pipeline \<Rightarrow> pipeline \<Rightarrow> bool" for K where
  step_submit:
    "admit_and_append mem_ops K intent now_ms (pl_gate s, pl_log s) = (r, a, l) \<Longrightarrow> log_fits l \<Longrightarrow>
     pipe_step K s (s\<lparr>pl_log := l, pl_gate := a\<rparr>)"
| step_seq_read:
    "pl_outbox s = [] \<Longrightarrow> seq_on_doorbell mem_ops (pl_log s) (pl_seq s) = Ok q \<Longrightarrow>
     pipe_step K s (s\<lparr>pl_seq := q\<rparr>)"
| step_seq_close:
    "pl_outbox s = [] \<Longrightarrow>
     pipe_step K s (s\<lparr>pl_seq := seq_ticked (pl_seq s), pl_outbox := tick_entries K now_ms (pl_seq s)\<rparr>)"
| step_seq_append:
    "pl_outbox s = e # es \<Longrightarrow> lg_append mem_ops e (pl_log s) = (Ok p, l) \<Longrightarrow> log_fits l \<Longrightarrow>
     pipe_step K s (s\<lparr>pl_log := l, pl_outbox := es\<rparr>)"
| step_att_read:
    "pl_att_todo s = [] \<Longrightarrow> lg_read_from mem_ops (at_cursor (pl_att s)) (pl_log s) = Ok pes \<Longrightarrow>
     pipe_step K s (s\<lparr>pl_att_todo := pes\<rparr>)"
| step_att_rule:
    "pl_att_todo s = pe # pes \<Longrightarrow>
     att_process mem_ops K (mock_attest K) pe (pl_att s, pl_log s) = (Ok (), a, l) \<Longrightarrow> log_fits l \<Longrightarrow>
     pipe_step K s (s\<lparr>pl_log := l, pl_att := a, pl_att_todo := pes\<rparr>)"
| step_prv_read:
    "pl_prv_todo s = [] \<Longrightarrow> lg_read_from mem_ops (pr_cursor (pl_prv s)) (pl_log s) = Ok pes \<Longrightarrow>
     pipe_step K s
       (s\<lparr>pl_prv := (pl_prv s)\<lparr>pr_cursor := fold (\<lambda>(pos, e) _. position_next pos) pes (pr_cursor (pl_prv s))\<rparr>,
          pl_prv_todo := map snd pes\<rparr>)"
| step_prv_entry:
    "pl_prv_todo s = e # es \<Longrightarrow>
     prover_entry mem_ops (mock_prove_ops K) e (pl_prv s, pl_log s) = Some (Ok (), p, l) \<Longrightarrow> log_fits l \<Longrightarrow>
     pipe_step K s (s\<lparr>pl_log := l, pl_prv := p, pl_prv_todo := es\<rparr>)"
| step_prv_timer:
    "pl_prv_todo s = [] \<Longrightarrow>
     prover_on_timer mem_ops (mock_prove_ops K) (pl_prv s, pl_log s) = Some (Ok (), p, l) \<Longrightarrow> log_fits l \<Longrightarrow>
     pipe_step K s (s\<lparr>pl_log := l, pl_prv := p\<rparr>)"
| step_project:
    "pipe_step K s (s\<lparr>pl_proj := projector_on_doorbell mem_ops (pl_log s) (pl_proj s)\<rparr>)"

inductive_cases pipe_stepE: "pipe_step K s s'"

text \<open>The state \<open>main\<close> starts from: an empty log and every task recovered from it.\<close>

definition pipeline_start :: "guarantee_config \<Rightarrow> mock_enclave \<Rightarrow> mock_prover \<Rightarrow> batch_config \<Rightarrow> pipeline" where
  "pipeline_start g en backend cfg =
     \<lparr>pl_log = mem_log_new,
      pl_gate = admission_new g,
      pl_seq = \<lparr>sq_buffer = [], sq_guarantee = g, sq_cursor = position_ZERO, sq_next_slot = 0\<rparr>,
      pl_outbox = [],
      pl_att = \<lparr>at_enclave = en, at_cursor = position_ZERO\<rparr>,
      pl_att_todo = [],
      pl_prv = \<lparr>pr_prover = backend, pr_awaiting = Map.empty, pr_pending = [],
        pr_batch_size = bc_batch_size cfg, pr_flush_after = bc_flush_after cfg,
        pr_cursor = position_ZERO, pr_next_slot = 0\<rparr>,
      pl_prv_todo = [],
      pl_proj = projections_new g\<rparr>"

text \<open>
  The wiring of \<open>main\<close> over a log that may hold entries already: each task is built and recovers
  from the log as it stands, and an error of any of them ends the process.
\<close>

definition pipeline_recover ::
    "guarantee_config \<Rightarrow> mock_enclave \<Rightarrow> mock_prover \<Rightarrow> batch_config \<Rightarrow> mem_log \<Rightarrow> pipeline option" where
  "pipeline_recover g en backend cfg l =
    (case (admission_recover mem_ops l g, seq_start mem_ops g l, attester_start mem_ops en l,
        prover_start mem_ops backend cfg l) of
       (Ok gate, Ok q, Ok a, Ok p) \<Rightarrow>
         Some \<lparr>pl_log = l, pl_gate = gate, pl_seq = q, pl_outbox = [], pl_att = a, pl_att_todo = [],
           pl_prv = p, pl_prv_todo = [], pl_proj = projections_new g\<rparr>
     | _ \<Rightarrow> None)"

text \<open>On the empty log it is the start state.\<close>

lemma pipeline_start_recovered:
  "pipeline_recover g en backend cfg mem_log_new = Some (pipeline_start g en backend cfg)"
  by (simp add: pipeline_recover_def pipeline_start_def seq_start_def seq_recover_def attester_start_def
      recover_attester_def attester_resume_def prover_start_def recover_prover_def prover_resume_def
      admission_recover_def admission_default_def admission_new_def mem_read_from_eq mem_log_new_def
      mem_head_def position_ZERO_def)

lemma pipeline_recover_Some:
  "pipeline_recover g en backend cfg l = Some s \<longleftrightarrow>
     (\<exists>gate q a p. admission_recover mem_ops l g = Ok gate \<and> seq_start mem_ops g l = Ok q \<and>
        attester_start mem_ops en l = Ok a \<and> prover_start mem_ops backend cfg l = Ok p \<and>
        s = \<lparr>pl_log = l, pl_gate = gate, pl_seq = q, pl_outbox = [], pl_att = a, pl_att_todo = [],
           pl_prv = p, pl_prv_todo = [], pl_proj = projections_new g\<rparr>)"
  by (auto simp: pipeline_recover_def split: sum.splits)

text \<open>
  The expiries written since the last slot was committed. A slot close that was cut off between
  its expiries and its slot leaves some.
\<close>

fun open_expired_step :: "entry \<Rightarrow> intent_id list \<Rightarrow> intent_id list" where
  "open_expired_step (SlotCommitted _ _ _ _ _) _ = []"
| "open_expired_step (IntentExpired i _ _) is = is @ [i]"
| "open_expired_step _ is = is"

definition open_expired :: "entry list \<Rightarrow> intent_id list" where
  "open_expired es = fold open_expired_step es []"

text \<open>
  A crash and a restart: only the log outlives the process. The enclave is a fresh one of the
  same build, the backend any that does not panic, and the batch size and guarantee are configured
  as before. The crash may come at any point but between the expiries of a slot close and its slot.
\<close>

inductive pipe_restart :: "pipeline \<Rightarrow> pipeline \<Rightarrow> bool" where
  restart:
    "open_expired (pl_entries s) = [] \<Longrightarrow>
     pipeline_recover (sq_guarantee (pl_seq s)) en backend cfg (pl_log s) = Some s' \<Longrightarrow>
     me_measurement en = me_measurement (at_enclave (pl_att s)) \<Longrightarrow> mock_latency_ok backend \<Longrightarrow>
     bc_batch_size cfg = pr_batch_size (pl_prv s) \<Longrightarrow>
     pipe_restart s s'"

inductive reachable :: "keccak \<Rightarrow> pipeline \<Rightarrow> pipeline \<Rightarrow> bool" for K s0 where
  reach_start: "reachable K s0 s0"
| reach_step: "reachable K s0 s \<Longrightarrow> pipe_step K s s' \<Longrightarrow> reachable K s0 s'"
| reach_restart: "reachable K s0 s \<Longrightarrow> pipe_restart s s' \<Longrightarrow> reachable K s0 s'"

section \<open>Views of the log\<close>

text \<open>The ids the slots committed, and those that expired.\<close>

definition committed_ids :: "entry list \<Rightarrow> intent_id list" where
  "committed_ids es = concat (map (\<lambda>e. case e of SlotCommitted _ ids _ _ _ \<Rightarrow> ids | _ \<Rightarrow> []) es)"

definition expired_ids :: "entry list \<Rightarrow> intent_id list" where
  "expired_ids es = List.map_filter (\<lambda>e. case e of IntentExpired i _ _ \<Rightarrow> Some i | _ \<Rightarrow> None) es"

lemma ids_simps [simp]:
  "committed_ids [] = []" "expired_ids [] = []"
  "committed_ids (es @ fs) = committed_ids es @ committed_ids fs"
  "expired_ids (es @ fs) = expired_ids es @ expired_ids fs"
  by (simp_all add: committed_ids_def expired_ids_def map_filter_append map_filter_simps)

lemma committed_ids_single: "committed_ids [SlotCommitted s ids p c t] = ids"
  by (simp add: committed_ids_def)

lemma in_committed_ids: "SlotCommitted s ids p c t \<in> set es \<Longrightarrow> i \<in> set ids \<Longrightarrow> i \<in> set (committed_ids es)"
  by (force simp: committed_ids_def)

lemma in_expired_ids: "IntentExpired i d t \<in> set es \<Longrightarrow> i \<in> set (expired_ids es)"
  by (force simp: expired_ids_def mem_map_filter)

lemma expired_ids_tick_slot: "expired_ids [tick_slot K now s] = []"
  by (simp add: expired_ids_def tick_slot_def map_filter_simps)

lemma committed_ids_tick_expired: "committed_ids (tick_expired now s) = []"
  by (auto simp: committed_ids_def tick_expired_def)

definition is_seq_entry :: "entry \<Rightarrow> bool" where
  "is_seq_entry e = (case e of IntentExpired _ _ _ \<Rightarrow> True | SlotCommitted _ _ _ _ _ \<Rightarrow> True | _ \<Rightarrow> False)"

lemma not_seq_entry:
  "\<not> is_seq_entry e \<Longrightarrow> committed_slots [e] = [] \<and> committed_ids [e] = [] \<and> expired_ids [e] = []"
  by (cases e) (simp_all add: is_seq_entry_def committed_ids_def expired_ids_def map_filter_simps)

end
