(* ===== verification/Pipeline_Inv.thy ===== *)
theory Pipeline_Inv
  imports Pipeline
begin

text \<open>
  The invariant of the running pipeline, one predicate per task over the log and that task's own
  state, each preserved by the task's steps and by whatever the other tasks append.
\<close>

section \<open>The sequencer\<close>

text \<open>A slot commits to its own ids and closed within their windows; an expiry is late.\<close>

definition seq_entry_fine :: "keccak \<Rightarrow> guarantee_config \<Rightarrow> entry list \<Rightarrow> entry \<Rightarrow> bool" where
  "seq_entry_fine K g es e =
    (case e of
       SlotCommitted slot ids _ c t \<Rightarrow>
         c = commit K slot ids \<and>
         (\<forall>i \<in> set ids. \<exists>intent r. IntentReceived i intent r \<in> set es \<and> t \<le> deadline_for g r)
     | IntentExpired i d t \<Rightarrow>
         \<exists>intent r. IntentReceived i intent r \<in> set es \<and> d = deadline_for g r \<and> d < t
     | _ \<Rightarrow> True)"

lemma seq_entry_fine_mono:
  "seq_entry_fine K g es e \<Longrightarrow> set es \<subseteq> set fs \<Longrightarrow> seq_entry_fine K g fs e"
  by (cases e) (auto simp: seq_entry_fine_def, blast+)

definition buffer_logged :: "entry list \<Rightarrow> pending list \<Rightarrow> bool" where
  "buffer_logged es ps \<longleftrightarrow>
     (\<forall>p \<in> set ps. \<exists>intent. IntentReceived (p_id p) intent (p_received_at p) \<in> set es)"

definition seq_inv :: "keccak \<Rightarrow> guarantee_config \<Rightarrow> entry list \<Rightarrow> sequencer \<Rightarrow> entry list \<Rightarrow> bool" where
  "seq_inv K g es q outbox \<longleftrightarrow>
     sq_guarantee q = g \<and> buffer_logged es (sq_buffer q) \<and>
     (\<forall>e \<in> set (es @ outbox). seq_entry_fine K g es e) \<and>
     (\<exists>n. sq_next_slot q = word_of_nat n \<and> committed_slots (es @ outbox) = slot_run 0 n) \<and>
     (\<exists>c \<le> length es. sq_cursor q = position_of c \<and>
        mset (received_ids (take c es)) =
          mset (committed_ids (es @ outbox)) + mset (expired_ids (es @ outbox)) +
          image_mset p_id (mset (sq_buffer q)))"

lemma seq_invI:
  assumes "sq_guarantee q = g" "buffer_logged es (sq_buffer q)"
    and "\<And>e. e \<in> set (es @ outbox) \<Longrightarrow> seq_entry_fine K g es e"
    and "sq_next_slot q = word_of_nat n" "committed_slots (es @ outbox) = slot_run 0 n"
    and "c \<le> length es" "sq_cursor q = position_of c"
    and "mset (received_ids (take c es)) =
      mset (committed_ids (es @ outbox)) + mset (expired_ids (es @ outbox)) +
      image_mset p_id (mset (sq_buffer q))"
  shows "seq_inv K g es q outbox"
  using assms unfolding seq_inv_def by blast

lemma seq_inv_append:
  assumes "seq_inv K g es q outbox" "\<not> is_seq_entry e"
  shows "seq_inv K g (es @ [e]) q outbox"
proof -
  have "seq_entry_fine K g (es @ [e]) e"
    using assms(2) by (cases e) (simp_all add: seq_entry_fine_def is_seq_entry_def)
  with assms(1) have "\<forall>x \<in> set ((es @ [e]) @ outbox). seq_entry_fine K g (es @ [e]) x"
    using seq_entry_fine_mono [of K g es _ "es @ [e]"] by (fastforce simp: seq_inv_def)
  moreover have "buffer_logged (es @ [e]) (sq_buffer q)"
    using assms(1) by (fastforce simp: seq_inv_def buffer_logged_def)
  moreover obtain c where "c \<le> length es" "sq_cursor q = position_of c"
    "mset (received_ids (take c es)) =
      mset (committed_ids (es @ outbox)) + mset (expired_ids (es @ outbox)) +
      image_mset p_id (mset (sq_buffer q))"
    using assms(1) by (auto simp: seq_inv_def)
  moreover obtain n where "sq_next_slot q = word_of_nat n" "committed_slots (es @ outbox) = slot_run 0 n"
    using assms(1) by (auto simp: seq_inv_def)
  moreover have "committed_slots ((es @ [e]) @ outbox) = committed_slots (es @ outbox)"
    "committed_ids ((es @ [e]) @ outbox) = committed_ids (es @ outbox)"
    "expired_ids ((es @ [e]) @ outbox) = expired_ids (es @ outbox)"
    using assms(2)
    by (cases e; simp add: is_seq_entry_def committed_ids_def expired_ids_def map_filter_append
        map_filter_simps)+
  moreover have "sq_guarantee q = g"
    using assms(1) by (simp add: seq_inv_def)
  ultimately show ?thesis
    by (intro seq_invI [where n = n and c = c]) (simp_all, blast)
qed

lemma seq_inv_emit: "seq_inv K g es q (e # outbox) \<Longrightarrow> seq_inv K g (es @ [e]) q outbox"
proof -
  assume inv: "seq_inv K g es q (e # outbox)"
  have eq: "es @ e # outbox = (es @ [e]) @ outbox" by simp
  have "\<forall>x \<in> set ((es @ [e]) @ outbox). seq_entry_fine K g (es @ [e]) x"
    using inv seq_entry_fine_mono [of K g es _ "es @ [e]"] unfolding seq_inv_def eq by fastforce
  moreover have "buffer_logged (es @ [e]) (sq_buffer q)"
    using inv by (fastforce simp: seq_inv_def buffer_logged_def)
  moreover obtain c where c: "c \<le> length es" "sq_cursor q = position_of c"
    "mset (received_ids (take c es)) =
      mset (committed_ids ((es @ [e]) @ outbox)) + mset (expired_ids ((es @ [e]) @ outbox)) +
      image_mset p_id (mset (sq_buffer q))"
    using inv unfolding seq_inv_def eq by blast
  moreover from c(1) have "take c (es @ [e]) = take c es" "c \<le> length (es @ [e])" by simp_all
  ultimately show ?thesis
    using inv unfolding seq_inv_def eq by metis
qed

lemma received_ids_append: "received_ids (es @ fs) = received_ids es @ received_ids fs"
  by (simp add: received_ids_def)

lemma seq_read_eq:
  assumes "sq_cursor q = position_of c" "c \<le> length (ml_entries l)" "length (ml_entries l) < 2 ^ 64"
    and "seq_on_doorbell mem_ops l q = Ok q'"
  shows "q' = q\<lparr>sq_buffer := sq_buffer q @ pendings (drop c (ml_entries l)),
    sq_cursor := position_of (length (ml_entries l))\<rparr>"
  using mem.seq_doorbell_eq [OF TrueI, of q l] assms by (simp add: mem_read_from_eq)

lemma seq_inv_read:
  assumes "seq_inv K g (ml_entries l) q []" "length (ml_entries l) < 2 ^ 64"
    and "seq_on_doorbell mem_ops l q = Ok q'"
  shows "seq_inv K g (ml_entries l) q' []"
proof -
  let ?es = "ml_entries l"
  from assms(1) obtain c where c: "c \<le> length ?es" "sq_cursor q = position_of c"
    "mset (received_ids (take c ?es)) =
      mset (committed_ids ?es) + mset (expired_ids ?es) + image_mset p_id (mset (sq_buffer q))"
    by (auto simp: seq_inv_def)
  note q' = seq_read_eq [OF c(2,1) assms(2,3)]
  have "received_ids ?es = received_ids (take c ?es) @ received_ids (drop c ?es)"
    by (simp flip: received_ids_append)
  then have "mset (received_ids (take (length ?es) ?es)) =
      mset (committed_ids ?es) + mset (expired_ids ?es) + image_mset p_id (mset (sq_buffer q'))"
    using c(3) by (simp add: q' flip: map_p_id_pendings)
  moreover have "\<exists>intent. IntentReceived (p_id p) intent (p_received_at p) \<in> set ?es"
    if "p \<in> set (pendings (drop c ?es))" for p
  proof -
    from that obtain i intent t where "(i, intent, t) \<in> set (received (drop c ?es))"
      "p = pending_new i intent t"
      by (auto simp: pendings_def)
    then show ?thesis
      by (auto simp: mem_received dest: in_set_dropD)
  qed
  ultimately show ?thesis
    using assms(1) unfolding seq_inv_def q'
    by (auto simp: buffer_logged_def intro!: exI [of _ "length ?es"])
qed

lemma seq_inv_close:
  assumes "seq_inv K g es q []"
  shows "seq_inv K g es (seq_ticked q) (tick_entries K now q)"
proof -
  let ?ob = "tick_entries K now q"
  from assms obtain c where c: "c \<le> length es" "sq_cursor q = position_of c"
    "mset (received_ids (take c es)) =
      mset (committed_ids es) + mset (expired_ids es) + image_mset p_id (mset (sq_buffer q))"
    by (auto simp: seq_inv_def)
  have exp: "expired_ids ?ob = map fst (snd (partition_expired (sq_buffer q) now (sq_guarantee q)))"
    using map_fst_tick_expired [of now q] expired_ids_tick_slot [of K now q]
    by (simp add: tick_entries_def expired_ids_def map_filter_append)
  have com: "committed_ids ?ob = tick_intents now q"
    by (simp add: tick_entries_def committed_ids_tick_expired tick_slot_def committed_ids_single)
  have "mset (received_ids (take c es)) =
      mset (committed_ids (es @ ?ob)) + mset (expired_ids (es @ ?ob)) +
      image_mset p_id (mset (sq_buffer (seq_ticked q)))"
    using c(3) tick_partition [of q now] by (simp add: exp com seq_ticked_def)
  moreover have fine: "seq_entry_fine K g es e" if "e \<in> set ?ob" for e
  proof -
    have g: "sq_guarantee q = g" and buf: "buffer_logged es (sq_buffer q)"
      using assms by (simp_all add: seq_inv_def)
    from that consider "e \<in> set (tick_expired now q)" | "e = tick_slot K now q"
      by (auto simp: tick_entries_def)
    then show ?thesis
    proof cases
      case 1
      with g buf show ?thesis
        by (force simp: tick_expired_mem seq_entry_fine_def buffer_logged_def)
    next
      case 2
      have "\<exists>intent r. IntentReceived i intent r \<in> set es \<and> now \<le> deadline_for g r"
        if "i \<in> set (tick_intents now q)" for i
        using that g buf by (fastforce simp: tick_intents_mem buffer_logged_def)
      with 2 show ?thesis
        by (simp add: tick_slot_def seq_entry_fine_def)
    qed
  qed
  moreover obtain n where "sq_next_slot q = word_of_nat n" "committed_slots es = slot_run 0 n"
    using assms by (auto simp: seq_inv_def)
  then have "sq_next_slot (seq_ticked q) = word_of_nat (Suc n) \<and>
      committed_slots (es @ ?ob) = slot_run 0 (Suc n)"
    by (simp add: seq_ticked_def tick_entries_def committed_slots_tick_expired tick_slot_def
        slot_run_Suc add.commute)
  moreover have "seq_entry_fine K g es e" if "e \<in> set (es @ ?ob)" for e
    using that fine assms by (auto simp: seq_inv_def)
  ultimately show ?thesis
    using assms c(1,2)
    by (intro seq_invI [where n = "Suc n" and c = c])
      (simp_all add: buffer_logged_def seq_ticked_def seq_inv_def)
qed

end
