(* ===== verification/Pipeline_Tasks.thy ===== *)
theory Pipeline_Tasks
  imports Pipeline_Inv
begin

text \<open>
  The attester's and the prover's invariants while they work through a batch, the order of
  commits and rulings, and the combined invariant of the pipeline.
\<close>

section \<open>The attester\<close>

definition attestations_fine :: "keccak \<Rightarrow> measurement \<Rightarrow> entry list \<Rightarrow> bool" where
  "attestations_fine K m es \<longleftrightarrow>
     (\<forall>slot q g. SlotAttested slot q g \<in> set es \<longrightarrow>
        (\<exists>intents p c t. SlotCommitted slot intents p c t \<in> set es \<and>
           verify_preconf K (mock_verifier K m)
             \<lparr>pc_slot = slot, pc_commitment = c, pc_quote = q, pc_signature = g\<rparr> intents = Ok ()))"

definition att_inv ::
    "keccak \<Rightarrow> measurement \<Rightarrow> entry list \<Rightarrow> mock_enclave attester \<Rightarrow> (position \<times> entry) list \<Rightarrow> bool" where
  "att_inv K m es a todo \<longleftrightarrow>
     (\<exists>j. j + length todo \<le> length es \<and> at_cursor a = position_of j \<and>
        todo = positioned_from j (take (length todo) (drop j es)) \<and>
        ruled_slots es = committed_slots (take j es)) \<and>
     me_measurement (at_enclave a) = m \<and> attestations_fine K m es"

lemma att_invI:
  assumes "j + length todo \<le> length es" "at_cursor a = position_of j"
    and "todo = positioned_from j (take (length todo) (drop j es))"
    and "ruled_slots es = committed_slots (take j es)"
    and "me_measurement (at_enclave a) = m" "attestations_fine K m es"
  shows "att_inv K m es a todo"
  using assms unfolding att_inv_def by blast

lemma attestations_fine_append:
  assumes "attestations_fine K m es" "\<And>slot q g. e \<noteq> SlotAttested slot q g"
  shows "attestations_fine K m (es @ [e])"
  using assms unfolding attestations_fine_def by fastforce

lemma att_inv_append:
  assumes "att_inv K m es a todo" "ruled_slot e = None"
  shows "att_inv K m (es @ [e]) a todo"
proof -
  from assms(1) obtain j where "j + length todo \<le> length es" "at_cursor a = position_of j"
    "todo = positioned_from j (take (length todo) (drop j es))" "ruled_slots es = committed_slots (take j es)"
    by (auto simp: att_inv_def)
  then have "j + length todo \<le> length (es @ [e]) \<and> at_cursor a = position_of j \<and>
      todo = positioned_from j (take (length todo) (drop j (es @ [e]))) \<and>
      ruled_slots (es @ [e]) = committed_slots (take j (es @ [e]))"
    using assms(2) by simp
  moreover have "attestations_fine K m (es @ [e])"
    using assms by (intro attestations_fine_append) (auto simp: att_inv_def)
  ultimately show ?thesis
    using assms(1) unfolding att_inv_def by blast
qed

lemma att_inv_read:
  assumes "att_inv K m es a []" "length es < 2 ^ 64"
  shows "att_inv K m es a (drop (offset (at_cursor a)) (positioned es))"
proof -
  from assms obtain j where "j \<le> length es" "at_cursor a = position_of j"
    "ruled_slots es = committed_slots (take j es)"
    by (auto simp: att_inv_def)
  with assms show ?thesis
    by (auto simp: att_inv_def drop_positioned_from intro!: exI [of _ j])
qed

text \<open>One verdict.\<close>

lemma verdicts_single:
  "fst (verdicts K attest [e] en) =
     (case e of SlotCommitted slot intents _ c _ \<Rightarrow> [fst (attest_slot K attest slot intents c en)] | _ \<Rightarrow> [])"
  by (cases e) (simp_all add: att_verdict_def case_prod_beta)

lemma att_inv_rule:
  assumes "att_inv K m (ml_entries l) a (pe # pes)"
    and "att_process mem_ops K (mock_attest K) pe (a, l) = (Ok (), a', l')"
  shows "\<exists>vs. ml_entries l' = ml_entries l @ vs \<and> length vs \<le> 1 \<and>
    (\<forall>v \<in> set vs. ruled_slot v \<noteq> None) \<and> att_inv K m (ml_entries l') a' pes"
proof -
  let ?es = "ml_entries l"
  from assms(1) obtain j where j: "Suc (j + length pes) \<le> length ?es" "at_cursor a = position_of j"
    and todo: "pe # pes = positioned_from j (take (Suc (length pes)) (drop j ?es))"
    and ruled: "ruled_slots ?es = committed_slots (take j ?es)"
    and m: "me_measurement (at_enclave a) = m" and fine: "attestations_fine K m ?es"
    by (auto simp: att_inv_def)
  have drop: "drop j ?es = ?es ! j # drop (Suc j) ?es"
    using j(1) by (intro Cons_nth_drop_Suc [symmetric]) simp
  with todo have pe: "pe = (position_of j, ?es ! j)"
    and pes: "pes = positioned_from (Suc j) (take (length pes) (drop (Suc j) ?es))"
    by simp_all
  let ?vs = "fst (verdicts K (mock_attest K) [?es ! j] (at_enclave a))"
  from mem.att_process_outcome [OF TrueI assms(2) [unfolded pe]]
  have l': "ml_entries l' = ?es @ ?vs" and cur: "at_cursor a' = position_of (Suc j)"
    and en: "at_enclave a' = snd (verdicts K (mock_attest K) [?es ! j] (at_enclave a))"
    by simp_all
  have m': "me_measurement (at_enclave a') = m"
    unfolding en using m mock_enclave.attest_slot_honest [where pinned = m]
    by (cases "?es ! j") (auto simp: att_verdict_def split: prod.splits)
  have "ruled_slots (ml_entries l') = committed_slots (take (Suc j) (ml_entries l'))"
    using j(1) ruled ruled_slots_verdicts [of K "mock_attest K" "[?es ! j]" "at_enclave a"]
    by (simp add: l' take_Suc_conv_app_nth nth_append del: committed_slots_simps(2))
  moreover have "attestations_fine K m (ml_entries l')"
  proof -
    have "\<exists>intents p c t. SlotCommitted slot intents p c t \<in> set ?es \<and>
        verify_preconf K (mock_verifier K m)
          \<lparr>pc_slot = slot, pc_commitment = c, pc_quote = q, pc_signature = g\<rparr> intents = Ok ()"
      if "SlotAttested slot q g \<in> set ?vs" for slot q g
    proof -
      have "?es ! j \<in> set ?es"
        using j(1) by (intro nth_mem) simp
      then have "set [?es ! j] \<subseteq> set ?es" by simp
      with mock_enclave.verdicts_verify [OF m that] show ?thesis by blast
    qed
    with fine show ?thesis
      unfolding attestations_fine_def l' by fastforce
  qed
  moreover have "pes = positioned_from (Suc j) (take (length pes) (drop (Suc j) (ml_entries l')))"
    using pes j(1) by (simp add: l')
  moreover have "Suc j + length pes \<le> length (ml_entries l')"
    using j(1) l' by simp
  ultimately have "att_inv K m (ml_entries l') a' pes"
    using cur m' by (intro att_invI)
  moreover have "length ?vs \<le> 1"
    unfolding verdicts_single by (simp split: entry.split)
  moreover have "\<forall>v \<in> set ?vs. ruled_slot v \<noteq> None"
    using attest_slot_ruled [OF prod.collapse [symmetric], of K "mock_attest K"]
    unfolding verdicts_single by (cases "?es ! j") simp_all
  ultimately show ?thesis
    using l' by (intro exI [of _ ?vs]) simp
qed

section \<open>The order of commits and rulings\<close>

lemma well_ruled_commit:
  assumes "well_ruled es" "committed_slots (es @ [e]) = slot_run 0 n" "ruled_slot e = None"
  shows "well_ruled (es @ [e])"
proof -
  obtain k n' where kn: "k \<le> n'" "ruled_slots es = slot_run 0 k" "committed_slots es = slot_run 0 n'"
    using well_ruled_obtains [OF assms(1), of "length es"] by auto
  have "length (committed_slots es) \<le> length (committed_slots (es @ [e]))"
    by simp
  with kn assms(2) have "n' \<le> n"
    by (simp del: committed_slots_simps(3))
  with kn assms show ?thesis
    by (intro well_ruled_snocI [of es k n]) simp_all
qed

lemma well_ruled_rule:
  assumes "well_ruled es" "ruled_slot e \<noteq> None" "ruled_slots (es @ [e]) = committed_slots (take j es)"
    and "j \<le> length es"
  shows "well_ruled (es @ [e])"
proof -
  obtain k n where kn: "k \<le> n" "ruled_slots es = slot_run 0 k" "committed_slots es = slot_run 0 n"
    using well_ruled_obtains [OF assms(1), of "length es"] by auto
  obtain k' n' where kn': "committed_slots (take j es) = slot_run 0 n'"
    using well_ruled_obtains [OF assms(1,4)] by metis
  have "length (committed_slots (take j es)) \<le> length (committed_slots es)"
    by (metis append_take_drop_id committed_slots_simps(3) le_add1 length_append)
  with kn(3) kn' have "n' \<le> n" by simp
  then show ?thesis
    using assms(1-3) kn kn' ruled_not_committed [OF assms(2)]
    by (intro well_ruled_snocI [of es n' n]) simp_all
qed

section \<open>The prover\<close>

definition prv_inv :: "('p \<Rightarrow> bool) \<Rightarrow> entry list \<Rightarrow> 'p prover \<Rightarrow> entry list \<Rightarrow> bool" where
  "prv_inv good es p todo \<longleftrightarrow>
     (\<exists>i nxt. i + length todo \<le> length es \<and> todo = take (length todo) (drop i es) \<and>
        pr_cursor p = position_of (i + length todo) \<and> pr_next_slot p = word_of_nat nxt \<and>
        in_step es i (pr_awaiting p) nxt \<and> length (pr_pending p) \<le> nxt \<and>
        map cs_slot (pr_pending p) = slot_run (nxt - length (pr_pending p)) nxt) \<and>
     length (pr_pending p) < pr_batch_size p \<and>
     (\<forall>c \<in> set (pr_pending p). verdict_logged es (Some c)) \<and> good (pr_prover p)"

lemma prv_invI:
  assumes "i + length todo \<le> length es" "todo = take (length todo) (drop i es)"
    and "pr_cursor p = position_of (i + length todo)" "pr_next_slot p = word_of_nat nxt"
    and "in_step es i (pr_awaiting p) nxt" "length (pr_pending p) \<le> nxt"
    and "map cs_slot (pr_pending p) = slot_run (nxt - length (pr_pending p)) nxt"
    and "length (pr_pending p) < pr_batch_size p"
    and "\<And>c. c \<in> set (pr_pending p) \<Longrightarrow> verdict_logged es (Some c)" "good (pr_prover p)"
  shows "prv_inv good es p todo"
  using assms unfolding prv_inv_def by blast

lemma prv_inv_idle: "prv_inv good es p [] \<longleftrightarrow> prover_inv good es p"
  unfolding prv_inv_def prover_inv_def by simp

lemma prv_inv_append:
  assumes "prv_inv good es p todo"
  shows "prv_inv good (es @ fs) p todo"
proof -
  from assms obtain i nxt where "i + length todo \<le> length es" "todo = take (length todo) (drop i es)"
    "pr_cursor p = position_of (i + length todo)" "pr_next_slot p = word_of_nat nxt"
    "in_step es i (pr_awaiting p) nxt" "length (pr_pending p) \<le> nxt"
    "map cs_slot (pr_pending p) = slot_run (nxt - length (pr_pending p)) nxt"
    by (auto simp: prv_inv_def)
  with assms show ?thesis
    by (intro prv_invI [of i _ _ _ nxt])
      (simp_all add: in_step_append verdict_logged_append prv_inv_def)
qed

lemma prv_inv_read:
  assumes "prv_inv good es p []" "length es < 2 ^ 64"
  defines "pes \<equiv> drop (offset (pr_cursor p)) (positioned es)"
  shows "prv_inv good es
    (p\<lparr>pr_cursor := fold (\<lambda>(pos, e) _. position_next pos) pes (pr_cursor p)\<rparr>) (map snd pes)"
proof -
  from assms(1) obtain i nxt where i: "i \<le> length es" "pr_cursor p = position_of i"
    and rest: "pr_next_slot p = word_of_nat nxt" "in_step es i (pr_awaiting p) nxt"
    "length (pr_pending p) \<le> nxt"
    "map cs_slot (pr_pending p) = slot_run (nxt - length (pr_pending p)) nxt"
    by (auto simp: prv_inv_def)
  then have pes: "pes = positioned_from i (drop i es)"
    using assms(2) by (simp add: pes_def drop_positioned_from)
  then have "fold (\<lambda>(pos, e) _. position_next pos) pes (pr_cursor p) = position_of (length es)"
    using i by (cases "i = length es") (simp_all add: fold_cursor)
  with assms(1) i(1) rest pes show ?thesis
    by (intro prv_invI [of i _ _ _ nxt]) (simp_all add: prv_inv_def)
qed

text \<open>The batch below the next slot, however the next slot is written.\<close>

lemma prv_inv_pending:
  assumes "prv_inv good es p todo" "well_ruled es" "length es < 2 ^ 64" "pr_next_slot p = word_of_nat nxt"
  assumes "nxt < 2 ^ 64"
  shows "length (pr_pending p) \<le> nxt" "length (pr_pending p) < pr_batch_size p"
    "map cs_slot (pr_pending p) = slot_run (nxt - length (pr_pending p)) nxt"
    "\<forall>c \<in> set (pr_pending p). verdict_logged es (Some c)"
proof -
  from assms(1) obtain i n where "in_step es i (pr_awaiting p) n" "pr_next_slot p = word_of_nat n"
    and n: "length (pr_pending p) \<le> n"
      "map cs_slot (pr_pending p) = slot_run (n - length (pr_pending p)) n"
    by (auto simp: prv_inv_def)
  moreover from this have "n < 2 ^ 64"
    using committed_count_less [OF assms(3), of i] by (fastforce simp: in_step_def)
  ultimately have "n = nxt"
    using assms(4,5) by (simp add: word_of_nat_eq_iff64)
  with n assms(1) show "length (pr_pending p) \<le> nxt" "length (pr_pending p) < pr_batch_size p"
    "map cs_slot (pr_pending p) = slot_run (nxt - length (pr_pending p)) nxt"
    "\<forall>c \<in> set (pr_pending p). verdict_logged es (Some c)"
    by (auto simp: prv_inv_def)
qed

context proving
begin

text \<open>What working through one entry of the batch does: it never fails, and refines the specification.\<close>

lemma prv_entry_effect:
  assumes "ok l" "prv_inv good (entries l) p (e # todo)" "well_ruled (entries l)"
    and "length (entries l) < 2 ^ 64"
  obtains i nxt vs fs p' l' where
    "prover_entry L P e (p, l) = Some (Ok (), p', l')" "ok l'" "entries l' = entries l @ fs"
    "release_step e (release_state_of p) = Ok (vs, release_state_of p')" "batched P vs p fs p'"
    "e \<in> set (entries l)" "Suc (i + length todo) \<le> length (entries l)"
    "todo = take (length todo) (drop (Suc i) (entries l))" "pr_cursor p = position_of (Suc (i + length todo))"
    "pr_next_slot p = word_of_nat nxt" "pr_next_slot p' = word_of_nat (nxt + length vs)"
    "in_step (entries l) (Suc i) (pr_awaiting p') (nxt + length vs)" "nxt + length vs < 2 ^ 64"
    "labelled nxt vs" "\<forall>v \<in> set vs. verdict_logged (entries l) v"
proof -
  let ?es = "entries l"
  from assms(2) obtain i nxt where i: "Suc (i + length todo) \<le> length ?es"
    and todo: "e # todo = take (Suc (length todo)) (drop i ?es)"
    and cur: "pr_cursor p = position_of (Suc (i + length todo))"
    and nxt: "pr_next_slot p = word_of_nat nxt" and step: "in_step ?es i (pr_awaiting p) nxt"
    and size: "length (pr_pending p) < pr_batch_size p" and good: "good (pr_prover p)"
    by (auto simp: prv_inv_def)
  have "drop i ?es = ?es ! i # drop (Suc i) ?es"
    using i by (intro Cons_nth_drop_Suc [symmetric]) simp
  with todo have e: "e = ?es ! i" and todo': "todo = take (length todo) (drop (Suc i) ?es)"
    by simp_all
  have "i < length ?es" using i by simp
  from release_step_in_step [OF step assms(3) this assms(4)] obtain vs aw' nxt'
    where rel: "release_step e (release_state_of p) = Ok (vs, aw', word_of_nat nxt')"
      and step': "in_step ?es (Suc i) aw' nxt'" and nxt': "nxt' = nxt + length vs"
      and vs: "\<forall>v \<in> set vs. verdict_logged ?es v"
    by (auto simp: e release_state_of_def nxt)
  have lab: "labelled nxt vs"
    using release_step_labelled [of e "pr_awaiting p" nxt vs aw'] rel step
    by (simp add: release_state_of_def nxt in_step_def)
  from prover_entry_total [OF assms(1) _ good rel] size obtain p' l'
    where out: "prover_entry L P e (p, l) = Some (Ok (), p', l')"
    by auto
  from prover_entry_refines [OF assms(1) size out] rel obtain fs
    where st: "release_state_of p' = (aw', word_of_nat nxt')" and b: "batched P vs p fs p'"
      and l': "ok l'" "entries l' = ?es @ fs"
    by auto
  have "e \<in> set ?es"
    using i by (simp add: e)
  moreover have "nxt' < 2 ^ 64"
    using step' committed_count_less [OF assms(4), of "Suc i"] by (fastforce simp: in_step_def)
  ultimately show ?thesis
    using that [OF out l' _ b _ i todo' cur nxt _ _ _ lab vs] rel st step' nxt'
    by (simp add: release_state_of_def)
qed

lemma prv_inv_entry:
  assumes "ok l" "prv_inv good (entries l) p (e # todo)" "well_ruled (entries l)"
    and "length (entries l) < 2 ^ 64"
  shows "\<exists>p' l' fs. prover_entry L P e (p, l) = Some (Ok (), p', l') \<and> ok l' \<and>
    entries l' = entries l @ fs \<and> (\<forall>f \<in> set fs. proof_fine P (pr_batch_size p) (entries l) f) \<and>
    prv_inv good (entries l') p' todo \<and> pr_batch_size p' = pr_batch_size p"
proof -
  let ?es = "entries l"
  from prv_entry_effect [OF assms] obtain i nxt vs fs p' l'
    where out: "prover_entry L P e (p, l) = Some (Ok (), p', l')" "ok l'" "entries l' = ?es @ fs"
      and b: "batched P vs p fs p'" and i: "Suc (i + length todo) \<le> length ?es"
      and todo: "todo = take (length todo) (drop (Suc i) ?es)"
      and cur: "pr_cursor p = position_of (Suc (i + length todo))"
      and nxt: "pr_next_slot p = word_of_nat nxt" "pr_next_slot p' = word_of_nat (nxt + length vs)"
      and step: "in_step ?es (Suc i) (pr_awaiting p') (nxt + length vs)" and bound: "nxt + length vs < 2 ^ 64"
      and vs: "labelled nxt vs" "\<forall>v \<in> set vs. verdict_logged ?es v"
    by metis
  from bound have "nxt < 2 ^ 64" by simp
  note facts = prv_inv_pending [OF assms(2-4) nxt(1) this]
  note fine = batched_fine [OF b vs facts]
  have "prv_inv good ?es p' todo"
    using fine step nxt todo i cur b batched_sizes [OF b facts(2)] batched_good [OF b] assms(2)
    by (intro prv_invI [of "Suc i" _ _ _ "nxt + length vs"]) (simp_all add: prv_inv_def batched_def)
  with out fine b show ?thesis
    using prv_inv_append [of good ?es p' todo fs] by (auto simp: batched_def)
qed

end

end
