(* ===== verification/Pipeline_Safety.thy ===== *)
theory Pipeline_Safety
  imports Pipeline_Tasks
begin

text \<open>
  The invariant of the whole pipeline, true at the start and kept by every step of a task; and that
  no step of a task can fail where it holds. \<open>Pipeline_Restart\<close> adds the restarts.
\<close>

section \<open>The invariant\<close>

definition proofs_fine :: "keccak \<Rightarrow> nat \<Rightarrow> entry list \<Rightarrow> bool" where
  "proofs_fine K b es \<longleftrightarrow>
     (\<forall>e \<in> set es. proved_upto e \<noteq> None \<longrightarrow> proof_fine (mock_prove_ops K) b es e)"

definition pipe_inv :: "keccak \<Rightarrow> guarantee_config \<Rightarrow> measurement \<Rightarrow> nat \<Rightarrow> pipeline \<Rightarrow> bool" where
  "pipe_inv K g m b s \<longleftrightarrow>
     log_fits (pl_log s) \<and> gate_synced K g (pl_gate s) (pl_entries s) \<and>
     seq_inv K g (pl_entries s) (pl_seq s) (pl_outbox s) \<and>
     (\<forall>e \<in> set (pl_outbox s). is_seq_entry e) \<and>
     att_inv K m (pl_entries s) (pl_att s) (pl_att_todo s) \<and>
     prv_inv mock_latency_ok (pl_entries s) (pl_prv s) (pl_prv_todo s) \<and>
     pr_batch_size (pl_prv s) = b \<and> well_ruled (pl_entries s) \<and>
     proofs_fine K b (pl_entries s) \<and>
     (\<exists>i \<le> length (pl_entries s). pl_proj s = project g (take i (pl_entries s)))"

text \<open>The part that no task's own state enters.\<close>

definition log_inv :: "keccak \<Rightarrow> nat \<Rightarrow> entry list \<Rightarrow> bool" where
  "log_inv K b es \<longleftrightarrow> well_ruled es \<and> proofs_fine K b es"

lemma proof_fine_append: "proof_fine P b es e \<Longrightarrow> proof_fine P b (es @ fs) e"
  unfolding proof_fine_def by (metis verdict_logged_append)

lemma proofs_fine_append:
  "proofs_fine K b es \<Longrightarrow> proved_upto e = None \<Longrightarrow> proofs_fine K b (es @ [e])"
  by (auto simp: proofs_fine_def intro: proof_fine_append)

lemma proofs_fine_proofs:
  "proofs_fine K b es \<Longrightarrow> \<forall>f \<in> set fs. proof_fine (mock_prove_ops K) b es f \<Longrightarrow> proofs_fine K b (es @ fs)"
  by (auto simp: proofs_fine_def intro: proof_fine_append)

lemma proj_append:
  "\<exists>i \<le> length es. p = project g (take i es) \<Longrightarrow> \<exists>i \<le> length (es @ fs). p = project g (take i (es @ fs))"
  by (metis (no_types, lifting) append_Nil2 diff_is_0_eq length_append take0 take_append trans_le_add1)

lemma proof_entry_kind:
  "proof_fine P b es e \<Longrightarrow>
     received_of e = None \<and> \<not> is_seq_entry e \<and> ruled_slot e = None \<and> slot_of_commit e = None"
  by (auto simp: proof_fine_def discharged_def is_seq_entry_def)

lemma quiet_appends:
  assumes "\<forall>e \<in> set fs. received_of e = None \<and> \<not> is_seq_entry e \<and> ruled_slot e = None \<and> slot_of_commit e = None"
  shows "gate_synced K g a (es @ fs) = gate_synced K g a es"
    and "seq_inv K g es q ob \<Longrightarrow> seq_inv K g (es @ fs) q ob"
    and "att_inv K m es at todo \<Longrightarrow> att_inv K m (es @ fs) at todo"
    and "well_ruled es \<Longrightarrow> well_ruled (es @ fs)"
  using assms
proof (induction fs rule: rev_induct)
  case Nil
  { case 1 then show ?case by simp }
  { case 2 then show ?case by simp }
  { case 3 then show ?case by simp }
  { case 4 then show ?case by simp }
next
  case (snoc f fs)
  { case 1
    with snoc(1) gate_synced_other [of f K g a "es @ fs"] show ?case by simp }
  { case 2
    with snoc(2) seq_inv_append [of K g "es @ fs" q ob f] show ?case by simp }
  { case 3
    with snoc(3) att_inv_append [of K m "es @ fs" at todo f] show ?case by simp }
  { case 4
    with well_ruled_other [of es "fs @ [f]"] show ?case by simp }
qed

section \<open>Every step keeps it\<close>

lemma pipe_inv_submit:
  assumes "pipe_inv K g m b s" "log_fits l"
    and "admit_and_append mem_ops K intent now_ms (pl_gate s, pl_log s) = (r, a, l)"
  shows "pipe_inv K g m b (s\<lparr>pl_log := l, pl_gate := a\<rparr>)"
proof -
  let ?es = "pl_entries s"
  have sync: "gate_synced K g a (ml_entries l)"
    using mem.admit_synced [OF TrueI _ assms(3)] assms(1) by (simp add: pipe_inv_def)
  from mem.admit_outcome [OF TrueI assms(3)] consider "ml_entries l = ?es"
    | e where "ml_entries l = ?es @ [e]" "received_of e \<noteq> None"
    by (cases r) fastforce+
  then show ?thesis
  proof cases
    case 1
    with assms(1,2) sync show ?thesis by (simp add: pipe_inv_def)
  next
    case 2
    then have "\<not> is_seq_entry e" "ruled_slot e = None" "slot_of_commit e = None" "proved_upto e = None"
      by (cases e; simp add: is_seq_entry_def)+
    with 2 assms sync show ?thesis
      using proj_append [of ?es "pl_proj s" g "[e]"]
      by (simp add: pipe_inv_def seq_inv_append att_inv_append prv_inv_append well_ruled_other
          proofs_fine_append)
  qed
qed

lemma pipe_inv_seq_append:
  assumes "pipe_inv K g m b s" "pl_outbox s = e # es" "log_fits l"
    and "lg_append mem_ops e (pl_log s) = (Ok p, l)"
  shows "pipe_inv K g m b (s\<lparr>pl_log := l, pl_outbox := es\<rparr>)"
proof -
  have l: "ml_entries l = pl_entries s @ [e]"
    using assms(4) by (auto simp: mem_append_eq)
  have "is_seq_entry e"
    using assms(1,2) by (simp add: pipe_inv_def)
  then have kind: "received_of e = None" "ruled_slot e = None" "proved_upto e = None"
    by (cases e; simp add: is_seq_entry_def)+
  have seq: "seq_inv K g (pl_entries s @ [e]) (pl_seq s) es"
    using seq_inv_emit assms(1,2) by (simp add: pipe_inv_def)
  then obtain n where "committed_slots ((pl_entries s @ [e]) @ es) = slot_run 0 n"
    unfolding seq_inv_def by blast
  then have "committed_slots (pl_entries s @ [e]) @ committed_slots es = slot_run 0 n"
    by (simp only: committed_slots_simps(3))
  then have "well_ruled (pl_entries s @ [e])"
    using well_ruled_commit [OF _ _ kind(2)] slot_run_prefix assms(1) unfolding pipe_inv_def
    by (metis add_0)
  with assms kind seq l show ?thesis
    using proj_append [of "pl_entries s" "pl_proj s" g "[e]"]
    by (simp add: pipe_inv_def gate_synced_other att_inv_append prv_inv_append proofs_fine_append)
qed

lemma pipe_inv_att_rule:
  assumes "pipe_inv K g m b s" "pl_att_todo s = pe # pes" "log_fits l"
    and "att_process mem_ops K (mock_attest K) pe (pl_att s, pl_log s) = (Ok (), a, l)"
  shows "pipe_inv K g m b (s\<lparr>pl_log := l, pl_att := a, pl_att_todo := pes\<rparr>)"
proof -
  let ?es = "pl_entries s"
  have "att_inv K m ?es (pl_att s) (pe # pes)"
    using assms(1,2) by (simp add: pipe_inv_def)
  from att_inv_rule [OF this assms(4)] obtain vs where l: "ml_entries l = ?es @ vs"
    and "length vs \<le> 1" and vs: "\<forall>v \<in> set vs. ruled_slot v \<noteq> None" and att: "att_inv K m (ml_entries l) a pes"
    by blast
  then consider "vs = []" | v where "vs = [v]"
    by (cases vs) auto
  then show ?thesis
  proof cases
    case 1
    with l have "ml_entries l = ?es" by simp
    with assms att show ?thesis by (simp add: pipe_inv_def)
  next
    case 2
    with vs have v: "ruled_slot v \<noteq> None" by simp
    then have kind: "received_of v = None" "\<not> is_seq_entry v" "proved_upto v = None"
      by (cases v; simp add: is_seq_entry_def)+
    from att l 2 obtain j where "j + length pes \<le> length (?es @ [v])"
      and ruled: "ruled_slots (?es @ [v]) = committed_slots (take j (?es @ [v]))"
      by (auto simp: att_inv_def simp del: ruled_slots_simps)
    have "committed_slots (take j (?es @ [v])) = committed_slots (take (min j (length ?es)) ?es)"
      using ruled_not_committed [OF v] by (cases "j - length ?es") (auto simp: min_def)
    with ruled have "well_ruled (?es @ [v])"
      using well_ruled_rule [OF _ v, of ?es "min j (length ?es)"] assms(1) by (simp add: pipe_inv_def)
    with assms kind att l 2 show ?thesis
      using proj_append [of ?es "pl_proj s" g "[v]"]
      by (simp add: pipe_inv_def gate_synced_other seq_inv_append prv_inv_append proofs_fine_append)
  qed
qed

text \<open>A prover step that appends the proofs \<open>fs\<close>.\<close>

lemma pipe_inv_prover:
  assumes "pipe_inv K g m b s" "log_fits l" "ml_entries l = pl_entries s @ fs"
    and "\<forall>f \<in> set fs. proof_fine (mock_prove_ops K) b (pl_entries s) f"
    and "prv_inv mock_latency_ok (ml_entries l) p todo" "pr_batch_size p = b"
  shows "pipe_inv K g m b (s\<lparr>pl_log := l, pl_prv := p, pl_prv_todo := todo\<rparr>)"
proof -
  have quiet: "\<forall>e \<in> set fs. received_of e = None \<and> \<not> is_seq_entry e \<and> ruled_slot e = None \<and> slot_of_commit e = None"
    using assms(4) proof_entry_kind by blast
  show ?thesis
    using assms quiet_appends [OF quiet] proj_append [of "pl_entries s" "pl_proj s" g fs]
    by (simp add: pipe_inv_def proofs_fine_proofs)
qed

lemma prv_entry_ok:
  assumes "pipe_inv K g m b s" "pl_prv_todo s = e # es"
  shows "\<exists>p l fs. prover_entry mem_ops (mock_prove_ops K) e (pl_prv s, pl_log s) = Some (Ok (), p, l) \<and>
    ml_entries l = pl_entries s @ fs \<and>
    (\<forall>f \<in> set fs. proof_fine (mock_prove_ops K) b (pl_entries s) f) \<and>
    prv_inv mock_latency_ok (ml_entries l) p es \<and> pr_batch_size p = b"
  using mock_proving.prv_inv_entry [OF TrueI, of "pl_log s" "pl_prv s" e es K] assms
  by (auto simp: pipe_inv_def log_fits_def)

lemma prv_timer_ok:
  assumes "pipe_inv K g m b s" "pl_prv_todo s = []"
  shows "\<exists>p l fs. prover_on_timer mem_ops (mock_prove_ops K) (pl_prv s, pl_log s) = Some (Ok (), p, l) \<and>
    ml_entries l = pl_entries s @ fs \<and>
    (\<forall>f \<in> set fs. proof_fine (mock_prove_ops K) b (pl_entries s) f) \<and>
    prv_inv mock_latency_ok (ml_entries l) p [] \<and> pr_batch_size p = b"
  using mock_proving.prover_timer_ok [OF TrueI, of "pl_log s" "pl_prv s" K] assms
  by (auto simp: pipe_inv_def prv_inv_idle)

lemma pipe_inv_step: "pipe_step K s s' \<Longrightarrow> pipe_inv K g m b s \<Longrightarrow> pipe_inv K g m b s'"
proof (induction rule: pipe_step.induct)
  case (step_submit intent now_ms s r a l)
  then show ?case using pipe_inv_submit by blast
next
  case (step_seq_read s q)
  then have "seq_inv K g (pl_entries s) q []"
    using seq_inv_read [of K g "pl_log s" "pl_seq s" q] by (simp add: pipe_inv_def log_fits_def)
  with step_seq_read show ?case by (simp add: pipe_inv_def)
next
  case (step_seq_close s now_ms)
  then have "seq_inv K g (pl_entries s) (seq_ticked (pl_seq s)) (tick_entries K now_ms (pl_seq s))"
    by (intro seq_inv_close) (simp add: pipe_inv_def)
  moreover have "is_seq_entry e" if "e \<in> set (tick_entries K now_ms (pl_seq s))" for e
    using that by (auto simp: tick_entries_def tick_expired_def tick_slot_def is_seq_entry_def)
  ultimately show ?case
    using step_seq_close by (simp add: pipe_inv_def)
next
  case (step_seq_append s e es p l)
  then show ?case using pipe_inv_seq_append by blast
next
  case (step_att_read s pes)
  then have "att_inv K m (pl_entries s) (pl_att s) pes"
    using att_inv_read [of K m "pl_entries s" "pl_att s"]
    by (simp add: pipe_inv_def log_fits_def mem_read_from_eq)
  with step_att_read show ?case by (simp add: pipe_inv_def)
next
  case (step_att_rule s pe pes a l)
  then show ?case using pipe_inv_att_rule by blast
next
  case (step_prv_read s pes)
  then show ?case
    using prv_inv_read [of mock_latency_ok "pl_entries s" "pl_prv s"]
    by (simp add: pipe_inv_def log_fits_def mem_read_from_eq)
next
  case (step_prv_entry s e es p l)
  with prv_entry_ok [OF step_prv_entry.prems step_prv_entry.hyps(1)] show ?case
    using pipe_inv_prover by auto
next
  case (step_prv_timer s p l)
  from prv_timer_ok [OF step_prv_timer.prems step_prv_timer.hyps(1)] step_prv_timer.hyps(2)
  obtain fs where "ml_entries l = pl_entries s @ fs"
    "\<forall>f \<in> set fs. proof_fine (mock_prove_ops K) b (pl_entries s) f"
    "prv_inv mock_latency_ok (ml_entries l) p []" "pr_batch_size p = b"
    by auto
  from pipe_inv_prover [OF step_prv_timer.prems step_prv_timer.hyps(3) this] step_prv_timer.hyps(1)
  show ?case by (simp add: pipe_inv_def)
next
  case (step_project s)
  then obtain i where i: "i \<le> length (pl_entries s)" "pl_proj s = project g (take i (pl_entries s))"
    by (auto simp: pipe_inv_def)
  have "projector_on_doorbell mem_ops (pl_log s) (pl_proj s) = project g (pl_entries s)"
    using mem.projector_outcome [OF TrueI, of "pl_log s" i g] i step_project
    by (simp add: pipe_inv_def log_fits_def mem_read_from_eq)
  with step_project show ?case
    by (auto simp: pipe_inv_def intro: exI [of _ "length (pl_entries s)"])
qed

section \<open>The start\<close>

lemma pipe_inv_start:
  assumes "mock_latency_ok backend" "0 < bc_batch_size cfg"
  shows "pipe_inv K g (me_measurement en) (bc_batch_size cfg) (pipeline_start g en backend cfg)"
proof -
  let ?s = "pipeline_start g en backend cfg"
  have es: "pl_entries ?s = []"
    by (simp add: pipeline_start_def mem_log_new_def)
  have "seq_inv K g [] (pl_seq ?s) []"
    by (rule seq_invI [where n = 0 and c = 0])
      (simp_all add: pipeline_start_def buffer_logged_def position_of_0 received_ids_def)
  moreover have "att_inv K (me_measurement en) [] (pl_att ?s) []"
    by (rule att_invI [where j = 0])
      (simp_all add: pipeline_start_def position_of_0 attestations_fine_def)
  moreover have "in_step [] 0 Map.empty 0"
    by (rule in_stepI [of 0 "[]" 0 0]) simp_all
  then have "prv_inv mock_latency_ok [] (pl_prv ?s) []"
    using assms
    by (intro prv_invI [of 0 _ _ _ 0]) (simp_all add: pipeline_start_def position_of_0)
  ultimately show ?thesis
    using es
    by (simp add: pipe_inv_def log_fits_def proofs_fine_def)
      (simp add: pipeline_start_def gate_synced_new)
qed

section \<open>Evidence\<close>

lemma pipe_inv_distinct_slots: "pipe_inv K g m b s \<Longrightarrow> distinct (committed_slots (pl_entries s))"
proof -
  assume inv: "pipe_inv K g m b s"
  obtain k n where n: "committed_slots (pl_entries s) = slot_run 0 n"
    using inv well_ruled_obtains [of "pl_entries s" "length (pl_entries s)"] by (auto simp: pipe_inv_def)
  then have "n < 2 ^ 64"
    using inv committed_count_less [of "pl_entries s" "length (pl_entries s)" n]
    by (simp add: pipe_inv_def log_fits_def)
  with n show ?thesis
    by (simp add: distinct_slot_run)
qed

text \<open>Every intent is placed once.\<close>

lemma pipe_inv_placed_once:
  assumes "pipe_inv K g m b s"
  shows "distinct (committed_ids (pl_entries s) @ expired_ids (pl_entries s))"
    and "set (committed_ids (pl_entries s) @ expired_ids (pl_entries s)) \<subseteq> set (received_ids (pl_entries s))"
proof -
  let ?es = "pl_entries s"
  from assms have gate: "gate_synced K g (pl_gate s) ?es"
    and "seq_inv K g ?es (pl_seq s) (pl_outbox s)"
    by (simp_all add: pipe_inv_def)
  then obtain c where c: "mset (received_ids (take c ?es)) =
      mset (committed_ids (?es @ pl_outbox s)) + mset (expired_ids (?es @ pl_outbox s)) +
      image_mset p_id (mset (sq_buffer (pl_seq s)))"
    by (auto simp: seq_inv_def)
  have split: "received_ids ?es = received_ids (take c ?es) @ received_ids (drop c ?es)"
    by (simp flip: received_ids_append)
  have "distinct (received_ids (take c ?es))"
    using gate split by (simp add: gate_synced_def admitted_ok_def)
  moreover have sub: "mset (committed_ids ?es @ expired_ids ?es) \<subseteq># mset (received_ids (take c ?es))"
    by (simp add: c)
  ultimately show "distinct (committed_ids ?es @ expired_ids ?es)"
    using distinct_sub_mset by blast
  have "set (committed_ids ?es @ expired_ids ?es) \<subseteq> set (received_ids (take c ?es))"
    using set_mset_mono [OF sub] by simp
  then show "set (committed_ids ?es @ expired_ids ?es) \<subseteq> set (received_ids ?es)"
    using split by auto
qed

text \<open>An expiry names the deadline of the intent it is about.\<close>

lemma pipe_inv_deadline:
  assumes "pipe_inv K g m b s" "IntentExpired i d t \<in> set (pl_entries s)"
    and "IntentReceived i intent r \<in> set (pl_entries s)"
  shows "d = deadline_for g r"
proof -
  let ?es = "pl_entries s"
  from assms(1) have "\<forall>e \<in> set ?es. seq_entry_fine K g ?es e" and adm: "distinct (received_ids ?es)"
    by (simp_all add: pipe_inv_def seq_inv_def gate_synced_def admitted_ok_def)
  from bspec [OF this(1) assms(2)] obtain intent' r' where "IntentReceived i intent' r' \<in> set ?es"
    "d = deadline_for g r'"
    by (auto simp: seq_entry_fine_def)
  with received_once [OF adm this(1) assms(3)] show ?thesis by simp
qed

text \<open>A preconfirmation in a receipt, traced to the log's entries.\<close>

lemma receipt_preconf_traced:
  assumes "distinct (committed_slots es)" "set fs \<subseteq> set es"
    and "receipt_of hex (project g fs) i now_ms = Some r" "rc_preconf r = Some pf"
  obtains ids p t q where "SlotCommitted (pf_slot pf) ids p (pf_commitment pf) t \<in> set es"
    "i \<in> set ids" "SlotAttested (pf_slot pf) q (pf_signature pf) \<in> set es" "pf_quote pf = hex q"
proof -
  obtain row where row: "pj_intents (project g fs) i = Some row"
    and "rc_preconf r = receipt_preconf hex row (Option.bind (ir_slot row) (slot_rows fs))"
    by (rule receipt_of_Some [OF assms(3)])
  with assms(4) obtain s sr pc where s: "ir_slot row = Some s" "slot_rows fs s = Some sr"
    and pc: "sr_preconf sr = Some pc"
    and pf: "pf = \<lparr>pf_slot = s, pf_commitment = sr_commitment sr, pf_quote = hex (pr_quote pc),
      pf_signature = pr_signature pc\<rparr>"
    by (auto simp: receipt_preconf_def split: bind_splits)
  from slot_rows_logged [OF s(2)] pc assms(2) obtain ids p
    where com: "SlotCommitted s ids p (sr_commitment sr) (sr_committed_at_ms sr) \<in> set es"
      and att: "SlotAttested s (pr_quote pc) (pr_signature pc) \<in> set es"
    by (auto simp: row_logged_def)
  from project_intents_logged [OF row] s(1) assms(2) obtain js p' c t j
    where "SlotCommitted s js p' c t \<in> set es" "j < length js" "js ! j = i"
    by (fastforce simp: intent_logged_def)
  moreover from committed_once [OF assms(1) com this(1)] have "js = ids" by simp
  ultimately have "i \<in> set ids" by auto
  with com att pf show ?thesis
    by (intro that [of ids p "sr_committed_at_ms sr" "pr_quote pc"]) simp_all
qed

end
