(* ===== verification/Pipeline_Run.thy ===== *)
theory Pipeline_Run
  imports Pipeline_Safety Startup
begin

text \<open>
  The pipeline \<open>main\<close> starts, and one concrete run of a pipeline: an intent is submitted, read,
  closed into slot 0, attested, projected and proven; and the same run cut off inside a slot close.
  The hash is a constant function, which every definition accepts.
\<close>

section \<open>The process\<close>

text \<open>
  \<open>main\<close> up to the point where its tasks run: \<open>FAIL_SLOTS\<close> is parsed, and every task is built on a new
  log. A task that cannot recover ends the process, as \<open>select!\<close> reports.
\<close>

datatype main_error = MainFailSlots fail_slots_error | MainDied

definition main_start :: "string option \<Rightarrow> main_error + pipeline" where
  "main_start env =
     try_bind (map_err MainFailSlots (fail_slots env))
       (\<lambda>ranges. ok_or MainDied
          (pipeline_recover main_guarantee main_enclave (main_backend ranges) main_batch_config mem_log_new))"

lemma main_backend_latency: "mock_latency_ok (main_backend ranges)"
  using mock_latency_ok_new
  by (simp add: mock_latency_ok_def main_backend_def prover_failing_on_def prover_with_latency_def
      mock_prover_new_def)

text \<open>
  Whatever the operator puts into \<open>FAIL_SLOTS\<close>, the process stops with the parser's error or starts the
  pipeline of the theorems below, with what they ask of its configuration.
\<close>

theorem main_starts:
  "main_start env =
     (case fail_slots env of
        Err e \<Rightarrow> Err (MainFailSlots e)
      | Ok ranges \<Rightarrow> Ok (pipeline_start main_guarantee main_enclave (main_backend ranges) main_batch_config))"
  "mock_latency_ok (main_backend ranges)" "0 < bc_batch_size main_batch_config"
  by (simp_all add: main_start_def pipeline_start_recovered main_backend_latency split: sum.split)
    (simp add: main_batch_config_def)

section \<open>A run\<close>

definition run_K :: keccak where "run_K = (\<lambda>_. array_repeat 0)"

definition run_start :: pipeline where
  "run_start = pipeline_start guarantee_default mock_enclave_new mock_prover_new main_batch_config"

definition run_id :: intent_id where "run_id = IntentId (array_repeat 0)"

definition run_commitment :: commitment where "run_commitment = Commitment (array_repeat 0)"

definition run_quote :: bytes where "run_quote = encode_quote 0 run_commitment MOCK_MEASUREMENT"

definition run_signature :: signature where "run_signature = Signature (array_repeat 0)"

definition run_received :: entry where "run_received = IntentReceived run_id (dummy 1) TEST_NOW"

definition run_committed :: entry where
  "run_committed = SlotCommitted 0 [run_id] (Position 1) run_commitment TEST_NOW"

definition run_attested :: entry where "run_attested = SlotAttested 0 run_quote run_signature"

lemma run_hashes:
  "intent_id_of run_K (dummy 1) = run_id" "commit run_K s is = run_commitment"
  "mock_over run_K bs = run_signature"
  by (simp_all add: intent_id_of_eq commit_eq mock_over_def hasher_finalize_def run_K_def run_id_def
      run_commitment_def run_signature_def Let_def)

lemma run_hypotheses: "mock_latency_ok mock_prover_new" "0 < bc_batch_size main_batch_config"
  by (simp_all add: mock_latency_ok_new main_batch_config_def)

lemma run_window: "deadline_for guarantee_default t = t"
  by (simp add: deadline_for_def window_size_def guarantee_default_def)

lemma run_check: "admission_check (admission_new guarantee_default) run_id (dummy 1) TEST_NOW = Ok ()"
  by (simp add: admission_check_Ok_iff intent_valid_def window_met_def nonce_advances_def admission_new_def
      MAX_SLIPPAGE_BPS_def run_window TEST_NOW_def)

lemma run_slot:
  "tick_entries run_K TEST_NOW
     \<lparr>sq_buffer = [pending_new run_id (dummy 1) TEST_NOW], sq_guarantee = guarantee_default,
      sq_cursor = Position 1, sq_next_slot = 0\<rparr> = [run_committed]"
  (is "tick_entries _ _ ?q = _")
proof -
  have part: "partition_expired (sq_buffer ?q) TEST_NOW guarantee_default = (sq_buffer ?q, [])"
    by (simp add: run_window)
  have "length (order_slot (sq_buffer ?q)) = 1" "set (order_slot (sq_buffer ?q)) = {run_id}"
    by (simp_all add: length_order_slot set_order_slot)
  then have "order_slot (sq_buffer ?q) = [run_id]"
    by (cases "order_slot (sq_buffer ?q)") auto
  with part show ?thesis
    by (simp add: tick_entries_def tick_expired_def tick_slot_def tick_intents_def run_hashes run_committed_def)
qed

lemma run_verdict:
  "att_process mem_ops run_K (mock_attest run_K) (p, run_committed) (\<lparr>at_enclave = en, at_cursor = c\<rparr>, l) =
     (Ok (), \<lparr>at_enclave = en\<lparr>me_seen := me_seen en @ [0]\<rparr>, at_cursor = position_next p\<rparr>,
      snd (mem_append run_attested l))"
  if "me_fail_slots en = {}" "me_measurement en = MOCK_MEASUREMENT" for en c p l
  using that
  by (simp add: att_process_def attest_slot_def mock_attest_def run_committed_def run_hashes Let_def
      run_attested_def run_quote_def mem_append_eq)

lemma run_skip:
  "att_process mem_ops K attest (p, run_received) (a, l) = (Ok (), a\<lparr>at_cursor := position_next p\<rparr>, l)"
  by (simp add: att_process_def run_received_def)

text \<open>The intent is submitted, and the sequencer reads it.\<close>

definition run_read :: sequencer where
  "run_read = \<lparr>sq_buffer = [pending_new run_id (dummy 1) TEST_NOW], sq_guarantee = guarantee_default,
     sq_cursor = Position 1, sq_next_slot = 0\<rparr>"

lemma run_reads:
  obtains l a where "ml_entries l = [run_received]"
    "reachable run_K run_start (run_start\<lparr>pl_log := l, pl_gate := a\<rparr>)"
    "reachable run_K run_start (run_start\<lparr>pl_log := l, pl_gate := a, pl_seq := run_read\<rparr>)"
proof -
  define l where "l = snd (mem_append run_received mem_log_new)"
  have l: "ml_entries l = [run_received]"
    by (simp add: l_def mem_append_eq mem_log_new_def)
  obtain a where admit: "admit_and_append mem_ops run_K (dummy 1) TEST_NOW (pl_gate run_start, pl_log run_start) =
      (Ok (run_id, position_of 0), a, l)"
    by (simp add: run_start_def pipeline_start_def admit_and_append_def run_hashes run_check Let_def l_def
        run_received_def mem_append_eq) (simp add: mem_log_new_def)
  let ?s = "run_start\<lparr>pl_log := l, pl_gate := a\<rparr>"
  have r: "reachable run_K run_start ?s"
    by (rule reach_step [OF reach_start step_submit [OF admit]]) (simp add: log_fits_def l)
  have "seq_on_doorbell mem_ops (pl_log ?s) (pl_seq ?s) = Ok run_read"
    by (simp add: run_start_def pipeline_start_def seq_on_doorbell_def mem_read_from_eq l
        run_received_def seq_consume_def run_read_def) (simp add: position_of_def)
  then have "reachable run_K run_start (?s\<lparr>pl_seq := run_read\<rparr>)"
    by (intro reach_step [OF r step_seq_read]) (simp_all add: run_start_def pipeline_start_def)
  with l r show ?thesis by (intro that) simp_all
qed

text \<open>The run, up to the attested slot in the read model.\<close>

lemma run_reaches:
  "\<exists>s. reachable run_K run_start s \<and> pl_entries s = [run_received, run_committed, run_attested] \<and>
     pl_proj s = project guarantee_default [run_received, run_committed, run_attested] \<and>
     pl_prv s = pl_prv run_start \<and> pl_prv_todo s = []"
proof -
  let ?g = guarantee_default
  obtain l1 a where l1: "ml_entries l1 = [run_received]"
    and r2: "reachable run_K run_start (run_start\<lparr>pl_log := l1, pl_gate := a, pl_seq := run_read\<rparr>)"
    by (rule run_reads)
  define s2 where "s2 = run_start\<lparr>pl_log := l1, pl_gate := a, pl_seq := run_read\<rparr>"
  have r2: "reachable run_K run_start s2"
    unfolding s2_def by (rule r2)
  define l2 where "l2 = snd (mem_append run_committed l1)"
  define l3 where "l3 = snd (mem_append run_attested l2)"
  have l2: "ml_entries l2 = [run_received, run_committed]"
    and l3: "ml_entries l3 = [run_received, run_committed, run_attested]"
    by (simp_all add: l1 l2_def l3_def mem_append_eq)
  have fits: "log_fits l2" "log_fits l3"
    by (simp_all add: log_fits_def l2 l3)
  define s3 where "s3 = s2\<lparr>pl_seq := seq_ticked (pl_seq s2), pl_outbox := tick_entries run_K TEST_NOW (pl_seq s2)\<rparr>"
  have r3: "reachable run_K run_start s3"
    unfolding s3_def by (intro reach_step [OF r2 step_seq_close]) (simp add: s2_def run_start_def pipeline_start_def)
  have out: "pl_outbox s3 = [run_committed]"
    by (simp add: s3_def s2_def run_slot [folded run_read_def])
  define s4 where "s4 = s3\<lparr>pl_log := l2, pl_outbox := []\<rparr>"
  have r4: "reachable run_K run_start s4"
    unfolding s4_def
    by (rule reach_step [OF r3 step_seq_append [OF out _ fits(1)]])
      (simp add: s3_def s2_def l2_def mem_append_eq)
  define s5 where "s5 = s4\<lparr>pl_att_todo := [(Position 0, run_received), (Position 1, run_committed)]\<rparr>"
  have att: "pl_att s4 = \<lparr>at_enclave = mock_enclave_new, at_cursor = position_ZERO\<rparr>" "pl_att_todo s4 = []"
    "pl_log s4 = l2"
    by (simp_all add: s4_def s3_def s2_def run_start_def pipeline_start_def)
  have r5: "reachable run_K run_start s5"
    unfolding s5_def
    by (intro reach_step [OF r4 step_att_read]) (simp_all add: att mem_read_from_eq l2 position_of_def)
  define s6 where "s6 = s5\<lparr>pl_log := l2, pl_att := \<lparr>at_enclave = mock_enclave_new, at_cursor = Position 1\<rparr>,
      pl_att_todo := [(Position 1, run_committed)]\<rparr>"
  have r6: "reachable run_K run_start s6"
    unfolding s6_def
  proof (rule reach_step [OF r5 step_att_rule [OF _ _ fits(1)]])
    show "pl_att_todo s5 = (Position 0, run_received) # [(Position 1, run_committed)]"
      by (simp add: s5_def)
    show "att_process mem_ops run_K (mock_attest run_K) (Position 0, run_received) (pl_att s5, pl_log s5) =
        (Ok (), \<lparr>at_enclave = mock_enclave_new, at_cursor = Position 1\<rparr>, l2)"
      by (simp add: s5_def att run_skip position_next_def)
  qed
  define s7 where "s7 = s6\<lparr>pl_log := l3,
      pl_att := \<lparr>at_enclave = mock_enclave_new\<lparr>me_seen := [0]\<rparr>, at_cursor = Position 2\<rparr>, pl_att_todo := []\<rparr>"
  have r7: "reachable run_K run_start s7"
    unfolding s7_def
  proof (rule reach_step [OF r6 step_att_rule [OF _ _ fits(2)]])
    show "pl_att_todo s6 = [(Position 1, run_committed)]"
      by (simp add: s6_def)
    show "att_process mem_ops run_K (mock_attest run_K) (Position 1, run_committed) (pl_att s6, pl_log s6) =
        (Ok (), \<lparr>at_enclave = mock_enclave_new\<lparr>me_seen := [0]\<rparr>, at_cursor = Position 2\<rparr>, l3)"
      by (simp add: s6_def run_verdict mock_enclave_new_def l3_def position_next_def)
  qed
  define s8 where "s8 = s7\<lparr>pl_proj := projector_on_doorbell mem_ops (pl_log s7) (pl_proj s7)\<rparr>"
  have "reachable run_K run_start s8"
    unfolding s8_def by (rule reach_step [OF r7 step_project])
  moreover have "pl_entries s8 = [run_received, run_committed, run_attested]"
    by (simp add: s8_def s7_def l3)
  moreover have "pl_proj s7 = project ?g (take 0 (ml_entries l3))" "pl_log s7 = l3"
    by (simp_all add: s7_def s6_def s5_def s4_def s3_def s2_def run_start_def pipeline_start_def)
  then have "pl_proj s8 = project ?g [run_received, run_committed, run_attested]"
    using mem.projector_outcome [OF TrueI, of l3 0 ?g] by (simp add: s8_def mem_read_from_eq l3)
  moreover have "pl_prv s8 = pl_prv run_start" "pl_prv_todo s8 = []"
    by (simp_all add: s8_def s7_def s6_def s5_def s4_def s3_def s2_def)
      (simp add: run_start_def pipeline_start_def)
  ultimately show ?thesis by blast
qed

text \<open>The prover reads the three entries, and its timer proves the slot.\<close>

definition run_contents :: committed_slot where
  "run_contents = \<lparr>cs_slot = 0, cs_intents = [run_id], cs_commitment = run_commitment\<rparr>"

lemma run_prover_entries:
  assumes "pr_batch_size p = 10" "pr_pending p = []" "pr_next_slot p = 0"
  shows "prover_entry mem_ops P run_received (p, l) = Some (Ok (), p, l)"
    and "prover_entry mem_ops P run_committed (p, l) =
      Some (Ok (), p\<lparr>pr_awaiting := (pr_awaiting p)(0 \<mapsto> run_contents)\<rparr>, l)"
    and "pr_awaiting p 0 = Some run_contents \<Longrightarrow> prover_entry mem_ops P run_attested (p, l) =
      Some (Ok (), p\<lparr>pr_awaiting := (pr_awaiting p)(0 := None), pr_pending := [run_contents],
        pr_next_slot := 1\<rparr>, l)"
  using assms
  by (simp_all add: prover_entry_def prover_fill_def run_received_def run_committed_def run_attested_def
      run_contents_def Let_def)

lemma run_timer:
  assumes "pr_pending p = [run_contents]" "pr_prover p = mock_prover_new"
  shows "\<exists>h p'. prover_on_timer mem_ops (mock_prove_ops K) (p, l) =
    Some (Ok (), p', snd (mem_append (SlotsProven 0 0 h) l))"
proof -
  have "duration_mul_fits (mp_per_slot mock_prover_new) 1"
    using mock_latency_ok_new by (simp add: mock_latency_ok_def)
  with assms show ?thesis
    by (intro exI [of _ "\<lparr>ph_backend = Mock, ph_proof = mock_chain K [run_contents],
          ph_public_inputs = mock_statement [run_contents], ph_vkey_hash = MOCK_VKEY_HASH\<rparr>"])
      (simp add: prover_on_timer_def prover_flush_def proof_entry_def mock_prove_def mock_prover_new_def
        run_contents_def Let_def mem_append_eq)
qed

lemma run_prover_step:
  assumes "reachable run_K run_start s" "log_fits (pl_log s)" "pl_prv_todo s = e # es"
    and "prover_entry mem_ops (mock_prove_ops run_K) e (pl_prv s, pl_log s) = Some (Ok (), p, pl_log s)"
  shows "reachable run_K run_start (s\<lparr>pl_prv := p, pl_prv_todo := es\<rparr>)"
  using reach_step [OF assms(1) step_prv_entry [OF assms(3,4,2)]] by simp

lemma run_final:
  "\<exists>s h. reachable run_K run_start s \<and>
     pl_entries s = [run_received, run_committed, run_attested, SlotsProven 0 0 h] \<and>
     pl_proj s = project guarantee_default (pl_entries s)"
proof -
  let ?es = "[run_received, run_committed, run_attested]"
  obtain s where r: "reachable run_K run_start s" and es: "pl_entries s = ?es"
    and proj: "pl_proj s = project guarantee_default ?es"
    and prv: "pl_prv s = pl_prv run_start" "pl_prv_todo s = []"
    using run_reaches by blast
  have p0: "pr_batch_size (pl_prv s) = 10" "pr_pending (pl_prv s) = []" "pr_next_slot (pl_prv s) = 0"
    "pr_prover (pl_prv s) = mock_prover_new" "pr_cursor (pl_prv s) = position_ZERO"
    by (simp_all add: prv run_start_def pipeline_start_def main_batch_config_def)
  have fits: "log_fits (pl_log s)"
    by (simp add: log_fits_def es)
  define p1 where "p1 = (pl_prv s)\<lparr>pr_cursor := position_of 3\<rparr>"
  define p2 where "p2 = p1\<lparr>pr_awaiting := (pr_awaiting p1)(0 \<mapsto> run_contents)\<rparr>"
  define p3 where "p3 = p2\<lparr>pr_awaiting := (pr_awaiting p2)(0 := None), pr_pending := [run_contents], pr_next_slot := 1\<rparr>"
  have pos: "lg_read_from mem_ops (pr_cursor (pl_prv s)) (pl_log s) = Ok (positioned ?es)"
    by (simp add: p0 mem_read_from_eq es)
  have "reachable run_K run_start (s\<lparr>pl_prv := p1, pl_prv_todo := ?es\<rparr>)"
    using reach_step [OF r step_prv_read [OF prv(2) pos]] by (simp add: p1_def numeral_eq_Suc)
  then have "reachable run_K run_start (s\<lparr>pl_prv := p1, pl_prv_todo := [run_committed, run_attested]\<rparr>)"
    using run_prover_step [of "s\<lparr>pl_prv := p1, pl_prv_todo := ?es\<rparr>" run_received _ p1]
      run_prover_entries(1) [of p1] fits
    by (simp add: p1_def p0)
  then have "reachable run_K run_start (s\<lparr>pl_prv := p2, pl_prv_todo := [run_attested]\<rparr>)"
    using run_prover_step [of "s\<lparr>pl_prv := p1, pl_prv_todo := [run_committed, run_attested]\<rparr>" run_committed _ p2]
      run_prover_entries(2) [of p1] fits
    by (simp add: p2_def p1_def p0)
  then have r3: "reachable run_K run_start (s\<lparr>pl_prv := p3, pl_prv_todo := []\<rparr>)"
    using run_prover_step [of "s\<lparr>pl_prv := p2, pl_prv_todo := [run_attested]\<rparr>" run_attested _ p3]
      run_prover_entries(3) [of p2] fits
    by (simp add: p3_def p2_def p1_def p0)
  have p3: "pr_pending p3 = [run_contents]" "pr_prover p3 = mock_prover_new"
    by (simp_all add: p3_def p2_def p1_def p0)
  from run_timer [OF p3] obtain h p' where timer: "prover_on_timer mem_ops (mock_prove_ops run_K) (p3, pl_log s) =
      Some (Ok (), p', snd (mem_append (SlotsProven 0 0 h) (pl_log s)))"
    by blast
  let ?l = "snd (mem_append (SlotsProven 0 0 h) (pl_log s))"
  have "log_fits ?l" "ml_entries ?l = ?es @ [SlotsProven 0 0 h]"
    by (simp_all add: log_fits_def mem_append_eq es)
  moreover from this(1) timer have step: "pipe_step run_K (s\<lparr>pl_prv := p3, pl_prv_todo := []\<rparr>)
      (s\<lparr>pl_prv := p3, pl_prv_todo := [], pl_log := ?l, pl_prv := p'\<rparr>)"
    by (intro step_prv_timer) simp_all
  moreover have "projector_on_doorbell mem_ops ?l (pl_proj s) = project guarantee_default (ml_entries ?l)"
    using mem.projector_outcome [OF TrueI, of ?l 3 guarantee_default] \<open>ml_entries ?l = _\<close>
    by (simp add: proj mem_read_from_eq)
  ultimately show ?thesis
    using reach_step [OF reach_step [OF r3 step] step_project]
    by (intro exI [of _ "s\<lparr>pl_prv := p3, pl_prv_todo := [], pl_log := ?l, pl_prv := p',
        pl_proj := projector_on_doorbell mem_ops ?l (pl_proj s)\<rparr>"] exI [of _ h]) simp
qed

lemma run_proves:
  "\<exists>s e. reachable run_K run_start s \<and> e \<in> set (pl_entries s) \<and> proved_upto e = Some 0"
proof -
  obtain s h where "reachable run_K run_start s"
    "pl_entries s = [run_received, run_committed, run_attested, SlotsProven 0 0 h]"
    using run_final by blast
  then show ?thesis
    by (intro exI [of _ s] exI [of _ "SlotsProven 0 0 h"]) simp
qed

text \<open>The run cut off while the sequencer writes a slot close: the intent expired, its slot is not committed.\<close>

definition run_expired :: entry where
  "run_expired = IntentExpired run_id TEST_NOW (TEST_NOW + 1)"

lemma run_tears: "\<exists>s. reachable run_K run_start s \<and> pl_entries s = [run_received, run_expired]"
proof -
  obtain l a where l: "ml_entries l = [run_received]"
    and r: "reachable run_K run_start (run_start\<lparr>pl_log := l, pl_gate := a, pl_seq := run_read\<rparr>)"
    by (rule run_reads)
  let ?s = "run_start\<lparr>pl_log := l, pl_gate := a, pl_seq := run_read\<rparr>"
  let ?c = "?s\<lparr>pl_seq := seq_ticked run_read, pl_outbox := tick_entries run_K (TEST_NOW + 1) run_read\<rparr>"
  have "pipe_step run_K ?s (?s\<lparr>pl_seq := seq_ticked (pl_seq ?s),
      pl_outbox := tick_entries run_K (TEST_NOW + 1) (pl_seq ?s)\<rparr>)"
    by (rule step_seq_close) (simp add: run_start_def pipeline_start_def)
  then have c: "reachable run_K run_start ?c"
    using reach_step [OF r] by simp
  have "tick_expired (TEST_NOW + 1) run_read = [run_expired]"
    by (simp add: tick_expired_def run_read_def run_window run_expired_def TEST_NOW_def)
  then have out: "pl_outbox ?c = run_expired # [tick_slot run_K (TEST_NOW + 1) run_read]"
    by (simp add: tick_entries_def)
  obtain p l' where l': "lg_append mem_ops run_expired (pl_log ?c) = (Ok p, l')"
    "ml_entries l' = [run_received, run_expired]"
    by (simp add: mem_append_eq l)
  have "log_fits l'"
    by (simp add: log_fits_def l'(2))
  from reach_step [OF c step_seq_append [OF out l'(1) this]] l'(2) show ?thesis
    by (intro exI [of _ "?c\<lparr>pl_log := l', pl_outbox := [tick_slot run_K (TEST_NOW + 1) run_read]\<rparr>"]) simp
qed

end
