(* ===== verification/Settlement.thy ===== *)
theory Settlement
  imports Pipeline_Safety
begin

text \<open>
  How far the log has settled: which slots the read model shows as ruled on or as ended (proven or
  failed), that the prover leaves no slot behind (every slot below its next one is in its batch or
  has ended), and that the log sequences and expires only intents it has received before. Each
  is kept by every step of the pipeline.
\<close>

section \<open>Ruled and ended slots\<close>

fun stage_ended :: "slot_stage \<Rightarrow> bool" where
  "stage_ended StageProven = True"
| "stage_ended (StageFailed _) = True"
| "stage_ended _ = False"

fun lifecycle_ended :: "lifecycle \<Rightarrow> bool" where
  "lifecycle_ended lifecycle.Expired = True"
| "lifecycle_ended FinalProven = True"
| "lifecycle_ended (Failed _) = True"
| "lifecycle_ended _ = False"

definition slot_ruled :: "entry list \<Rightarrow> u64 \<Rightarrow> bool" where
  "slot_ruled es s \<longleftrightarrow>
     (case slot_rows es s of None \<Rightarrow> False | Some row \<Rightarrow> sr_stage row \<noteq> StageCommitted)"

definition slot_ended :: "entry list \<Rightarrow> u64 \<Rightarrow> bool" where
  "slot_ended es s \<longleftrightarrow> (case slot_rows es s of None \<Rightarrow> False | Some row \<Rightarrow> stage_ended (sr_stage row))"

lemma slot_ruled_snoc: "slot_ruled es s \<Longrightarrow> slot_of_commit e \<noteq> Some s \<Longrightarrow> slot_ruled (es @ [e]) s"
  by (cases e)
    (auto simp: slot_ruled_def attest_row_def prove_row_def fail_row_def split: option.splits if_splits)

lemma slot_ended_snoc: "slot_ended es s \<Longrightarrow> slot_of_commit e \<noteq> Some s \<Longrightarrow> slot_ended (es @ [e]) s"
  by (cases e)
    (auto simp: slot_ended_def attest_row_def prove_row_def fail_row_def split: option.splits if_splits)

lemma slot_ended_append:
  "slot_ended es s \<Longrightarrow> s \<notin> set (committed_slots fs) \<Longrightarrow> slot_ended (es @ fs) s"
proof (induction fs rule: rev_induct)
  case (snoc f fs)
  then have "slot_of_commit f \<noteq> Some s" by auto
  with snoc slot_ended_snoc [of "es @ fs" s f] show ?case
    by (simp split: option.splits)
qed simp

lemma slot_ruled_append:
  "slot_ruled es s \<Longrightarrow> s \<notin> set (committed_slots fs) \<Longrightarrow> slot_ruled (es @ fs) s"
proof (induction fs rule: rev_induct)
  case (snoc f fs)
  then have "slot_of_commit f \<noteq> Some s" by auto
  with snoc slot_ruled_snoc [of "es @ fs" s f] show ?case
    by (simp split: option.splits)
qed simp

lemma slot_rules:
  assumes "s \<in> set (committed_slots es)" "ruled_slot e = Some s"
  shows "slot_ruled (es @ [e]) s" "\<And>r. e = AttestFailed s r \<Longrightarrow> slot_ended (es @ [e]) s"
proof -
  from assms(1) have "slot_rows es s \<noteq> None"
    by (simp add: slot_rows_None)
  then obtain row where "slot_rows es s = Some row" by auto
  then show "slot_ruled (es @ [e]) s" "\<And>r. e = AttestFailed s r \<Longrightarrow> slot_ended (es @ [e]) s"
    using assms(2)
    by (cases e; auto simp: slot_ruled_def slot_ended_def attest_row_def fail_row_def)+
qed

text \<open>The range an entry ends.\<close>

fun ends :: "entry \<Rightarrow> u64 \<Rightarrow> bool" where
  "ends (SlotsProven a b _) s \<longleftrightarrow> a \<le> s \<and> s \<le> b"
| "ends (ProveFailed a b _) s \<longleftrightarrow> a \<le> s \<and> s \<le> b"
| "ends _ s \<longleftrightarrow> False"

lemma slot_ends: "slot_ruled es s \<Longrightarrow> ends e s \<Longrightarrow> slot_ended (es @ [e]) s"
  by (cases e)
    (auto simp: slot_ruled_def slot_ended_def prove_row_def fail_row_def split: option.splits,
      metis slot_stage.exhaust stage_ended.simps(1,2))

text \<open>In a log that commits and rules in order, a slot ruled on is ruled on in the read model.\<close>

lemma well_ruled_fresh:
  assumes "well_ruled (es @ [e])" "length es < 2 ^ 64" "slot_of_commit e = Some s"
  shows "s \<notin> set (committed_slots es)"
proof -
  obtain k n where "committed_slots (es @ [e]) = slot_run 0 n"
    using well_ruled_obtains [OF assms(1), of "length (es @ [e])"] by auto
  then have run: "committed_slots es @ [s] = slot_run 0 n"
    using assms(3) by simp
  moreover have "n \<le> 2 ^ 64"
    using arg_cong [OF run, of length] length_committed_slots [of es] assms(2) by simp
  ultimately have "distinct (committed_slots es @ [s])"
    by (simp only: distinct_slot_run)
  then show ?thesis by simp
qed

lemma well_ruled_verdict:
  assumes "well_ruled (es @ [e])" "ruled_slot e = Some s"
  shows "s \<in> set (committed_slots es)"
proof -
  obtain k n where kn: "k \<le> n" "ruled_slots (es @ [e]) = slot_run 0 k"
    "committed_slots (es @ [e]) = slot_run 0 n"
    using well_ruled_obtains [OF assms(1), of "length (es @ [e])"] by auto
  have "committed_slots es = slot_run 0 n"
    using kn(3) ruled_not_committed [of e] assms(2) by simp
  moreover have "s \<in> set (slot_run 0 k)"
    using kn(2) assms(2) by (metis in_set_conv_decomp list.simps(5) option.simps(5) ruled_slots_simps(2,3))
  ultimately show ?thesis
    using kn(1) by (auto simp: mem_slot_run dest: less_le_trans)
qed

lemma verdicts_recorded:
  assumes "well_ruled es" "length es < 2 ^ 64"
  shows "(s \<in> set (ruled_slots es) \<longrightarrow> slot_ruled es s) \<and>
    (\<forall>r. AttestFailed s r \<in> set es \<longrightarrow> slot_ended es s)"
  using assms
proof (induction es rule: rev_induct)
  case Nil
  then show ?case by simp
next
  case (snoc e es)
  have wr: "well_ruled es"
    using snoc.prems(1) by (simp add: well_ruled_snoc)
  with snoc have IH: "s \<in> set (ruled_slots es) \<longrightarrow> slot_ruled es s"
    "\<forall>r. AttestFailed s r \<in> set es \<longrightarrow> slot_ended es s"
    by simp_all
  have fresh: "slot_of_commit e \<noteq> Some s" if "slot_rows es s \<noteq> None"
    using well_ruled_fresh [OF snoc.prems(1), of s] snoc.prems(2) that
    by (auto simp: slot_rows_None)
  have old: "slot_ruled es s \<Longrightarrow> slot_ruled (es @ [e]) s" "slot_ended es s \<Longrightarrow> slot_ended (es @ [e]) s"
    using slot_ruled_snoc [of es s e] slot_ended_snoc [of es s e] fresh
    by (auto simp: slot_ruled_def slot_ended_def split: option.splits)
  show ?case
  proof (cases "ruled_slot e = Some s")
    case True
    note new = slot_rules [OF well_ruled_verdict [OF snoc.prems(1) True] True]
    with IH old show ?thesis by auto
  next
    case False
    with IH old show ?thesis
      by (auto split: option.splits)
  qed
qed

section \<open>The prover leaves no slot behind\<close>

definition none_left :: "entry list \<Rightarrow> 'p prover \<Rightarrow> bool" where
  "none_left es p \<longleftrightarrow>
     (\<forall>s < pr_next_slot p. s \<in> cs_slot ` set (pr_pending p) \<or> slot_ended es s)"

lemma none_left_append:
  assumes "none_left es p" "\<And>s. s \<in> set (committed_slots es) \<Longrightarrow> s \<notin> set (committed_slots fs)"
  shows "none_left (es @ fs) p"
proof -
  have "slot_ended (es @ fs) s" if "slot_ended es s" for s
  proof (rule slot_ended_append [OF that])
    have "slot_rows es s \<noteq> None"
      using that by (auto simp: slot_ended_def split: option.splits)
    then show "s \<notin> set (committed_slots fs)"
      using assms(2) by (simp add: slot_rows_None)
  qed
  with assms(1) show ?thesis by (auto simp: none_left_def)
qed

text \<open>A proof entry ends every slot of its batch.\<close>

lemma batch_ends:
  assumes "discharged P batch f" "map cs_slot batch = slot_run a b" "b \<le> 2 ^ 64" "c \<in> set batch"
  shows "ends f (cs_slot c)"
proof -
  from assms(4) have ne: "batch \<noteq> []" by auto
  from slot_run_ends [OF assms(2) this] obtain b' where b: "b = Suc b'"
    "cs_slot (hd batch) = word_of_nat a" "cs_slot (last batch) = word_of_nat b'"
    by blast
  moreover have "cs_slot c \<in> set (slot_run a b)"
    using assms(4) by (simp flip: assms(2))
  then obtain m where "a \<le> m" "m \<le> b'" "cs_slot c = word_of_nat m"
    by (auto simp: mem_slot_run b(1) less_Suc_eq_le)
  ultimately show ?thesis
    using assms(1,3) b(2,3) by (auto simp: discharged_def b(1) word_le_nat_alt unat_of_nat64)
qed

lemma logged_ruled:
  assumes "well_ruled es" "length es < 2 ^ 64" "verdict_logged es (Some c)"
  shows "slot_ruled es (cs_slot c)"
proof -
  from assms(3) obtain q g where "SlotAttested (cs_slot c) q g \<in> set es"
    by (auto simp: verdict_logged_def)
  then have "cs_slot c \<in> set (ruled_slots es)"
    by (force simp: ruled_slots_def mem_map_filter)
  with verdicts_recorded [OF assms(1,2)] show ?thesis by blast
qed

lemma batch_slots_end:
  assumes "well_ruled es" "length es < 2 ^ 64" "\<forall>c \<in> set batch. verdict_logged es (Some c)"
    and "discharged P batch f" "map cs_slot batch = slot_run a b" "b \<le> 2 ^ 64" "s \<in> cs_slot ` set batch"
  shows "slot_ended (es @ [f]) s"
proof -
  from assms(7) obtain c where "c \<in> set batch" "s = cs_slot c" by auto
  with slot_ends [OF logged_ruled [OF assms(1,2)] batch_ends [OF assms(4-6)]] assms(3) show ?thesis
    by blast
qed

text \<open>What one entry releases, and the at most one batch it closes.\<close>

lemma release_step_cases:
  assumes "release_step e (aw, n) = Ok (vs, aw', n')"
  obtains (nothing) "vs = []" "n' = n"
  | (contents) c where "vs = [Some c]" "n' = n + 1"
  | (failed) r where "vs = [None]" "n' = n + 1" "e = AttestFailed n r"
  using assms by (cases e) (auto split: if_splits option.splits)

lemma batch_plan_one:
  assumes "batch_plan b cur vs = (bs, r)" "length vs \<le> 1"
  shows "(bs = [] \<and> r = cur @ List.map_filter id vs) \<or> (bs = [cur @ List.map_filter id vs] \<and> r = [])"
proof (cases vs)
  case (Cons v ws)
  with assms show ?thesis
    by (cases v) (auto simp: map_filter_simps split: if_splits)
qed (use assms in \<open>simp add: map_filter_simps\<close>)

context proof_system
begin

lemma batched_cases:
  assumes step: "release_step e (release_state_of p) = Ok (vs, release_state_of p')"
    and b: "batched P vs p fs p'" and lab: "labelled nxt vs"
    and run: "map cs_slot (pr_pending p) = slot_run (nxt - length (pr_pending p)) nxt"
    and size: "length (pr_pending p) < pr_batch_size p"
  obtains (kept) "fs = []" "pr_pending p' = pr_pending p @ List.map_filter id vs"
  | (closed) f m where "fs = [f]" "pr_pending p' = []" "pr_pending p @ List.map_filter id vs \<noteq> []"
      "discharged P (pr_pending p @ List.map_filter id vs) f"
      "map cs_slot (pr_pending p @ List.map_filter id vs) = slot_run (nxt - length (pr_pending p)) m"
      "m \<le> nxt + length vs"
proof -
  let ?cur = "pr_pending p @ List.map_filter id vs"
  have step': "release_step e (pr_awaiting p, pr_next_slot p) = Ok (vs, pr_awaiting p', pr_next_slot p')"
    using step by (simp add: release_state_of_def)
  then have one: "length vs \<le> 1"
    by (cases rule: release_step_cases) simp_all
  from b obtain bs where plan: "batch_plan (pr_batch_size p) (pr_pending p) vs = (bs, pr_pending p')"
    and runs: "run_batches P bs (pr_prover p) = Some (fs, pr_prover p')"
    by (auto simp: batched_def)
  have "\<exists>m. map cs_slot ?cur = slot_run (nxt - length (pr_pending p)) m \<and> m \<le> nxt + length vs"
    using step'
  proof (cases rule: release_step_cases)
    case (contents c)
    with run lab show ?thesis
      by (intro exI [of _ "Suc nxt"]) (simp add: map_filter_simps slot_run_Suc)
  qed (use run in \<open>auto simp: map_filter_simps intro!: exI [of _ nxt]\<close>)
  then obtain m where m: "map cs_slot ?cur = slot_run (nxt - length (pr_pending p)) m" "m \<le> nxt + length vs"
    by blast
  from batch_plan_one [OF plan one] show ?thesis
  proof
    assume "bs = [] \<and> pr_pending p' = ?cur"
    with runs show ?thesis by (intro kept) simp_all
  next
    assume closes: "bs = [?cur] \<and> pr_pending p' = []"
    with run_batches_discharged [OF runs] obtain f where "fs = [f]" "discharged P ?cur f"
      by (auto simp: list_all2_Cons1)
    moreover have "?cur \<noteq> []"
      using batch_plan_sizes [OF plan size] closes by auto
    ultimately show ?thesis
      using closes m by (intro closed) simp_all
  qed
qed

lemma none_left_batched:
  assumes left: "none_left es p" and wr: "well_ruled es" "length es < 2 ^ 64" and e: "e \<in> set es"
    and step: "release_step e (release_state_of p) = Ok (vs, release_state_of p')"
    and b: "batched P vs p fs p'" and nxt: "pr_next_slot p = word_of_nat nxt" "nxt + length vs < 2 ^ 64"
    and size: "length (pr_pending p) < pr_batch_size p"
    and run: "map cs_slot (pr_pending p) = slot_run (nxt - length (pr_pending p)) nxt"
    and pend: "\<forall>c \<in> set (pr_pending p). verdict_logged es (Some c)"
    and vs: "\<forall>v \<in> set vs. verdict_logged es v" "labelled nxt vs"
  shows "none_left (es @ fs) p' \<and> length fs \<le> 1"
proof -
  let ?cur = "pr_pending p @ List.map_filter id vs"
  have step': "release_step e (pr_awaiting p, pr_next_slot p) = Ok (vs, pr_awaiting p', pr_next_slot p')"
    using step by (simp add: release_state_of_def)
  have cur: "\<forall>c \<in> set ?cur. verdict_logged es (Some c)"
    using pend vs(1) by (auto simp: mem_map_filter)
  have covered: "length fs \<le> 1 \<and> committed_slots fs = [] \<and>
      (\<forall>s \<in> cs_slot ` set ?cur. s \<in> cs_slot ` set (pr_pending p') \<or> slot_ended (es @ fs) s)"
    using step b vs(2) run size
  proof (cases rule: batched_cases)
    case kept
    then show ?thesis by simp
  next
    case (closed f m)
    with nxt(2) have "slot_ended (es @ [f]) s" if "s \<in> cs_slot ` set ?cur" for s
      using batch_slots_end [OF wr cur closed(4,5) _ that] by simp
    moreover have "committed_slots [f] = []"
      using closed(4) by (auto simp: discharged_def)
    ultimately show ?thesis using closed(1) by simp
  qed
  then have kept: "slot_ended es s \<Longrightarrow> slot_ended (es @ fs) s" for s
    by (intro slot_ended_append) simp_all
  have "s \<in> cs_slot ` set (pr_pending p') \<or> slot_ended (es @ fs) s" if s: "s < pr_next_slot p'" for s
  proof (cases "s < pr_next_slot p")
    case True
    with left consider "s \<in> cs_slot ` set ?cur" | "slot_ended es s"
      by (auto simp: none_left_def)
    then show ?thesis
      using kept covered by cases blast+
  next
    case False
    have new: "s = pr_next_slot p" if "pr_next_slot p' = pr_next_slot p + 1"
      using s False that by (metis antisym_conv3 inc_le linorder_not_le)
    from step' show ?thesis
    proof (cases rule: release_step_cases)
      case nothing
      with s False show ?thesis by simp
    next
      case (contents c)
      with vs(2) nxt(1) new have "s \<in> cs_slot ` set ?cur"
        by (simp add: map_filter_simps)
      with covered show ?thesis by blast
    next
      case (failed r)
      with new e have "AttestFailed s r \<in> set es" by simp
      with verdicts_recorded [OF wr] kept show ?thesis by blast
    qed
  qed
  with covered show ?thesis by (simp add: none_left_def)
qed

end

context proving
begin

lemma none_left_entry:
  assumes "ok l" "prv_inv good (entries l) p (e # todo)" "well_ruled (entries l)"
    and "length (entries l) < 2 ^ 64" "none_left (entries l) p"
    and "prover_entry L P e (p, l) = Some (Ok (), p', l')"
  shows "none_left (entries l') p' \<and> pr_cursor p' = pr_cursor p \<and>
    (\<exists>fs. entries l' = entries l @ fs \<and> length fs \<le> 1)"
proof -
  from prv_entry_effect [OF assms(1-4)] obtain nxt vs fs p1 l1
    where "prover_entry L P e (p, l) = Some (Ok (), p1, l1)"
      "entries l1 = entries l @ fs" and e: "e \<in> set (entries l)"
      and "release_step e (release_state_of p) = Ok (vs, release_state_of p1)"
      "batched P vs p fs p1" and nxt: "pr_next_slot p = word_of_nat nxt" "nxt + length vs < 2 ^ 64"
      and vs: "labelled nxt vs" "\<forall>v \<in> set vs. verdict_logged (entries l) v"
    by metis
  with assms(6) have l': "entries l' = entries l @ fs" and b: "batched P vs p fs p'"
    and step: "release_step e (release_state_of p) = Ok (vs, release_state_of p')"
    by simp_all
  from nxt(2) have "nxt < 2 ^ 64" by simp
  note facts = prv_inv_pending [OF assms(2-4) nxt(1) this]
  from none_left_batched [OF assms(5,3,4) e step b nxt facts(2,3,4) vs(2,1)] l' b show ?thesis
    by (simp add: batched_def)
qed

lemma none_left_timer:
  assumes "ok l" "prv_inv good (entries l) p []" "well_ruled (entries l)"
    and "length (entries l) < 2 ^ 64" "none_left (entries l) p"
    and "prover_on_timer L P (p, l) = Some (Ok (), p', l')"
  shows "none_left (entries l') p' \<and> pr_pending p' = [] \<and> pr_cursor p' = pr_cursor p \<and>
    pr_next_slot p' = pr_next_slot p \<and> (\<exists>fs. entries l' = entries l @ fs \<and> length fs \<le> 1)"
proof (cases "pr_pending p = []")
  case True
  with assms(5,6) show ?thesis
    by (auto simp: prover_on_timer_def)
next
  case False
  let ?es = "entries l"
  from False assms(6) have "prover_flush L P (p, l) = Some (Ok (), p', l')"
    by (simp add: prover_on_timer_def)
  from prover_flush_outcome [OF assms(1) this] obtain f st
    where f: "proof_entry P (pr_pending p) (pr_prover p) = Some (f, st)"
      and p': "p' = p\<lparr>pr_pending := [], pr_prover := st\<rparr>" and l': "entries l' = ?es @ [f]"
    by auto
  have nxt: "pr_next_slot p = word_of_nat (unat (pr_next_slot p))" "unat (pr_next_slot p) < 2 ^ 64"
    using unsigned_less [of "pr_next_slot p"] by simp_all
  note facts = prv_inv_pending [OF assms(2-4) nxt]
  have "discharged P (pr_pending p) f"
    using proof_entry_discharged [OF f] by simp
  note ended = batch_slots_end [OF assms(3,4) facts(4) this facts(3) less_imp_le [OF nxt(2)]]
  have "committed_slots [f] = []"
    using proof_entry_discharged [OF f] by (auto simp: discharged_def)
  then have "slot_ended ?es s \<Longrightarrow> slot_ended (?es @ [f]) s" for s
    by (intro slot_ended_append) simp_all
  with ended assms(5) show ?thesis
    by (auto simp: p' l' none_left_def)
qed

end

section \<open>Only received intents are sequenced or expired\<close>

definition placed_ids :: "entry \<Rightarrow> intent_id set" where
  "placed_ids e = (case e of SlotCommitted _ ids _ _ _ \<Rightarrow> set ids | IntentExpired i _ _ \<Rightarrow> {i} | _ \<Rightarrow> {})"

definition received_first :: "entry list \<Rightarrow> bool" where
  "received_first es \<longleftrightarrow>
     (\<forall>n < length es. placed_ids (es ! n) \<subseteq> set (received_ids (take n es)))"

lemma received_first_snoc:
  "received_first (es @ [e]) \<longleftrightarrow> received_first es \<and> placed_ids e \<subseteq> set (received_ids es)"
  by (auto simp: received_first_def less_Suc_eq nth_append)

lemma received_first_other:
  "received_first es \<Longrightarrow> \<forall>f \<in> set fs. \<not> is_seq_entry f \<Longrightarrow> received_first (es @ fs)"
proof (induction fs rule: rev_induct)
  case (snoc f fs)
  then have "placed_ids f = {}"
    by (cases f) (simp_all add: placed_ids_def is_seq_entry_def)
  with snoc show ?case
    by (simp add: received_first_snoc flip: append_assoc)
qed simp

lemma placed_ids_eq: "placed_ids e = set (committed_ids [e]) \<union> set (expired_ids [e])"
  by (cases e) (simp_all add: placed_ids_def committed_ids_def expired_ids_def map_filter_simps)

lemma received_first_emit:
  assumes "received_first es" "seq_inv K g es q (e # outbox)"
  shows "received_first (es @ [e])"
proof -
  from assms(2) obtain c where "mset (received_ids (take c es)) =
      mset (committed_ids (es @ e # outbox)) + mset (expired_ids (es @ e # outbox)) +
      image_mset p_id (mset (sq_buffer q))"
    by (auto simp: seq_inv_def)
  then have "set_mset (mset (committed_ids (es @ e # outbox)) + mset (expired_ids (es @ e # outbox))) \<subseteq>
      set (received_ids (take c es))"
    by (metis mset_subset_eq_add_left set_mset_mono set_mset_mset)
  moreover have "es @ e # outbox = es @ [e] @ outbox" by simp
  moreover have "set (received_ids (take c es)) \<subseteq> set (received_ids es)"
    by (metis append_take_drop_id received_ids_append set_append Un_upper1)
  ultimately have "placed_ids e \<subseteq> set (received_ids es)"
    unfolding placed_ids_eq by (auto simp only: ids_simps set_mset_union set_mset_mset set_append)
  with assms(1) show ?thesis
    by (simp add: received_first_snoc)
qed

text \<open>The read model then has a place, or an expiry, for each of them.\<close>

lemma intent_step_keeps:
  assumes "intent_step i pos e (Some r) = Some r'"
  shows "ir_expired r \<noteq> None \<Longrightarrow> ir_expired r' \<noteq> None" "ir_slot r \<noteq> None \<Longrightarrow> ir_slot r' \<noteq> None"
  using assms by (cases e; auto simp: intent_step_def place_intents_apply split: if_splits)+

lemma placed_in_read_model:
  assumes "received_first es"
  shows "(i \<in> set (expired_ids es) \<longrightarrow> (\<exists>r. pj_intents (project g es) i = Some r \<and> ir_expired r \<noteq> None)) \<and>
    (i \<in> set (committed_ids es) \<longrightarrow> (\<exists>r. pj_intents (project g es) i = Some r \<and> ir_slot r \<noteq> None))"
  using assms
proof (induction es rule: rev_induct)
  case Nil
  then show ?case by simp
next
  case (snoc e es)
  then have IH: "i \<in> set (expired_ids es) \<longrightarrow> (\<exists>r. pj_intents (project g es) i = Some r \<and> ir_expired r \<noteq> None)"
    "i \<in> set (committed_ids es) \<longrightarrow> (\<exists>r. pj_intents (project g es) i = Some r \<and> ir_slot r \<noteq> None)"
    and e: "placed_ids e \<subseteq> set (received_ids es)"
    by (simp_all add: received_first_snoc)
  have new: "\<exists>r. pj_intents (project g es) i = Some r" if "i \<in> placed_ids e"
    using that e project_intents_None [of g es i] by auto
  have keep: "\<exists>r'. pj_intents (project g (es @ [e])) i = Some r' \<and>
      (ir_expired r \<noteq> None \<longrightarrow> ir_expired r' \<noteq> None) \<and> (ir_slot r \<noteq> None \<longrightarrow> ir_slot r' \<noteq> None)"
    if "pj_intents (project g es) i = Some r" for r
    using that intent_step_Some [of i "position_of (length es)" e r]
      intent_step_keeps [of i "position_of (length es)" e r]
    by (auto simp: project_snoc apply_intents)
  have here: "(i \<in> set (expired_ids [e]) \<longrightarrow> (\<exists>r. pj_intents (project g (es @ [e])) i = Some r \<and> ir_expired r \<noteq> None)) \<and>
    (i \<in> set (committed_ids [e]) \<longrightarrow> (\<exists>r. pj_intents (project g (es @ [e])) i = Some r \<and> ir_slot r \<noteq> None))"
    using new
    by (cases e)
      (auto simp: placed_ids_def committed_ids_def expired_ids_def map_filter_simps project_snoc
        apply_intents intent_step_def place_intents_apply)
  show ?case
  proof (intro conjI impI)
    assume "i \<in> set (expired_ids (es @ [e]))"
    then have "i \<in> set (expired_ids es) \<or> i \<in> set (expired_ids [e])" by simp
    then show "\<exists>r. pj_intents (project g (es @ [e])) i = Some r \<and> ir_expired r \<noteq> None"
      using IH(1) keep here by (elim disjE) (blast, blast)
  next
    assume "i \<in> set (committed_ids (es @ [e]))"
    then have "i \<in> set (committed_ids es) \<or> i \<in> set (committed_ids [e])" by simp
    then show "\<exists>r. pj_intents (project g (es @ [e])) i = Some r \<and> ir_slot r \<noteq> None"
      using IH(2) keep here by (elim disjE) (blast, blast)
  qed
qed

end
