(* ===== verification/Pipeline_Restart.thy ===== *)
theory Pipeline_Restart
  imports Settlement
begin

text \<open>
  Every reachable state, restarts included. A restart keeps nothing but the log, so what the tasks
  rebuild from it has to satisfy the invariants of the pipeline again. For that the log itself
  must tell where each task stood: the newest slot names what the sequencer had consumed, the
  rulings and the commits where the attester stood, and the proofs stay behind the prover.
\<close>

section \<open>The proofs stay behind the prover\<close>

definition proofs_behind :: "entry list \<Rightarrow> 'p prover \<Rightarrow> bool" where
  "proofs_behind es p \<longleftrightarrow>
     (\<forall>s \<in> set (proved_slots es). unat s + length (pr_pending p) < unat (pr_next_slot p))"

lemma proofs_behind_other:
  assumes "proofs_behind es p" "\<forall>f \<in> set fs. proved_upto f = None"
  shows "proofs_behind (es @ fs) p"
proof -
  from assms(2) have "proved_slots fs = []"
    by (induction fs) simp_all
  with assms(1) show ?thesis by (simp add: proofs_behind_def)
qed

lemma discharged_upto: "discharged P batch f \<Longrightarrow> proved_upto f = Some (cs_slot (last batch))"
  by (auto simp: discharged_def)

text \<open>The batch that one entry closes ends before the slot the prover moves on to.\<close>

context proof_system
begin

lemma batched_behind:
  assumes behind: "proofs_behind es p"
    and step: "release_step e (release_state_of p) = Ok (vs, release_state_of p')"
    and b: "batched P vs p fs p'"
    and nxt: "pr_next_slot p = word_of_nat nxt" "pr_next_slot p' = word_of_nat (nxt + length vs)"
    and bound: "nxt + length vs < 2 ^ 64" and lab: "labelled nxt vs"
    and run: "map cs_slot (pr_pending p) = slot_run (nxt - length (pr_pending p)) nxt"
    and size: "length (pr_pending p) < pr_batch_size p"
  shows "proofs_behind (es @ fs) p'"
proof -
  let ?cur = "pr_pending p @ List.map_filter id vs"
  have next': "unat (pr_next_slot p') = nxt + length vs" "unat (pr_next_slot p) = nxt"
    using bound nxt by (simp_all add: unat_of_nat64 del: of_nat_add)
  have old: "unat s + length (pr_pending p) < nxt" if "s \<in> set (proved_slots es)" for s
    using behind that next'(2) by (simp add: proofs_behind_def)
  have new: "length (List.map_filter id vs) \<le> length vs"
    by (simp add: map_filter_def)
  show ?thesis
    using step b lab run size
  proof (cases rule: batched_cases)
    case kept
    have "unat s + length (pr_pending p') < nxt + length vs" if "s \<in> set (proved_slots es)" for s
      using old [OF that] new by (simp add: kept(2))
    with kept(1) next'(1) show ?thesis by (simp add: proofs_behind_def)
  next
    case (closed f m)
    from slot_run_ends [OF closed(5,3)] obtain m' where "m = Suc m'" "cs_slot (last ?cur) = word_of_nat m'"
      by blast
    with closed(6) bound have "unat (cs_slot (last ?cur)) < nxt + length vs"
      by (simp add: unat_of_nat64)
    moreover have "unat s < nxt + length vs" if "s \<in> set (proved_slots es)" for s
      using old [OF that] by simp
    ultimately show ?thesis
      using closed(1,2) next'(1) discharged_upto [OF closed(4)] by (auto simp: proofs_behind_def)
  qed
qed

end

context proving
begin

lemma proofs_behind_entry:
  assumes "ok l" "prv_inv good (entries l) p (e # todo)" "well_ruled (entries l)"
    and "length (entries l) < 2 ^ 64" "proofs_behind (entries l) p"
    and "prover_entry L P e (p, l) = Some (Ok (), p', l')"
  shows "proofs_behind (entries l') p'"
proof -
  from prv_entry_effect [OF assms(1-4)] obtain nxt vs fs p1 l1
    where "prover_entry L P e (p, l) = Some (Ok (), p1, l1)" "entries l1 = entries l @ fs"
      and "release_step e (release_state_of p) = Ok (vs, release_state_of p1)" "batched P vs p fs p1"
      and nxt: "pr_next_slot p = word_of_nat nxt" "nxt + length vs < 2 ^ 64"
      and "pr_next_slot p1 = word_of_nat (nxt + length vs)" and vs: "labelled nxt vs"
    by metis
  with assms(6) have l': "entries l' = entries l @ fs" and b: "batched P vs p fs p'"
    and step: "release_step e (release_state_of p) = Ok (vs, release_state_of p')"
    and nxt': "pr_next_slot p' = word_of_nat (nxt + length vs)"
    by simp_all
  from nxt(2) have "nxt < 2 ^ 64" by simp
  note facts = prv_inv_pending [OF assms(2-4) nxt(1) this]
  from batched_behind [OF assms(5) step b nxt(1) nxt' nxt(2) vs facts(3,2)] l'
  show ?thesis by simp
qed

lemma proofs_behind_timer:
  assumes "ok l" "prv_inv good (entries l) p []" "well_ruled (entries l)"
    and "length (entries l) < 2 ^ 64" "proofs_behind (entries l) p"
    and "prover_on_timer L P (p, l) = Some (Ok (), p', l')"
  shows "proofs_behind (entries l') p'"
proof (cases "pr_pending p = []")
  case True
  with assms(5,6) show ?thesis
    by (auto simp: prover_on_timer_def)
next
  case False
  from False assms(6) have "prover_flush L P (p, l) = Some (Ok (), p', l')"
    by (simp add: prover_on_timer_def)
  from prover_flush_outcome [OF assms(1) this] obtain f st
    where f: "proof_entry P (pr_pending p) (pr_prover p) = Some (f, st)"
      and p': "p' = p\<lparr>pr_pending := [], pr_prover := st\<rparr>" and l': "entries l' = entries l @ [f]"
    by auto
  let ?n = "unat (pr_next_slot p)"
  have nxt: "pr_next_slot p = word_of_nat ?n" "?n < 2 ^ 64"
    using unsigned_less [of "pr_next_slot p"] by simp_all
  have "cs_slot (last (pr_pending p)) \<in> set (map cs_slot (pr_pending p))"
    using False by simp
  then have "cs_slot (last (pr_pending p)) \<in> set (slot_run (?n - length (pr_pending p)) ?n)"
    using prv_inv_pending(3) [OF assms(2-4) nxt] by simp
  then have "unat (cs_slot (last (pr_pending p))) < ?n"
    using nxt(2) by (auto simp: mem_slot_run unat_of_nat64)
  moreover have "proved_upto f = Some (cs_slot (last (pr_pending p)))"
    using proof_entry_discharged [OF f] discharged_upto by blast
  ultimately show ?thesis
    using assms(5) by (auto simp: proofs_behind_def p' l')
qed

end

section \<open>What settles is kept by every step\<close>

definition settle_inv :: "pipeline \<Rightarrow> bool" where
  "settle_inv s \<longleftrightarrow> none_left (pl_entries s) (pl_prv s) \<and> received_first (pl_entries s)"

lemma none_left_grow:
  assumes "none_left es p" "well_ruled (es @ fs)" "length fs \<le> 1" "length es < 2 ^ 64"
  shows "none_left (es @ fs) p"
proof (cases fs)
  case Nil
  with assms(1) show ?thesis by simp
next
  case (Cons f gs)
  with assms(3) have "fs = [f]" by simp
  with assms well_ruled_fresh [of es f] show ?thesis
    by (intro none_left_append) (auto split: option.splits)
qed

lemma pipe_inv_log:
  assumes "pipe_inv K g m b s"
  shows "log_fits (pl_log s)" "well_ruled (pl_entries s)" "length (pl_entries s) < 2 ^ 64"
  using assms by (simp_all only: pipe_inv_def log_fits_def)

lemma settle_inv_grow:
  assumes "settle_inv s" "log_fits (pl_log s)" "well_ruled (pl_entries s @ fs)" "length fs \<le> 1"
    and "\<forall>f \<in> set fs. \<not> is_seq_entry f"
    and "pl_entries s' = pl_entries s @ fs" "pl_prv s' = pl_prv s"
  shows "settle_inv s'"
  using assms none_left_grow [of "pl_entries s" "pl_prv s" fs] received_first_other [of "pl_entries s" fs]
  by (simp add: settle_inv_def log_fits_def)

lemma settle_inv_prover:
  assumes "settle_inv s" "pipe_inv K g m b s" "none_left (ml_entries l) p"
    and "ml_entries l = pl_entries s @ fs" "\<forall>f \<in> set fs. proof_fine (mock_prove_ops K) b (pl_entries s) f"
    and "pl_log s' = l" "pl_prv s' = p"
  shows "settle_inv s'"
  using assms received_first_other [of "pl_entries s" fs] proof_entry_kind
  unfolding settle_inv_def by fastforce

text \<open>What a submission and a ruling append.\<close>

lemma submit_appends:
  assumes "admit_and_append mem_ops K intent now_ms (pl_gate s, pl_log s) = (r, a, l)"
  shows "\<exists>fs. ml_entries l = pl_entries s @ fs \<and> length fs \<le> 1 \<and>
    (\<forall>f \<in> set fs. \<not> is_seq_entry f \<and> proved_upto f = None)"
proof (cases r)
  case (Inl x)
  with mem.admit_outcome [OF TrueI assms] show ?thesis by simp
next
  case (Inr ip)
  with mem.admit_outcome [OF TrueI assms] show ?thesis
    by (cases ip) (simp add: is_seq_entry_def)
qed

lemma rule_appends:
  assumes "pipe_inv K g m b s" "pl_att_todo s = pe # pes"
    and "att_process mem_ops K (mock_attest K) pe (pl_att s, pl_log s) = (Ok (), a, l)"
  shows "\<exists>vs. ml_entries l = pl_entries s @ vs \<and> length vs \<le> 1 \<and>
    (\<forall>v \<in> set vs. \<not> is_seq_entry v \<and> proved_upto v = None)"
proof -
  have "att_inv K m (pl_entries s) (pl_att s) (pe # pes)"
    using assms by (simp add: pipe_inv_def)
  moreover have "\<not> is_seq_entry v \<and> proved_upto v = None" if "ruled_slot v \<noteq> None" for v
    using that by (cases v) (simp_all add: is_seq_entry_def)
  ultimately show ?thesis
    using att_inv_rule [OF _ assms(3)] by blast
qed

lemma settle_inv_step:
  "pipe_step K s s' \<Longrightarrow> pipe_inv K g m b s \<Longrightarrow> settle_inv s \<Longrightarrow> settle_inv s'"
proof (induction rule: pipe_step.induct)
  case (step_submit intent now_ms s r a l)
  note inv' = pipe_inv_step [OF pipe_step.step_submit [OF step_submit.hyps] step_submit.prems(1)]
  from submit_appends [OF step_submit.hyps(1)] obtain fs where "ml_entries l = pl_entries s @ fs"
    "length fs \<le> 1" "\<forall>f \<in> set fs. \<not> is_seq_entry f"
    by blast
  then show ?case
    using step_submit.prems(2) pipe_inv_log(1) [OF step_submit.prems(1)] pipe_inv_log(2) [OF inv']
    by - (rule settle_inv_grow [of s fs], simp_all)
next
  case (step_seq_append s e es p l)
  note inv' = pipe_inv_step [OF pipe_step.step_seq_append [OF step_seq_append.hyps] step_seq_append.prems(1)]
  have l: "ml_entries l = pl_entries s @ [e]"
    using step_seq_append.hyps(2) by (auto simp: mem_append_eq)
  have "received_first (pl_entries s @ [e])"
    using step_seq_append received_first_emit [of "pl_entries s" K g "pl_seq s" e es]
    by (simp add: pipe_inv_def settle_inv_def)
  moreover have "none_left (pl_entries s @ [e]) (pl_prv s)"
    using step_seq_append.prems(2) pipe_inv_log(3) [OF step_seq_append.prems(1)] pipe_inv_log(2) [OF inv'] l
    by (simp add: none_left_grow settle_inv_def)
  ultimately show ?case by (simp add: settle_inv_def l)
next
  case (step_att_rule s pe pes a l)
  note inv' = pipe_inv_step [OF pipe_step.step_att_rule [OF step_att_rule.hyps] step_att_rule.prems(1)]
  from rule_appends [OF step_att_rule.prems(1) step_att_rule.hyps(1,2)] obtain vs
    where "ml_entries l = pl_entries s @ vs" "length vs \<le> 1" "\<forall>v \<in> set vs. \<not> is_seq_entry v"
    by blast
  then show ?case
    using step_att_rule.prems(2) pipe_inv_log(1) [OF step_att_rule.prems(1)] pipe_inv_log(2) [OF inv']
    by - (rule settle_inv_grow [of s vs], simp_all)
next
  case (step_prv_entry s e es p l)
  have "none_left (ml_entries l) p"
    using mock_proving.none_left_entry [OF TrueI, of "pl_log s" "pl_prv s" e es K p l] step_prv_entry
    by (simp add: pipe_inv_def settle_inv_def log_fits_def)
  with prv_entry_ok [OF step_prv_entry.prems(1) step_prv_entry.hyps(1)] step_prv_entry show ?case
    by (auto intro: settle_inv_prover)
next
  case (step_prv_timer s p l)
  have "none_left (ml_entries l) p"
    using mock_proving.none_left_timer [OF TrueI, of "pl_log s" "pl_prv s" K p l] step_prv_timer
    by (simp add: pipe_inv_def settle_inv_def log_fits_def)
  with prv_timer_ok [OF step_prv_timer.prems(1) step_prv_timer.hyps(1)] step_prv_timer show ?case
    by (auto intro: settle_inv_prover)
qed (simp_all add: settle_inv_def none_left_def)

lemma settle_inv_start: "settle_inv (pipeline_start g en backend cfg)"
  by (simp add: settle_inv_def pipeline_start_def none_left_def received_first_def mem_log_new_def)


section \<open>The log tells where the sequencer stood\<close>

lemma open_expired_simps [simp]:
  "open_expired [] = []"
  "open_expired (es @ [e]) = open_expired_step e (open_expired es)"
  by (simp_all add: open_expired_def)

lemma open_expired_logged: "i \<in> set (open_expired es) \<Longrightarrow> \<exists>d t. IntentExpired i d t \<in> set es"
proof (induction es rule: rev_induct)
  case (snoc e es)
  then show ?case by (cases e) auto
qed simp

definition seq_log_inv :: "entry list \<Rightarrow> bool" where
  "seq_log_inv es \<longleftrightarrow>
     (\<exists>c n. seq_progress es = (position_of c, word_of_nat n) \<and> c \<le> length es \<and>
        committed_slots es = slot_run 0 n \<and>
        mset (received_ids (take c es)) + mset (open_expired es) =
          mset (committed_ids es) + mset (expired_ids es))"

lemma seq_log_invI:
  assumes "seq_progress es = (position_of c, word_of_nat n)" "c \<le> length es"
    and "committed_slots es = slot_run 0 n"
    and "mset (received_ids (take c es)) + mset (open_expired es) =
      mset (committed_ids es) + mset (expired_ids es)"
  shows "seq_log_inv es"
  using assms unfolding seq_log_inv_def by blast

text \<open>What is left of a slot close in the outbox ends with the slot, and with it the sequencer's state.\<close>

definition outbox_ok :: "sequencer \<Rightarrow> entry list \<Rightarrow> bool" where
  "outbox_ok q ob \<longleftrightarrow>
     ob = [] \<or>
     (sq_buffer q = [] \<and>
      (\<exists>xs slot ids k t. ob = xs @ [SlotCommitted slot ids (sq_cursor q) k t] \<and>
         sq_next_slot q = slot + 1 \<and> committed_slots xs = []))"

lemma outbox_ok_tick: "outbox_ok (seq_ticked q) (tick_entries K now q)"
  by (simp add: outbox_ok_def seq_ticked_def tick_entries_def tick_slot_def committed_slots_tick_expired)

lemma outbox_ok_emit:
  assumes "outbox_ok q (e # es)"
  shows "outbox_ok q es"
    and "slot_of_commit e \<noteq> None \<Longrightarrow>
      es = [] \<and> sq_buffer q = [] \<and>
      (\<exists>slot ids k t. e = SlotCommitted slot ids (sq_cursor q) k t \<and> sq_next_slot q = slot + 1)"
proof -
  from assms obtain xs slot ids k t where ob: "e # es = xs @ [SlotCommitted slot ids (sq_cursor q) k t]"
    and q: "sq_buffer q = []" "sq_next_slot q = slot + 1" and xs: "committed_slots xs = []"
    by (auto simp: outbox_ok_def)
  show "outbox_ok q es"
    using ob q xs by (cases xs) (auto simp: outbox_ok_def split: option.splits)
  show "es = [] \<and> sq_buffer q = [] \<and>
      (\<exists>slot ids k t. e = SlotCommitted slot ids (sq_cursor q) k t \<and> sq_next_slot q = slot + 1)"
    if "slot_of_commit e \<noteq> None"
    using that ob q xs by (cases xs) auto
qed

lemma seq_log_inv_other:
  assumes "seq_log_inv es" "\<forall>f \<in> set fs. \<not> is_seq_entry f"
  shows "seq_log_inv (es @ fs)"
  using assms(2)
proof (induction fs rule: rev_induct)
  case Nil
  with assms(1) show ?case by simp
next
  case (snoc f fs)
  then have f: "\<not> is_seq_entry f" and "seq_log_inv (es @ fs)" by simp_all
  then obtain c n where inv: "seq_progress (es @ fs) = (position_of c, word_of_nat n)" "c \<le> length (es @ fs)"
    "committed_slots (es @ fs) = slot_run 0 n"
    "mset (received_ids (take c (es @ fs))) + mset (open_expired (es @ fs)) =
      mset (committed_ids (es @ fs)) + mset (expired_ids (es @ fs))"
    unfolding seq_log_inv_def by blast
  moreover have "seq_progress ((es @ fs) @ [f]) = seq_progress (es @ fs)"
    "open_expired ((es @ fs) @ [f]) = open_expired (es @ fs)"
    unfolding seq_progress_append [of "es @ fs"] open_expired_simps using f
    by (cases f; simp add: is_seq_entry_def)+
  moreover have "take c ((es @ fs) @ [f]) = take c (es @ fs)"
    using inv(2) by simp
  ultimately have "seq_log_inv ((es @ fs) @ [f])"
    using not_seq_entry [OF f]
    by (intro seq_log_invI [of _ c n])
      (simp_all only: ids_simps(3,4) [of "es @ fs"] committed_slots_simps(3) [of "es @ fs"], simp_all)
  then show ?case by simp
qed

lemma seq_log_inv_emit:
  assumes "seq_log_inv es" "outbox_ok q (e # ob)" "is_seq_entry e" "seq_inv K g es q (e # ob)"
  shows "seq_log_inv (es @ [e])"
proof (cases "slot_of_commit e")
  case None
  with assms(3) obtain i d t where e: "e = IntentExpired i d t"
    by (cases e) (simp_all add: is_seq_entry_def)
  then have "committed_ids [e] = []" "expired_ids [e] = [i]"
    by (simp_all add: committed_ids_def expired_ids_def map_filter_simps)
  moreover from assms(1) obtain c n where "seq_progress es = (position_of c, word_of_nat n)" "c \<le> length es"
    "committed_slots es = slot_run 0 n"
    "mset (received_ids (take c es)) + mset (open_expired es) =
      mset (committed_ids es) + mset (expired_ids es)"
    by (auto simp: seq_log_inv_def)
  ultimately show ?thesis
    by (intro seq_log_invI [of _ c n]) (simp_all add: e seq_progress_append)
next
  case (Some s)
  with outbox_ok_emit(2) [OF assms(2)] obtain slot ids k t where ob: "ob = []" "sq_buffer q = []"
    and e: "e = SlotCommitted slot ids (sq_cursor q) k t" and next_slot: "sq_next_slot q = slot + 1"
    by auto
  from seq_inv_emit [OF assms(4)] ob obtain c n where n: "sq_next_slot q = word_of_nat n"
    "committed_slots (es @ [e]) = slot_run 0 n" and c: "c \<le> length (es @ [e])" "sq_cursor q = position_of c"
    and ids: "mset (received_ids (take c (es @ [e]))) =
      mset (committed_ids (es @ [e])) + mset (expired_ids (es @ [e]))"
    by (auto simp: seq_inv_def simp del: ids_simps committed_slots_simps)
  have "seq_progress (es @ [e]) = (position_of c, word_of_nat n)" "open_expired (es @ [e]) = []"
    using n(1) c(2) next_slot by (simp_all add: seq_progress_append e)
  with n(2) c(1) ids show ?thesis
    by (intro seq_log_invI [of _ c n]) simp_all
qed

section \<open>What a restart needs is kept by every step\<close>

definition resume_inv :: "pipeline \<Rightarrow> bool" where
  "resume_inv s \<longleftrightarrow>
     proofs_behind (pl_entries s) (pl_prv s) \<and> seq_log_inv (pl_entries s) \<and>
     outbox_ok (pl_seq s) (pl_outbox s)"

lemma resume_inv_start: "resume_inv (pipeline_start g en backend cfg)"
  by (simp add: resume_inv_def pipeline_start_def mem_log_new_def proofs_behind_def outbox_ok_def)
    (rule seq_log_invI [of _ 0 0], simp_all add: seq_progress_def position_of_0 received_ids_def)

lemma resume_inv_grow:
  assumes "resume_inv s" "\<exists>fs. ml_entries l = pl_entries s @ fs \<and> length fs \<le> 1 \<and>
    (\<forall>f \<in> set fs. \<not> is_seq_entry f \<and> proved_upto f = None)"
    and "pl_log s' = l" "pl_prv s' = pl_prv s" "pl_seq s' = pl_seq s" "pl_outbox s' = pl_outbox s"
  shows "resume_inv s'"
  using assms proofs_behind_other seq_log_inv_other unfolding resume_inv_def by fastforce

lemma resume_inv_prover:
  assumes "resume_inv s" "proofs_behind (ml_entries l) p"
    and "ml_entries l = pl_entries s @ fs" "\<forall>f \<in> set fs. proof_fine (mock_prove_ops K) b (pl_entries s) f"
    and "pl_log s' = l" "pl_prv s' = p" "pl_seq s' = pl_seq s" "pl_outbox s' = pl_outbox s"
  shows "resume_inv s'"
  using assms seq_log_inv_other [of "pl_entries s" fs] proof_entry_kind
  unfolding resume_inv_def by fastforce

lemma resume_inv_step:
  "pipe_step K s s' \<Longrightarrow> pipe_inv K g m b s \<Longrightarrow> resume_inv s \<Longrightarrow> resume_inv s'"
proof (induction rule: pipe_step.induct)
  case (step_submit intent now_ms s r a l)
  from resume_inv_grow [OF step_submit.prems(2) submit_appends [OF step_submit.hyps(1)]] show ?case
    by simp
next
  case (step_seq_close s now_ms)
  then show ?case by (simp add: resume_inv_def outbox_ok_tick)
next
  case (step_seq_append s e es p l)
  then have "ml_entries l = pl_entries s @ [e]" "is_seq_entry e" "seq_inv K g (pl_entries s) (pl_seq s) (e # es)"
    "outbox_ok (pl_seq s) (e # es)"
    by (auto simp: mem_append_eq pipe_inv_def resume_inv_def)
  moreover from this(2) have "proved_upto e = None"
    by (cases e) (simp_all add: is_seq_entry_def)
  ultimately show ?case
    using step_seq_append.prems(2) seq_log_inv_emit outbox_ok_emit(1)
      proofs_behind_other [of "pl_entries s" "pl_prv s" "[e]"]
    by (simp add: resume_inv_def)
next
  case (step_att_rule s pe pes a l)
  from resume_inv_grow [OF step_att_rule.prems(2) rule_appends [OF step_att_rule.prems(1) step_att_rule.hyps(1,2)]]
  show ?case by simp
next
  case (step_prv_entry s e es p l)
  have "proofs_behind (ml_entries l) p"
    using mock_proving.proofs_behind_entry [OF TrueI, of "pl_log s" "pl_prv s" e es K p l] step_prv_entry
    by (simp add: pipe_inv_def resume_inv_def log_fits_def)
  with prv_entry_ok [OF step_prv_entry.prems(1) step_prv_entry.hyps(1)] step_prv_entry show ?case
    by (auto intro: resume_inv_prover)
next
  case (step_prv_timer s p l)
  have "proofs_behind (ml_entries l) p"
    using mock_proving.proofs_behind_timer [OF TrueI, of "pl_log s" "pl_prv s" K p l] step_prv_timer
    by (simp add: pipe_inv_def resume_inv_def log_fits_def)
  with prv_timer_ok [OF step_prv_timer.prems(1) step_prv_timer.hyps(1)] step_prv_timer show ?case
    by (auto intro: resume_inv_prover)
qed (simp_all add: resume_inv_def outbox_ok_def proofs_behind_def)

section \<open>What each task recovers\<close>

lemma seq_recovers:
  assumes "pipe_inv K g m b s" "seq_log_inv (pl_entries s)"
  shows "\<exists>q. seq_start mem_ops g (pl_log s) = Ok q \<and> sq_buffer q = [] \<and>
    (sq_cursor q, sq_next_slot q) = seq_progress (pl_entries s) \<and>
    (open_expired (pl_entries s) = [] \<longrightarrow> seq_inv K g (pl_entries s) q [])"
proof -
  let ?es = "pl_entries s"
  from assms(2) obtain c n where prog: "seq_progress ?es = (position_of c, word_of_nat n)"
    and c: "c \<le> length ?es" "committed_slots ?es = slot_run 0 n"
    "mset (received_ids (take c ?es)) + mset (open_expired ?es) =
      mset (committed_ids ?es) + mset (expired_ids ?es)"
    by (auto simp: seq_log_inv_def)
  let ?q = "\<lparr>sq_buffer = [], sq_guarantee = g, sq_cursor = position_of c, sq_next_slot = word_of_nat n\<rparr>"
  have "\<not> position_of c > position_of (length ?es)"
    using c(1) pipe_inv_log(3) [OF assms(1)] by simp
  then have "seq_start mem_ops g (pl_log s) = Ok ?q"
    by (simp add: seq_start_def mem_seq_recover prog)
  moreover have "seq_inv K g ?es ?q []" if "open_expired ?es = []"
    using c that assms(1)
    by (intro seq_invI [where n = n and c = c]) (auto simp: buffer_logged_def pipe_inv_def seq_inv_def)
  ultimately show ?thesis
    using prog by (intro exI [of _ ?q]) simp
qed

lemma att_recovers:
  assumes "pipe_inv K g m b s" "me_measurement en = m"
  shows "\<exists>a. attester_start mem_ops en (pl_log s) = Ok a \<and> att_inv K m (pl_entries s) a []"
proof -
  let ?es = "pl_entries s"
  note log = pipe_inv_log [OF assms(1)]
  obtain k n where kn: "k \<le> n" "ruled_slots ?es = slot_run 0 k" "committed_slots ?es = slot_run 0 n"
    using well_ruled_obtains [OF log(2), of "length ?es"] by auto
  then have "n < 2 ^ 64"
    using committed_count_less [OF log(3), of "length ?es"] by simp
  from mem.recover_attester_resumes [OF TrueI _ log(3) kn(3) this kn(2,1), of "positioned ?es"]
  obtain c where c: "recover_attester mem_ops (pl_log s) = Ok (position_of c)" "c \<le> length ?es"
    "committed_slots (drop c ?es) = slot_run k n"
    by (auto simp: mem_read_from_eq)
  have "committed_slots (take c ?es) @ committed_slots (drop c ?es) = slot_run 0 n"
    using kn(3) by (simp flip: committed_slots_simps(3))
  from slot_run_prefix [OF this] arg_cong [OF this, of length] arg_cong [OF c(3), of length] kn(1)
  have "committed_slots (take c ?es) = slot_run 0 (length (committed_slots (take c ?es)))"
    "length (committed_slots (take c ?es)) = k"
    by simp_all
  then have "committed_slots (take c ?es) = slot_run 0 k" by simp
  with c kn(2) assms show ?thesis
    by (auto simp: attester_start_def pipe_inv_def att_inv_def intro!: exI [of _ c])
qed

lemma fold_high_water_Max:
  "fold high_water ss None = (if ss = [] then None else Some (Max (set ss)))"
  by (induction ss rule: rev_induct) (auto simp: high_water_def max.commute)

lemma prover_start_fresh:
  "prover_start L backend cfg l = Ok p \<Longrightarrow> pr_pending p = [] \<and> pr_batch_size p = bc_batch_size cfg"
  by (auto simp: prover_start_def try_bind_Ok_iff)

lemma prv_recovers:
  assumes "pipe_inv K g m b s" "none_left (pl_entries s) (pl_prv s)" "proofs_behind (pl_entries s) (pl_prv s)"
    and "mock_latency_ok backend" "bc_batch_size cfg = b"
  shows "\<exists>p. prover_start mem_ops backend cfg (pl_log s) = Ok p \<and>
    prv_inv mock_latency_ok (pl_entries s) p [] \<and> pr_batch_size p = b \<and>
    none_left (pl_entries s) p \<and> proofs_behind (pl_entries s) p"
proof -
  let ?es = "pl_entries s" and ?old = "pl_prv s"
  let ?ss = "proved_slots ?es"
  note log = pipe_inv_log [OF assms(1)]
  define m where "m = (if ?ss = [] then 0 else Suc (unat (Max (set ?ss))))"
  have prv: "prv_inv mock_latency_ok ?es ?old (pl_prv_todo s)" and b: "pr_batch_size ?old = b"
    using assms(1) by (simp_all add: pipe_inv_def)
  then obtain i nxt where nxt: "pr_next_slot ?old = word_of_nat nxt"
    and step: "in_step ?es i (pr_awaiting ?old) nxt"
    and run: "map cs_slot (pr_pending ?old) = slot_run (nxt - length (pr_pending ?old)) nxt"
    and size: "length (pr_pending ?old) < pr_batch_size ?old"
    unfolding prv_inv_def by blast
  from step obtain n' where n': "committed_slots (take i ?es) = slot_run 0 n'" "nxt \<le> n'"
    by (auto simp: in_step_def)
  obtain k n where n: "committed_slots ?es = slot_run 0 n"
    using well_ruled_obtains [OF log(2), of "length ?es"] by auto
  have "length (committed_slots (take i ?es)) \<le> length (committed_slots ?es)"
    by (metis append_take_drop_id committed_slots_simps(3) le_add1 length_append)
  with n n' have "nxt \<le> n" by simp
  have "n < 2 ^ 64"
    using committed_count_less [OF log(3), of "length ?es"] n by simp
  with \<open>nxt \<le> n\<close> have unat: "unat (pr_next_slot ?old) = nxt"
    by (simp add: nxt unat_of_nat64)
  have "unat (Max (set ?ss)) + length (pr_pending ?old) < nxt" if "?ss \<noteq> []"
    using that assms(3) unat by (simp add: proofs_behind_def)
  then have m: "m \<le> nxt - length (pr_pending ?old)" "m \<le> n"
    using \<open>nxt \<le> n\<close> by (auto simp: m_def)
  have high: "fold high_water ?ss None = (if m = 0 then None else Some (word_of_nat (m - 1)))"
    by (simp add: fold_high_water_Max m_def)
  have "0 < bc_batch_size cfg"
    using size b assms(5) by simp
  from mock_proving.prover_start_inv [OF TrueI log(2,3) assms(4) this n m(2) high] obtain p
    where p: "prover_start mem_ops backend cfg (pl_log s) = Ok p" "prover_inv mock_latency_ok ?es p"
      "pr_next_slot p = word_of_nat m"
    by blast
  have "m < 2 ^ 64"
    using m(2) \<open>n < 2 ^ 64\<close> by simp
  then have next': "unat (pr_next_slot p) = m"
    by (simp add: p(3) unat_of_nat64)
  have "slot_ended ?es slot" if "slot < pr_next_slot p" for slot
  proof -
    have "unat slot < m"
      using that next' by (simp add: word_less_nat_alt)
    with m(1) have less: "unat slot < nxt - length (pr_pending ?old)" by simp
    then have "slot < pr_next_slot ?old"
      by (simp add: word_less_nat_alt unat)
    moreover have "slot \<notin> set (slot_run (nxt - length (pr_pending ?old)) nxt)"
      using less \<open>nxt \<le> n\<close> \<open>n < 2 ^ 64\<close> by (auto simp: mem_slot_run unat_of_nat64)
    then have "slot \<notin> cs_slot ` set (pr_pending ?old)"
      by (simp flip: run)
    ultimately show ?thesis
      using assms(2) by (auto simp: none_left_def)
  qed
  then have "none_left ?es p"
    by (simp add: none_left_def)
  moreover have "unat slot < m" if "slot \<in> set ?ss" for slot
  proof -
    have "slot \<le> Max (set ?ss)"
      using that by simp
    moreover have "?ss \<noteq> []"
      using that by auto
    ultimately show ?thesis
      by (simp add: m_def word_le_nat_alt)
  qed
  then have "proofs_behind ?es p"
    using prover_start_fresh [OF p(1)] next' by (simp add: proofs_behind_def)
  ultimately show ?thesis
    using p(1,2) prover_start_fresh [OF p(1)] assms(5) by (simp add: prv_inv_idle)
qed

section \<open>Restarts\<close>

text \<open>Every task recovers from the log of every state that has the invariants; none refuses it.\<close>

lemma pipeline_recovers:
  assumes "pipe_inv K g m b s" "settle_inv s" "resume_inv s"
    and "me_measurement en = m" "mock_latency_ok backend" "bc_batch_size cfg = b"
  shows "\<exists>s'. pipeline_recover g en backend cfg (pl_log s) = Some s' \<and> pl_log s' = pl_log s \<and>
    pl_gate s' = pl_gate s \<and> settle_inv s' \<and> resume_inv s' \<and>
    (pl_outbox s = [] \<longrightarrow> sq_next_slot (pl_seq s') = sq_next_slot (pl_seq s)) \<and>
    (open_expired (pl_entries s) = [] \<longrightarrow> pipe_inv K g m b s')"
proof -
  let ?es = "pl_entries s"
  have gate: "gate_synced K g (pl_gate s) ?es"
    using assms(1) by (simp add: pipe_inv_def)
  then have adm: "admission_recover mem_ops (pl_log s) g = Ok (pl_gate s)"
    using mem.recover_eq [OF TrueI, of "pl_log s" _ g] by (simp add: mem_read_from_eq gate_synced_def)
  from seq_recovers [OF assms(1)] assms(3) obtain q where q: "seq_start mem_ops g (pl_log s) = Ok q"
    "open_expired ?es = [] \<Longrightarrow> seq_inv K g ?es q []" "(sq_cursor q, sq_next_slot q) = seq_progress ?es"
    by (auto simp: resume_inv_def)
  have "sq_next_slot q = sq_next_slot (pl_seq s)" if "pl_outbox s = []"
  proof -
    from assms(1) that obtain n where "sq_next_slot (pl_seq s) = word_of_nat n"
      "committed_slots ?es = slot_run 0 n"
      by (auto simp: pipe_inv_def seq_inv_def)
    with q(3) assms(3) show ?thesis
      by (auto simp: resume_inv_def seq_log_inv_def slot_run_inject)
  qed
  note next_slot = this
  from att_recovers [OF assms(1,4)] obtain a where a: "attester_start mem_ops en (pl_log s) = Ok a"
    "att_inv K m ?es a []"
    by blast
  from prv_recovers [OF assms(1) _ _ assms(5,6)] assms(2,3) obtain p
    where p: "prover_start mem_ops backend cfg (pl_log s) = Ok p" "prv_inv mock_latency_ok ?es p []"
      "pr_batch_size p = b" "none_left ?es p" "proofs_behind ?es p"
    by (auto simp: settle_inv_def resume_inv_def)
  have "\<exists>i \<le> length ?es. projections_new g = project g (take i ?es)"
    by (intro exI [of _ 0]) (simp add: project_def)
  with assms(1) gate q(2) a(2) p(2,3) have "pipe_inv K g m b
      \<lparr>pl_log = pl_log s, pl_gate = pl_gate s, pl_seq = q, pl_outbox = [], pl_att = a, pl_att_todo = [],
       pl_prv = p, pl_prv_todo = [], pl_proj = projections_new g\<rparr>" if "open_expired ?es = []"
    using that by (simp add: pipe_inv_def)
  with adm q(1) a(1) p assms(2,3) next_slot show ?thesis
    by (simp add: pipeline_recover_Some settle_inv_def resume_inv_def outbox_ok_def)
qed

lemma restart_keeps:
  assumes "pipe_restart s s'" "pipe_inv K g m b s" "settle_inv s" "resume_inv s"
  shows "pipe_inv K g m b s' \<and> settle_inv s' \<and> resume_inv s'"
  using assms(1)
proof cases
  case (restart en backend cfg)
  have "sq_guarantee (pl_seq s) = g" "me_measurement (at_enclave (pl_att s)) = m" "pr_batch_size (pl_prv s) = b"
    using assms(2) by (simp_all add: pipe_inv_def seq_inv_def att_inv_def)
  with restart pipeline_recovers [OF assms(2-4), of en backend cfg] show ?thesis
    by auto
qed

text \<open>
  A slot close cut off between its expiries and its slot: the restarted sequencer reads from the
  cursor of the slot before, so it buffers the expired intents again.
\<close>

lemma torn_close_rebuffers:
  assumes "pipe_inv K g m b s" "seq_log_inv (pl_entries s)" "i \<in> set (open_expired (pl_entries s))"
    and "seq_start mem_ops g (pl_log s) = Ok q" "seq_on_doorbell mem_ops (pl_log s) q = Ok q'"
  shows "sq_guarantee q' = g \<and> (\<exists>intent r. IntentReceived i intent r \<in> set (pl_entries s) \<and>
    pending_new i intent r \<in> set (sq_buffer q'))"
proof -
  let ?es = "pl_entries s"
  note log = pipe_inv_log [OF assms(1)]
  from assms(2) obtain c n where prog: "seq_progress ?es = (position_of c, word_of_nat n)"
    and c: "c \<le> length ?es" and ids: "mset (received_ids (take c ?es)) + mset (open_expired ?es) =
      mset (committed_ids ?es @ expired_ids ?es)"
    by (auto simp: seq_log_inv_def)
  from assms(4) prog have q: "q = \<lparr>sq_buffer = [], sq_guarantee = g, sq_cursor = position_of c,
      sq_next_slot = word_of_nat n\<rparr>"
    by (auto simp: seq_start_def mem_seq_recover try_bind_Ok_iff Let_def split: if_splits)
  then have q': "q' = q\<lparr>sq_buffer := pendings (drop c ?es), sq_cursor := position_of (length ?es)\<rparr>"
    using seq_read_eq [OF _ c log(3) assms(5)] by simp
  have "distinct (committed_ids ?es @ expired_ids ?es)"
    by (rule pipe_inv_placed_once(1) [OF assms(1)])
  then have "distinct (received_ids (take c ?es) @ open_expired ?es)"
    using ids by (metis mset_append mset_eq_imp_distinct_iff)
  with assms(3) have "i \<notin> set (received_ids (take c ?es))" by auto
  moreover have "i \<in> set (committed_ids ?es @ expired_ids ?es)"
    using assms(3) arg_cong [OF ids, of set_mset] by auto
  then have "i \<in> set (received_ids ?es)"
    using pipe_inv_placed_once(2) [OF assms(1)] by blast
  moreover have "received_ids ?es = received_ids (take c ?es) @ received_ids (drop c ?es)"
    by (simp flip: received_ids_append)
  ultimately have "i \<in> set (received_ids (drop c ?es))" by simp
  then obtain intent r where "(i, intent, r) \<in> set (received (drop c ?es))"
    by (auto simp: received_ids_def)
  then have "IntentReceived i intent r \<in> set ?es" "pending_new i intent r \<in> set (pendings (drop c ?es))"
    by (simp add: mem_received in_set_dropD, force simp: pendings_def)
  then show ?thesis
    by (auto simp: q' q)
qed

section \<open>Reachable states\<close>

lemma reachable_all:
  assumes "reachable K (pipeline_start g en backend cfg) s" "mock_latency_ok backend" "0 < bc_batch_size cfg"
  shows "pipe_inv K g (me_measurement en) (bc_batch_size cfg) s \<and> settle_inv s \<and> resume_inv s"
  using assms(1)
proof (induction rule: reachable.induct)
  case reach_start
  then show ?case
    using pipe_inv_start [OF assms(2,3)] settle_inv_start resume_inv_start by blast
next
  case (reach_step s s')
  then show ?case
    using pipe_inv_step settle_inv_step resume_inv_step by blast
next
  case (reach_restart s s')
  then show ?case
    using restart_keeps by blast
qed

lemmas reachable_inv = reachable_all [THEN conjunct1]

end
