(* ===== verification/Pipeline_Liveness.thy ===== *)
theory Pipeline_Liveness
  imports Pipeline_Restart
begin

text \<open>
  The pipeline drains: from every reachable state the tasks alone, with no further submission
  accepted, can reach a state where every received intent has an end in the read model (expired,
  proven or failed). The run is built one task at a time: the sequencer empties its outbox, reads
  and closes a slot; the attester, then the prover, works off what it holds, reads the rest of the
  log and works that off; the flush timer fires; the projector catches up.
\<close>

section \<open>Runs of the tasks\<close>

definition sound :: "keccak \<Rightarrow> guarantee_config \<Rightarrow> measurement \<Rightarrow> nat \<Rightarrow> pipeline \<Rightarrow> bool" where
  "sound K g m b s \<longleftrightarrow> pipe_inv K g m b s \<and> settle_inv s"

text \<open>A step of a task: one by which no intent is received.\<close>

definition task_step :: "keccak \<Rightarrow> pipeline \<Rightarrow> pipeline \<Rightarrow> bool" where
  "task_step K s s' \<longleftrightarrow>
     pipe_step K s s' \<and> received_ids (pl_entries s') = received_ids (pl_entries s)"

abbreviation task_run :: "keccak \<Rightarrow> pipeline \<Rightarrow> pipeline \<Rightarrow> bool" where
  "task_run K \<equiv> (task_step K)\<^sup>*\<^sup>*"

lemma task_step_sound: "task_step K s s' \<Longrightarrow> sound K g m b s \<Longrightarrow> sound K g m b s'"
  unfolding task_step_def sound_def using pipe_inv_step settle_inv_step by blast

lemma task_run_sound: "task_run K s s' \<Longrightarrow> sound K g m b s \<Longrightarrow> sound K g m b s'"
  by (induction rule: rtranclp_induct) (auto intro: task_step_sound)

lemma task_run_received: "task_run K s s' \<Longrightarrow> received_ids (pl_entries s') = received_ids (pl_entries s)"
  by (induction rule: rtranclp_induct) (auto simp: task_step_def)

lemma task_run_reachable: "task_run K s s' \<Longrightarrow> reachable K s0 s \<Longrightarrow> reachable K s0 s'"
  by (induction rule: rtranclp_induct) (auto simp: task_step_def intro: reach_step)

lemma received_ids_quiet: "\<forall>f \<in> set fs. received_of f = None \<Longrightarrow> received_ids (es @ fs) = received_ids es"
  unfolding received_ids_append by (induction fs) (simp_all add: received_ids_def)

lemma ruled_not_received: "ruled_slot e \<noteq> None \<Longrightarrow> received_of e = None"
  by (cases e) simp_all

lemma task_stepI:
  assumes "pipe_step K s s'" "pl_entries s' = pl_entries s @ fs" "\<forall>f \<in> set fs. received_of f = None"
  shows "task_step K s s'"
  using assms received_ids_quiet by (simp add: task_step_def)

section \<open>Each task works off what it holds\<close>

lemma drain_outbox:
  assumes "sound K g m b s" "length (pl_entries s) + length (pl_outbox s) < 2 ^ 64"
  shows "\<exists>s'. task_run K s s' \<and> pl_entries s' = pl_entries s @ pl_outbox s \<and> pl_outbox s' = [] \<and>
    pl_seq s' = pl_seq s"
  using assms
proof (induction "pl_outbox s" arbitrary: s)
  case Nil
  then show ?case by (intro exI [of _ s]) simp
next
  case (Cons e es)
  obtain p l where l: "lg_append mem_ops e (pl_log s) = (Ok p, l)" "ml_entries l = pl_entries s @ [e]"
    by (simp add: mem_append_eq)
  let ?s = "s\<lparr>pl_log := l, pl_outbox := es\<rparr>"
  have "is_seq_entry e"
    using Cons.prems(1) Cons.hyps(2) [symmetric] by (simp add: sound_def pipe_inv_def)
  then have "received_of e = None"
    by (cases e) (simp_all add: is_seq_entry_def)
  moreover have "pipe_step K s ?s"
    using Cons.prems(2) l by (intro step_seq_append [OF Cons.hyps(2) [symmetric]])
      (simp_all add: log_fits_def flip: Cons.hyps(2))
  ultimately have step: "task_step K s ?s"
    using l(2) by (intro task_stepI [of K s ?s "[e]"]) simp_all
  from Cons.hyps(1) [of ?s] task_step_sound [OF step Cons.prems(1)] Cons.prems(2) l(2)
  obtain s' where "task_run K ?s s'" "pl_entries s' = pl_entries s @ pl_outbox s" "pl_outbox s' = []"
    "pl_seq s' = pl_seq s"
    by (auto simp flip: Cons.hyps(2))
  with step show ?case
    by (meson converse_rtranclp_into_rtranclp)
qed

lemma drain_attester:
  assumes "sound K g m b s" "length (pl_entries s) + length (pl_att_todo s) < 2 ^ 64"
  shows "\<exists>s' fs. task_run K s s' \<and> pl_entries s' = pl_entries s @ fs \<and> length fs \<le> length (pl_att_todo s) \<and>
    (\<forall>f \<in> set fs. ruled_slot f \<noteq> None) \<and> pl_att_todo s' = [] \<and>
    at_cursor (pl_att s') = fold (\<lambda>(pos, e) _. position_next pos) (pl_att_todo s) (at_cursor (pl_att s))"
  using assms
proof (induction "pl_att_todo s" arbitrary: s)
  case Nil
  then show ?case by (intro exI [of _ s] exI [of _ "[]"]) simp
next
  case (Cons pe pes)
  obtain a l where out: "att_process mem_ops K (mock_attest K) pe (pl_att s, pl_log s) = (Ok (), a, l)"
    using att_process_mem [of K "mock_attest K" pe "pl_att s" "pl_log s"] by (metis prod.collapse)
  have "att_inv K m (pl_entries s) (pl_att s) (pe # pes)"
    using Cons.prems(1) Cons.hyps(2) by (simp add: sound_def pipe_inv_def)
  from att_inv_rule [OF this out] obtain vs where vs: "ml_entries l = pl_entries s @ vs" "length vs \<le> 1"
    "\<forall>v \<in> set vs. ruled_slot v \<noteq> None"
    by blast
  let ?s = "s\<lparr>pl_log := l, pl_att := a, pl_att_todo := pes\<rparr>"
  have "\<forall>v \<in> set vs. received_of v = None"
    using vs(3) ruled_not_received by blast
  moreover have "pipe_step K s ?s"
    using Cons.prems(2) vs
    by (intro step_att_rule [OF Cons.hyps(2) [symmetric] out])
      (simp add: log_fits_def flip: Cons.hyps(2))
  ultimately have step: "task_step K s ?s"
    using vs(1) by (intro task_stepI [of K s ?s vs]) simp_all
  have cur: "at_cursor a = position_next (fst pe)"
    using mem.att_process_outcome [OF TrueI, of K "mock_attest K" "fst pe" "snd pe"
        "pl_att s" "pl_log s" "Ok ()" a l] out by simp
  from Cons.hyps(1) [of ?s] task_step_sound [OF step Cons.prems(1)] Cons.prems(2) vs(1,2)
  obtain s' fs where s': "task_run K ?s s'" "pl_entries s' = (pl_entries s @ vs) @ fs" "length fs \<le> length pes"
    "\<forall>f \<in> set fs. ruled_slot f \<noteq> None" "pl_att_todo s' = []"
    "at_cursor (pl_att s') = fold (\<lambda>(pos, e) _. position_next pos) pes (at_cursor a)"
    by (auto simp flip: Cons.hyps(2))
  show ?case
  proof (intro exI [of _ s'] exI [of _ "vs @ fs"] conjI)
    show "task_run K s s'"
      using step s'(1) by (rule converse_rtranclp_into_rtranclp)
  qed (use s' vs cur in \<open>auto simp: case_prod_beta simp flip: Cons.hyps(2)\<close>)
qed

lemma drain_prover:
  assumes "sound K g m b s" "length (pl_entries s) + length (pl_prv_todo s) < 2 ^ 64"
  shows "\<exists>s' fs. task_run K s s' \<and> pl_entries s' = pl_entries s @ fs \<and> length fs \<le> length (pl_prv_todo s) \<and>
    (\<forall>f \<in> set fs. proved_upto f \<noteq> None) \<and> pl_prv_todo s' = [] \<and>
    pr_cursor (pl_prv s') = pr_cursor (pl_prv s)"
  using assms
proof (induction "pl_prv_todo s" arbitrary: s)
  case Nil
  then show ?case by (intro exI [of _ s] exI [of _ "[]"]) simp
next
  case (Cons e es)
  have inv: "pipe_inv K g m b s" "settle_inv s"
    using Cons.prems(1) by (simp_all add: sound_def)
  from prv_entry_ok [OF inv(1) Cons.hyps(2) [symmetric]] obtain p l fs
    where out: "prover_entry mem_ops (mock_prove_ops K) e (pl_prv s, pl_log s) = Some (Ok (), p, l)"
      and l: "ml_entries l = pl_entries s @ fs"
      and fine: "\<forall>f \<in> set fs. proof_fine (mock_prove_ops K) b (pl_entries s) f"
    by blast
  have "pr_cursor p = pr_cursor (pl_prv s) \<and> (\<exists>fs. ml_entries l = pl_entries s @ fs \<and> length fs \<le> 1)"
    using mock_proving.none_left_entry [OF TrueI, of "pl_log s" "pl_prv s" e es K p l] inv out
      pipe_inv_log [OF inv(1)] Cons.hyps(2)
    by (auto simp: pipe_inv_def settle_inv_def)
  then have cur: "pr_cursor p = pr_cursor (pl_prv s)" and one: "length fs \<le> 1"
    using l by auto
  let ?s = "s\<lparr>pl_log := l, pl_prv := p, pl_prv_todo := es\<rparr>"
  have "pipe_step K s ?s"
    using Cons.prems(2) l one
    by (intro step_prv_entry [OF Cons.hyps(2) [symmetric] out])
      (simp add: log_fits_def flip: Cons.hyps(2))
  moreover have "\<forall>f \<in> set fs. received_of f = None"
    using fine proof_entry_kind by blast
  ultimately have step: "task_step K s ?s"
    using l by (intro task_stepI [of K s ?s fs]) simp_all
  from Cons.hyps(1) [of ?s] task_step_sound [OF step Cons.prems(1)] Cons.prems(2) l one
  obtain s' gs where s': "task_run K ?s s'" "pl_entries s' = (pl_entries s @ fs) @ gs" "length gs \<le> length es"
    "\<forall>f \<in> set gs. proved_upto f \<noteq> None" "pl_prv_todo s' = []" "pr_cursor (pl_prv s') = pr_cursor p"
    by (auto simp flip: Cons.hyps(2))
  have "\<forall>f \<in> set fs. proved_upto f \<noteq> None"
    using fine by (auto simp: proof_fine_def discharged_def)
  show ?case
  proof (intro exI [of _ s'] exI [of _ "fs @ gs"] conjI)
    show "task_run K s s'"
      using step s'(1) by (rule converse_rtranclp_into_rtranclp)
  qed (use s' one cur \<open>\<forall>f \<in> set fs. proved_upto f \<noteq> None\<close> in \<open>auto simp flip: Cons.hyps(2)\<close>)
qed

section \<open>The phases of the run\<close>

text \<open>The sequencer reads the log and closes a slot at \<open>now\<close>: everything received is sequenced or expired.\<close>

lemma seq_inv_accounts:
  assumes "seq_inv K g es q ob"
  shows "length (sq_buffer q) \<le> length es"
proof -
  from assms obtain c where "c \<le> length es"
    and c: "mset (received_ids (take c es)) = mset (committed_ids (es @ ob)) + mset (expired_ids (es @ ob)) +
      image_mset p_id (mset (sq_buffer q))"
    by (auto simp: seq_inv_def)
  have "length (received_ids xs) \<le> length xs" for xs
    by (induction xs) (auto simp: received_ids_def split: option.split)
  moreover have "length (sq_buffer q) \<le> length (received_ids (take c es))"
    using arg_cong [OF c, of size] by simp
  ultimately show ?thesis
    using \<open>c \<le> length es\<close> by (metis le_trans length_take min.cobounded1)
qed

lemma length_tick_entries: "length (tick_entries K now q) \<le> length (sq_buffer q) + 1"
proof -
  have "length (snd (partition_expired ps now g)) \<le> length ps" for ps g
    by (induction ps now g rule: partition_expired.induct) (auto simp: Let_def split: prod.splits)
  then show ?thesis
    by (simp add: tick_entries_def tick_expired_def)
qed

lemma sequence_phase:
  assumes "sound K g m b s" "2 * (length (pl_entries s) + length (pl_outbox s)) + 1 < 2 ^ 64"
  shows "\<exists>s'. task_run K s s' \<and>
    length (pl_entries s') \<le> 2 * (length (pl_entries s) + length (pl_outbox s)) + 1 \<and>
    (\<exists>slot ids c k. SlotCommitted slot ids c k now \<in> set (pl_entries s')) \<and>
    mset (received_ids (pl_entries s')) =
      mset (committed_ids (pl_entries s')) + mset (expired_ids (pl_entries s'))"
proof -
  let ?N = "length (pl_entries s) + length (pl_outbox s)"
  from drain_outbox [OF assms(1)] assms(2) obtain s1 where r1: "task_run K s s1"
    and s1: "length (pl_entries s1) = ?N" "pl_outbox s1 = []"
    by auto
  note sound1 = task_run_sound [OF r1 assms(1)]
  obtain q where q: "seq_on_doorbell mem_ops (pl_log s1) (pl_seq s1) = Ok q"
    by (simp add: seq_on_doorbell_def mem_read_from_eq)
  let ?s2 = "s1\<lparr>pl_seq := q\<rparr>"
  have r2: "task_step K s1 ?s2"
    using step_seq_read [OF s1(2) q] by (simp add: task_step_def)
  note sound2 = task_step_sound [OF r2 sound1]
  have inv2: "seq_inv K g (pl_entries s1) q []"
    using sound2 s1(2) by (simp add: sound_def pipe_inv_def)
  have "seq_inv K g (pl_entries s1) (pl_seq s1) []"
    using sound1 s1(2) by (simp add: sound_def pipe_inv_def)
  then have cur: "sq_cursor q = position_of ?N"
    using seq_read_eq [OF _ _ _ q] s1(1) assms(2) by (auto simp: seq_inv_def)
  let ?s3 = "?s2\<lparr>pl_seq := seq_ticked q, pl_outbox := tick_entries K now q\<rparr>"
  have r3: "task_step K ?s2 ?s3"
    using step_seq_close [of ?s2 K now] s1(2) by (simp add: task_step_def)
  note sound3 = task_step_sound [OF r3 sound2]
  have len: "length (tick_entries K now q) \<le> ?N + 1"
    using length_tick_entries [of K now q] seq_inv_accounts [OF inv2] s1(1) by simp
  from drain_outbox [OF sound3] len assms(2) s1(1) obtain s4 where r4: "task_run K ?s3 s4"
    and s4: "pl_entries s4 = pl_entries s1 @ tick_entries K now q" "pl_outbox s4 = []"
      "pl_seq s4 = seq_ticked q"
    by auto
  have run: "task_run K s s4"
    using r1 r2 r3 r4 by (meson rtranclp.rtrancl_into_rtrancl rtranclp_trans)
  have inv4: "seq_inv K g (pl_entries s4) (pl_seq s4) []"
    using task_run_sound [OF r4 sound3] s4(2) by (simp add: sound_def pipe_inv_def)
  then obtain c where c: "c \<le> length (pl_entries s4)" "sq_cursor (seq_ticked q) = position_of c"
    and acc: "mset (received_ids (take c (pl_entries s4))) =
      mset (committed_ids (pl_entries s4)) + mset (expired_ids (pl_entries s4))"
    by (auto simp: seq_inv_def s4(3) seq_ticked_def)
  have "length (pl_entries s4) < 2 ^ 64"
    using len s4(1) s1(1) assms(2) by simp
  then have "c = ?N"
    using c cur s1(1) assms(2) by (simp add: seq_ticked_def)
  moreover have "received_ids (pl_entries s4) = received_ids (pl_entries s1)"
    using task_run_received [OF r4] by simp
  ultimately have "mset (received_ids (pl_entries s4)) =
      mset (committed_ids (pl_entries s4)) + mset (expired_ids (pl_entries s4))"
    using acc s4(1) s1(1) by simp
  moreover have "tick_slot K now q \<in> set (pl_entries s4)"
    by (simp add: s4(1) tick_entries_def)
  then have "\<exists>slot ids c k. SlotCommitted slot ids c k now \<in> set (pl_entries s4)"
    unfolding tick_slot_def by blast
  moreover have "length (pl_entries s4) \<le> 2 * ?N + 1"
    using len s4(1) s1(1) by simp
  ultimately show ?thesis
    using run by blast
qed

text \<open>The attester rules on every committed slot.\<close>

lemma attester_phase:
  assumes "sound K g m b s" "4 * length (pl_entries s) < 2 ^ 64"
  shows "\<exists>s' fs. task_run K s s' \<and> pl_entries s' = pl_entries s @ fs \<and>
    length (pl_entries s') \<le> 4 * length (pl_entries s) \<and> (\<forall>f \<in> set fs. ruled_slot f \<noteq> None) \<and>
    ruled_slots (pl_entries s') = committed_slots (pl_entries s')"
proof -
  have "length (pl_att_todo s) \<le> length (pl_entries s)"
    using assms(1) by (auto simp: sound_def pipe_inv_def att_inv_def)
  with drain_attester [OF assms(1)] assms(2) obtain s1 fs where r1: "task_run K s s1"
    and fs: "pl_entries s1 = pl_entries s @ fs" "\<forall>f \<in> set fs. ruled_slot f \<noteq> None"
    and len1: "length (pl_entries s1) \<le> 2 * length (pl_entries s)" and todo1: "pl_att_todo s1 = []"
    by fastforce
  note sound1 = task_run_sound [OF r1 assms(1)]
  let ?es = "pl_entries s1"
  have "att_inv K m ?es (pl_att s1) []"
    using sound1 todo1 by (simp add: sound_def pipe_inv_def)
  then obtain j where j: "j \<le> length ?es" "at_cursor (pl_att s1) = position_of j"
    by (auto simp: att_inv_def)
  let ?todo = "positioned_from j (drop j ?es)"
  let ?s2 = "s1\<lparr>pl_att_todo := ?todo\<rparr>"
  have "lg_read_from mem_ops (at_cursor (pl_att s1)) (pl_log s1) = Ok ?todo"
    using j len1 assms(2) by (simp add: mem_read_from_eq drop_positioned_from)
  then have r2: "task_step K s1 ?s2"
    using step_att_read [OF todo1, of ?todo K] by (simp add: task_step_def)
  note sound2 = task_step_sound [OF r2 sound1]
  from drain_attester [OF sound2] len1 assms(2) obtain s3 gs where r3: "task_run K ?s2 s3"
    and gs: "pl_entries s3 = ?es @ gs" "\<forall>f \<in> set gs. ruled_slot f \<noteq> None" "length gs \<le> length ?es"
    and todo3: "pl_att_todo s3 = []"
    and cur3: "at_cursor (pl_att s3) = fold (\<lambda>(pos, e) _. position_next pos) ?todo (at_cursor (pl_att s1))"
    by fastforce
  have cur: "at_cursor (pl_att s3) = position_of (length ?es)"
    using cur3 j by (cases "j = length ?es") (simp_all add: fold_cursor)
  have len3: "length (pl_entries s3) \<le> 4 * length (pl_entries s)"
    using gs(1,3) len1 by simp
  have "att_inv K m (pl_entries s3) (pl_att s3) []"
    using task_run_sound [OF r3 sound2] todo3 by (simp add: sound_def pipe_inv_def)
  then obtain k where k: "k \<le> length (pl_entries s3)" "at_cursor (pl_att s3) = position_of k"
    "ruled_slots (pl_entries s3) = committed_slots (take k (pl_entries s3))"
    by (auto simp: att_inv_def)
  then have "k = length ?es"
    using cur len3 len1 assms(2) by simp
  moreover have "committed_slots gs = []"
    using gs(2) ruled_not_committed by (induction gs) (auto split: option.split)
  ultimately have "ruled_slots (pl_entries s3) = committed_slots (pl_entries s3)"
    using k(3) by (simp add: gs(1))
  moreover have "task_run K s s3"
    using r1 r2 r3 by (meson rtranclp.rtrancl_into_rtrancl rtranclp_trans)
  ultimately show ?thesis
    using fs gs len3 by (intro exI [of _ s3] exI [of _ "fs @ gs"]) auto
qed

text \<open>The prover works the log off and its timer flushes the last batch: every committed slot has ended.\<close>

lemma proof_kind:
  "proved_upto f \<noteq> None \<Longrightarrow>
     received_of f = None \<and> \<not> is_seq_entry f \<and> ruled_slot f = None \<and> slot_of_commit f = None"
  by (cases f) (simp_all add: is_seq_entry_def)

lemma quiet_slots:
  assumes "\<forall>f \<in> set fs. proved_upto f \<noteq> None"
  shows "committed_slots fs = []" "ruled_slots fs = []"
proof -
  have "\<forall>f \<in> set fs. ruled_slot f = None \<and> slot_of_commit f = None"
    using assms proof_kind by blast
  then show "committed_slots fs = []" "ruled_slots fs = []"
    by (induction fs) simp_all
qed

lemma prover_caught_up:
  assumes "prv_inv good es p []" "pr_cursor p = position_of i" "i \<le> length es" "length es < 2 ^ 64"
    and "ruled_slots (take i es) = committed_slots (take i es)" "committed_slots (drop i es) = []"
    and "none_left es p" "pr_pending p = []" "well_ruled es" "slot \<in> set (committed_slots es)"
  shows "slot_ended es slot"
proof -
  from assms(1) obtain i' nxt where i': "i' \<le> length es" "pr_cursor p = position_of i'"
    and nxt: "pr_next_slot p = word_of_nat nxt" and step: "in_step es i' (pr_awaiting p) nxt"
    by (auto simp: prv_inv_def)
  with assms(2-4) have "i' = i" by simp
  with step obtain k n where kn: "ruled_slots (take i es) = slot_run 0 k"
    "committed_slots (take i es) = slot_run 0 n" "k \<le> nxt" "nxt \<le> n"
    by (auto simp: in_step_def)
  with assms(5) have "nxt = n"
    by (simp add: slot_run_inject)
  moreover have "committed_slots es = slot_run 0 n"
    using kn(2) assms(6) committed_slots_simps(3) [of "take i es" "drop i es"] by simp
  ultimately obtain j where "j < nxt" "slot = word_of_nat j"
    using assms(10) by (auto simp: mem_slot_run)
  moreover have "n < 2 ^ 64"
    using committed_count_less [OF assms(4) kn(2)] .
  ultimately have "slot < pr_next_slot p"
    using \<open>nxt = n\<close> by (simp add: nxt word_less_nat_alt unat_of_nat64)
  with assms(7,8) show ?thesis
    by (simp add: none_left_def)
qed

lemma prover_phase:
  assumes "sound K g m b s" "4 * length (pl_entries s) + 1 < 2 ^ 64"
    and "ruled_slots (pl_entries s) = committed_slots (pl_entries s)"
  shows "\<exists>s' fs. task_run K s s' \<and> pl_entries s' = pl_entries s @ fs \<and>
    (\<forall>f \<in> set fs. proved_upto f \<noteq> None) \<and>
    (\<forall>slot \<in> set (committed_slots (pl_entries s')). slot_ended (pl_entries s') slot)"
proof -
  have "length (pl_prv_todo s) \<le> length (pl_entries s)"
    using assms(1) by (auto simp: sound_def pipe_inv_def prv_inv_def)
  with drain_prover [OF assms(1)] assms(2) obtain s1 fs where r1: "task_run K s s1"
    and fs: "pl_entries s1 = pl_entries s @ fs" "\<forall>f \<in> set fs. proved_upto f \<noteq> None"
    and len1: "length (pl_entries s1) \<le> 2 * length (pl_entries s)" and todo1: "pl_prv_todo s1 = []"
    by fastforce
  note sound1 = task_run_sound [OF r1 assms(1)]
  let ?es = "pl_entries s1"
  have "prv_inv mock_latency_ok ?es (pl_prv s1) []"
    using sound1 todo1 by (simp add: sound_def pipe_inv_def)
  then obtain j where j: "j \<le> length ?es" "pr_cursor (pl_prv s1) = position_of j"
    by (auto simp: prv_inv_def)
  let ?todo = "positioned_from j (drop j ?es)"
  let ?p = "(pl_prv s1)\<lparr>pr_cursor := fold (\<lambda>(pos, e) _. position_next pos) ?todo (pr_cursor (pl_prv s1))\<rparr>"
  let ?s2 = "s1\<lparr>pl_prv := ?p, pl_prv_todo := map snd ?todo\<rparr>"
  have "lg_read_from mem_ops (pr_cursor (pl_prv s1)) (pl_log s1) = Ok ?todo"
    using j len1 assms(2) by (simp add: mem_read_from_eq drop_positioned_from)
  then have r2: "task_step K s1 ?s2"
    using step_prv_read [OF todo1, of ?todo K] by (simp add: task_step_def)
  note sound2 = task_step_sound [OF r2 sound1]
  have cur2: "pr_cursor ?p = position_of (length ?es)"
    using j by (cases "j = length ?es") (simp_all add: fold_cursor)
  from drain_prover [OF sound2] len1 assms(2) cur2 obtain s3 gs where r3: "task_run K ?s2 s3"
    and gs: "pl_entries s3 = ?es @ gs" "\<forall>f \<in> set gs. proved_upto f \<noteq> None" "length gs \<le> length ?es"
    and todo3: "pl_prv_todo s3 = []" and cur3: "pr_cursor (pl_prv s3) = position_of (length ?es)"
    by fastforce
  have sound3: "pipe_inv K g m b s3" "settle_inv s3"
    using task_run_sound [OF r3 sound2] by (simp_all add: sound_def)
  from prv_timer_ok [OF sound3(1) todo3] obtain p l hs
    where timer: "prover_on_timer mem_ops (mock_prove_ops K) (pl_prv s3, pl_log s3) = Some (Ok (), p, l)"
      and hs: "ml_entries l = pl_entries s3 @ hs"
        "\<forall>f \<in> set hs. proof_fine (mock_prove_ops K) b (pl_entries s3) f"
      and p: "prv_inv mock_latency_ok (ml_entries l) p []"
    by blast
  have "prv_inv mock_latency_ok (pl_entries s3) (pl_prv s3) []" "none_left (pl_entries s3) (pl_prv s3)"
    using sound3 todo3 by (simp_all add: pipe_inv_def settle_inv_def)
  from mock_proving.none_left_timer [OF TrueI this(1) pipe_inv_log(2,3) [OF sound3(1)] this(2) timer] hs(1)
  have left: "none_left (ml_entries l) p" "pr_pending p = []" "pr_cursor p = position_of (length ?es)"
    "length hs \<le> 1"
    using cur3 by auto
  have hs': "\<forall>f \<in> set hs. proved_upto f \<noteq> None"
    using hs(2) by (auto simp: proof_fine_def discharged_def)
  have fits: "length (ml_entries l) < 2 ^ 64"
    using hs(1) left(4) gs(1,3) len1 assms(2) by simp
  let ?s4 = "s3\<lparr>pl_log := l, pl_prv := p\<rparr>"
  have "pipe_step K s3 ?s4"
    using fits by (intro step_prv_timer [OF todo3 timer]) (simp add: log_fits_def)
  moreover have "\<forall>f \<in> set hs. received_of f = None"
    using hs' proof_kind by blast
  ultimately have r4: "task_step K s3 ?s4"
    using hs(1) by (intro task_stepI [of K s3 ?s4 hs]) simp_all
  have "well_ruled (ml_entries l)"
    using task_step_sound [OF r4, of g m b] sound3 pipe_inv_log(2) [of K g m b ?s4]
    by (simp add: sound_def)
  moreover have "ruled_slots ?es = committed_slots ?es"
    using assms(3) quiet_slots [OF fs(2)] by (simp add: fs(1))
  ultimately have "slot_ended (ml_entries l) slot" if "slot \<in> set (committed_slots (ml_entries l))" for slot
    using prover_caught_up [OF p left(3) _ fits _ _ left(1,2) _ that] quiet_slots [OF gs(2)]
      quiet_slots [OF hs'] by (simp add: hs(1) gs(1))
  moreover have "task_run K s ?s4"
    using r1 r2 r3 r4 by (meson rtranclp.rtrancl_into_rtrancl rtranclp_trans)
  moreover have "ml_entries l = pl_entries s @ (fs @ gs @ hs)"
    by (simp add: hs(1) gs(1) fs(1))
  ultimately show ?thesis
    using fs(2) gs(2) hs' by (intro exI [of _ ?s4] exI [of _ "fs @ gs @ hs"]) auto
qed

section \<open>The whole run\<close>

lemma quiet_ids:
  assumes "\<forall>f \<in> set fs. ruled_slot f \<noteq> None \<or> proved_upto f \<noteq> None"
  shows "received_ids (es @ fs) = received_ids es" "committed_ids (es @ fs) = committed_ids es"
    "expired_ids (es @ fs) = expired_ids es"
proof -
  have kind: "received_of f = None \<and> \<not> is_seq_entry f" if "f \<in> set fs" for f
  proof -
    have "ruled_slot f \<noteq> None \<or> proved_upto f \<noteq> None"
      using that assms by blast
    then show ?thesis
      by (cases f) (simp_all add: is_seq_entry_def)
  qed
  then show "received_ids (es @ fs) = received_ids es"
    using received_ids_quiet by blast
  have "committed_ids fs = [] \<and> expired_ids fs = []"
    using kind
  proof (induction fs)
    case (Cons f fs)
    with not_seq_entry [of f] ids_simps(3,4) [of "[f]" fs] show ?case by simp
  qed simp
  then show "committed_ids (es @ fs) = committed_ids es" "expired_ids (es @ fs) = expired_ids es"
    by simp_all
qed

text \<open>A received intent that was sequenced or expired has ended once its slot has.\<close>

lemma intent_ends:
  assumes "received_first es" "\<forall>slot \<in> set (committed_slots es). slot_ended es slot"
    and "i \<in> set (committed_ids es) \<or> i \<in> set (expired_ids es)"
  shows "\<exists>st. status_of (project g es) i = Some st \<and> lifecycle_ended (st_lifecycle st)"
proof -
  from placed_in_read_model [OF assms(1), of i g] assms(3) obtain r
    where r: "pj_intents (project g es) i = Some r" and placed: "ir_expired r \<noteq> None \<or> ir_slot r \<noteq> None"
    by blast
  show ?thesis
  proof (cases "ir_expired r")
    case None
    with placed obtain slot where slot: "ir_slot r = Some slot" by auto
    with project_slot_known [OF r] have "slot_rows es slot \<noteq> None" by blast
    then have "slot_ended es slot"
      using assms(2) by (simp add: slot_rows_None)
    then obtain row where "slot_rows es slot = Some row" "stage_ended (sr_stage row)"
      by (auto simp: slot_ended_def split: option.splits)
    with r None slot show ?thesis
      by (cases "sr_stage row") (simp_all add: status_of_def lifecycle_of_def project_slots)
  qed (use r in \<open>simp add: status_of_def lifecycle_of_def\<close>)
qed

lemma sound_drains:
  assumes "sound K g m b s" "32 * (length (pl_entries s) + length (pl_outbox s) + 1) < 2 ^ 64"
  shows "\<exists>s'. task_run K s s' \<and> received_ids (pl_entries s') = received_ids (pl_entries s) \<and>
    (\<exists>slot ids c k. SlotCommitted slot ids c k now \<in> set (pl_entries s')) \<and>
    pl_proj s' = project g (pl_entries s') \<and>
    (\<forall>i \<in> set (received_ids (pl_entries s)). \<exists>st.
       status_of (pl_proj s') i = Some st \<and> lifecycle_ended (st_lifecycle st))"
proof -
  from assms(2) have "2 * (length (pl_entries s) + length (pl_outbox s)) + 1 < 2 ^ 64" by simp
  from sequence_phase [OF assms(1) this, of now] obtain s1 where r1: "task_run K s s1"
    and len1: "length (pl_entries s1) \<le> 2 * (length (pl_entries s) + length (pl_outbox s)) + 1"
    and now1: "\<exists>slot ids c k. SlotCommitted slot ids c k now \<in> set (pl_entries s1)"
    and acc: "mset (received_ids (pl_entries s1)) =
      mset (committed_ids (pl_entries s1)) + mset (expired_ids (pl_entries s1))"
    by blast
  note sound1 = task_run_sound [OF r1 assms(1)]
  from attester_phase [OF sound1] len1 assms(2) obtain s2 fs where r2: "task_run K s1 s2"
    and fs: "pl_entries s2 = pl_entries s1 @ fs" "\<forall>f \<in> set fs. ruled_slot f \<noteq> None"
    and len2: "length (pl_entries s2) \<le> 4 * length (pl_entries s1)"
    and ruled: "ruled_slots (pl_entries s2) = committed_slots (pl_entries s2)"
    by auto
  note sound2 = task_run_sound [OF r2 sound1]
  from prover_phase [OF sound2 _ ruled] len1 len2 assms(2) obtain s3 gs where r3: "task_run K s2 s3"
    and gs: "pl_entries s3 = pl_entries s2 @ gs" "\<forall>f \<in> set gs. proved_upto f \<noteq> None"
    and ended: "\<forall>slot \<in> set (committed_slots (pl_entries s3)). slot_ended (pl_entries s3) slot"
    by auto
  have sound3: "pipe_inv K g m b s3" "settle_inv s3"
    using task_run_sound [OF r3 sound2] by (simp_all add: sound_def)
  have es: "pl_entries s3 = pl_entries s1 @ (fs @ gs)"
    by (simp add: gs(1) fs(1))
  have "\<forall>f \<in> set (fs @ gs). ruled_slot f \<noteq> None \<or> proved_upto f \<noteq> None"
    using fs(2) gs(2) by auto
  note ids = quiet_ids [OF this, of "pl_entries s1", folded es]
  let ?s4 = "s3\<lparr>pl_proj := projector_on_doorbell mem_ops (pl_log s3) (pl_proj s3)\<rparr>"
  have r4: "task_step K s3 ?s4"
    using step_project [of K s3] by (simp add: task_step_def)
  obtain i where "i \<le> length (pl_entries s3)" "pl_proj s3 = project g (take i (pl_entries s3))"
    using sound3(1) by (auto simp: pipe_inv_def)
  then have proj: "pl_proj ?s4 = project g (pl_entries s3)"
    using mem.projector_outcome [OF TrueI pipe_inv_log(3) [OF sound3(1)], of i g]
    by (simp add: mem_read_from_eq)
  have run: "task_run K s ?s4"
    using r1 r2 r3 r4 by (meson rtranclp.rtrancl_into_rtrancl rtranclp_trans)
  have "\<exists>st. status_of (pl_proj ?s4) i = Some st \<and> lifecycle_ended (st_lifecycle st)"
    if "i \<in> set (received_ids (pl_entries s))" for i
  proof -
    have "i \<in> set (received_ids (pl_entries s1))"
      using that task_run_received [OF r1] by simp
    then have "i \<in> set (committed_ids (pl_entries s3)) \<or> i \<in> set (expired_ids (pl_entries s3))"
      using arg_cong [OF acc, of set_mset] by (simp add: ids)
    with intent_ends [OF _ ended] sound3(2) show ?thesis
      by (simp add: proj settle_inv_def)
  qed
  moreover have "\<exists>slot ids c k. SlotCommitted slot ids c k now \<in> set (pl_entries ?s4)"
    using now1 es by auto
  ultimately show ?thesis
    using run proj task_run_received [OF run] by (intro exI [of _ ?s4]) simp
qed

end
