(* ===== verification/Status_Order.thy ===== *)
theory Status_Order
  imports Settlement
begin

text \<open>
  What a client is told over time. In a log that commits and rules on each slot once, proves each
  slot once and only after its attestation, and places each intent once (\<open>orderly\<close>), the status of
  an intent only moves forward as the read model reads on, and an ended one never changes.
\<close>

section \<open>Orderly logs\<close>

text \<open>The slots an entry ends were attested before it, and none of them was ended by a proof entry before it.\<close>

definition proof_follows :: "entry list \<Rightarrow> entry \<Rightarrow> bool" where
  "proof_follows es f \<longleftrightarrow>
     (\<forall>s. ends f s \<longrightarrow> (\<exists>q g. SlotAttested s q g \<in> set es) \<and> (\<forall>f' \<in> set es. \<not> ends f' s))"

definition well_proven :: "entry list \<Rightarrow> bool" where
  "well_proven es \<longleftrightarrow> (\<forall>n < length es. proof_follows (take n es) (es ! n))"

lemma well_proven_snoc: "well_proven (es @ [e]) \<longleftrightarrow> well_proven es \<and> proof_follows es e"
  by (auto simp: well_proven_def less_Suc_eq nth_append)

lemma well_proven_Nil [simp]: "well_proven []"
  by (simp add: well_proven_def)

lemma well_proven_once:
  assumes "well_proven es" "e \<in> set es" "f \<in> set es" "ends e s" "ends f s"
  shows "f = e"
proof -
  have later: False if "m < n" "n < length es" "ends (es ! m) s" "ends (es ! n) s" for m n
  proof -
    have "es ! m \<in> set (take n es)"
      using that(1,2) by (auto simp: in_set_conv_nth)
    with assms(1) that(2-4) show False
      by (auto simp: well_proven_def proof_follows_def)
  qed
  from assms(2,3) obtain m n where "m < length es" "es ! m = e" "n < length es" "es ! n = f"
    by (auto simp: in_set_conv_nth)
  with assms(4,5) later [of m n] later [of n m] show ?thesis
    by (cases m n rule: linorder_cases) auto
qed

definition orderly :: "entry list \<Rightarrow> bool" where
  "orderly es \<longleftrightarrow>
     distinct (committed_slots es) \<and> distinct (ruled_slots es) \<and> well_proven es \<and>
     distinct (committed_ids es @ expired_ids es)"

lemma orderly_snocD: "orderly (es @ [e]) \<Longrightarrow> orderly es"
  by (auto simp: orderly_def well_proven_snoc)

lemma orderly_take: "orderly es \<Longrightarrow> orderly (take n es)"
proof (induction es rule: rev_induct)
  case (snoc e es)
  then show ?case
    using orderly_snocD [of es e] by (cases "n \<le> length es") simp_all
qed simp

section \<open>Slots\<close>

definition stage_after :: "slot_stage \<Rightarrow> slot_stage \<Rightarrow> bool" where
  "stage_after a b \<longleftrightarrow> a = b \<or> (\<not> stage_ended a \<and> b \<noteq> StageCommitted)"

lemma stage_proven_ended:
  "slot_rows es s = Some row \<Longrightarrow> sr_stage row = StageProven \<Longrightarrow> \<exists>f \<in> set es. ends f s"
proof (induction es arbitrary: row rule: rev_induct)
  case (snoc e es)
  then show ?case
    by (cases e) (auto simp: attest_row_def prove_row_def fail_row_def split: if_splits)
qed simp

lemma stage_failed_ended:
  "slot_rows es s = Some row \<Longrightarrow> sr_stage row = StageFailed r \<Longrightarrow>
     (\<exists>x. AttestFailed s x \<in> set es) \<or> (\<exists>f \<in> set es. ends f s)"
proof (induction es arbitrary: row rule: rev_induct)
  case (snoc e es)
  then show ?case
    by (cases e) (auto simp: attest_row_def prove_row_def fail_row_def split: if_splits)
qed simp

lemma ruled_slots_mem: "e \<in> set es \<Longrightarrow> ruled_slot e = Some s \<Longrightarrow> s \<in> set (ruled_slots es)"
  by (force simp: ruled_slots_def mem_map_filter)

lemma well_proven_attested: "well_proven es \<Longrightarrow> f \<in> set es \<Longrightarrow> ends f s \<Longrightarrow> \<exists>q g. SlotAttested s q g \<in> set es"
proof (induction es rule: rev_induct)
  case (snoc e es)
  then consider "f = e" "proof_follows es e" | "f \<in> set es" "well_proven es"
    by (auto simp: well_proven_snoc)
  then show ?case
  proof cases
    case 1
    with snoc.prems(3) show ?thesis by (fastforce simp: proof_follows_def)
  next
    case 2
    with snoc.IH snoc.prems(3) show ?thesis by auto
  qed
qed simp

text \<open>An ended slot was ruled on, and no later entry fails it again.\<close>

lemma ended_slot_ruled:
  assumes "well_proven es" "slot_rows es s = Some row" "stage_ended (sr_stage row)"
  shows "s \<in> set (ruled_slots es)"
proof -
  have "(\<exists>x. AttestFailed s x \<in> set es) \<or> (\<exists>f \<in> set es. ends f s)"
    using assms(2,3) stage_proven_ended stage_failed_ended by (cases "sr_stage row") fastforce+
  with well_proven_attested [OF assms(1)] ruled_slots_mem show ?thesis
    by (metis ruled_slot.simps(1,2))
qed

lemma attest_failed_and_attested:
  assumes "distinct (ruled_slots es)" "AttestFailed s x \<in> set es" "SlotAttested s q g \<in> set es"
  shows False
proof -
  from assms(2) obtain xs ys where es: "es = xs @ AttestFailed s x # ys"
    by (auto simp: in_set_conv_decomp)
  with assms(3) have "SlotAttested s q g \<in> set xs \<or> SlotAttested s q g \<in> set ys" by auto
  then have "s \<in> set (ruled_slots xs) \<or> s \<in> set (ruled_slots ys)"
    using ruled_slots_mem by fastforce
  with assms(1) show False by (auto simp: es)
qed

lemma slot_moves_on:
  assumes "orderly (es @ [e])" "slot_rows es s = Some row"
  shows "\<exists>row'. slot_rows (es @ [e]) s = Some row' \<and> stage_after (sr_stage row) (sr_stage row')"
proof -
  have wp: "well_proven es" and once: "distinct (ruled_slots es)"
    and ends: "ends e s \<Longrightarrow> (\<exists>q g. SlotAttested s q g \<in> set es) \<and> (\<forall>f \<in> set es. \<not> ends f s)"
    using assms(1) by (auto simp: orderly_def well_proven_snoc proof_follows_def)
  have "s \<in> set (committed_slots es)"
    using assms(2) slot_rows_None [of es s] by auto
  then have new: "slot_of_commit e \<noteq> Some s"
    using assms(1) by (auto simp: orderly_def)
  have failed: "\<not> stage_ended (sr_stage row)" if "ruled_slot e = Some s"
    using ended_slot_ruled [OF wp assms(2)] that assms(1) by (auto simp: orderly_def)
  have proved: "\<not> stage_ended (sr_stage row)" if e: "ends e s"
  proof
    assume "stage_ended (sr_stage row)"
    then have "(\<exists>x. AttestFailed s x \<in> set es) \<or> (\<exists>f \<in> set es. ends f s)"
      using assms(2) stage_proven_ended stage_failed_ended by (cases "sr_stage row") fastforce+
    with ends [OF e] attest_failed_and_attested [OF once] show False by blast
  qed
  show ?thesis
    using assms(2) new failed proved
    by (cases e) (auto simp: stage_after_def attest_row_def prove_row_def fail_row_def)
qed

section \<open>Intents\<close>

lemma intent_moves_on:
  assumes "orderly (es @ [e])" "pj_intents (project g es) i = Some r"
  shows "\<exists>r'. pj_intents (project g (es @ [e])) i = Some r' \<and>
    (r' = r \<or> (ir_slot r = None \<and> ir_expired r = None))"
proof -
  obtain r' where r': "intent_step i (position_of (length es)) e (Some r) = Some r'"
    using intent_step_Some by blast
  moreover have "r' = r \<or> (ir_slot r = None \<and> ir_expired r = None)"
  proof (cases "i \<in> placed_ids e")
    case True
    then have "i \<in> set (committed_ids [e] @ expired_ids [e])"
      by (simp add: placed_ids_eq)
    moreover have "distinct ((committed_ids es @ committed_ids [e]) @ expired_ids es @ expired_ids [e])"
      using assms(1) by (simp add: orderly_def)
    ultimately have "i \<notin> set (committed_ids es)" "i \<notin> set (expired_ids es)"
      by auto
    with project_intents_logged [OF assms(2)] in_committed_ids in_expired_ids show ?thesis
      unfolding intent_logged_def by (metis nth_mem option.exhaust prod.exhaust)
  next
    case False
    with r' show ?thesis
      by (cases e) (auto simp: placed_ids_def intent_step_def place_intents_apply split: if_splits)
  qed
  ultimately show ?thesis
    by (simp add: project_snoc apply_intents assms(2))
qed

section \<open>The status\<close>

fun lifecycle_after :: "lifecycle \<Rightarrow> lifecycle \<Rightarrow> bool" where
  "lifecycle_after Received b = True"
| "lifecycle_after Sequenced b = (b \<noteq> Received \<and> b \<noteq> lifecycle.Expired)"
| "lifecycle_after Preconfirmed b = (b = Preconfirmed \<or> b = FinalProven \<or> (\<exists>r. b = Failed r))"
| "lifecycle_after a b = (b = a)"

lemma lifecycle_after_refl [simp]: "lifecycle_after a a"
  by (cases a) simp_all

lemma lifecycle_after_trans: "lifecycle_after a b \<Longrightarrow> lifecycle_after b c \<Longrightarrow> lifecycle_after a c"
  by (cases a; cases b; cases c) auto

lemma lifecycle_ended_stays: "lifecycle_ended a \<Longrightarrow> lifecycle_after a b \<Longrightarrow> b = a"
  by (cases a) simp_all

definition status_after :: "status_response \<Rightarrow> status_response \<Rightarrow> bool" where
  "status_after a b \<longleftrightarrow>
     lifecycle_after (st_lifecycle a) (st_lifecycle b) \<and> (st_slot a = None \<or> st_slot b = st_slot a)"

lemma status_moves_on:
  assumes "orderly (es @ [e])" "status_of (project g es) i = Some st"
  shows "\<exists>st'. status_of (project g (es @ [e])) i = Some st' \<and> status_after st st'"
proof -
  from assms(2) obtain r where r: "pj_intents (project g es) i = Some r"
    and lc: "lifecycle_of (project g es) r = Some (st_lifecycle st)" and slot: "st_slot st = ir_slot r"
    by (auto simp: status_of_def split: option.splits)
  from intent_moves_on [OF assms(1) r] obtain r' where r': "pj_intents (project g (es @ [e])) i = Some r'"
    and same: "r' = r \<or> (ir_slot r = None \<and> ir_expired r = None)"
    by blast
  obtain lc' where lc': "lifecycle_of (project g (es @ [e])) r' = Some lc'"
    using lifecycle_known [OF r'] by blast
  have "lifecycle_after (st_lifecycle st) lc' \<and> (st_slot st = None \<or> ir_slot r' = st_slot st)"
  proof (cases "ir_slot r = None \<and> ir_expired r = None")
    case True
    with lc slot show ?thesis by (simp add: lifecycle_of_def)
  next
    case False
    with same have r_eq: "r' = r" by blast
    show ?thesis
    proof (cases "ir_expired r")
      case None
      with False obtain s where s: "ir_slot r = Some s" by auto
      with project_slot_known [OF r] obtain row where row: "slot_rows es s = Some row" by blast
      from slot_moves_on [OF assms(1) row] obtain row' where row': "slot_rows (es @ [e]) s = Some row'"
        "stage_after (sr_stage row) (sr_stage row')"
        by blast
      with row None s lc lc' r_eq slot show ?thesis
        by (cases "sr_stage row"; cases "sr_stage row'")
          (auto simp: lifecycle_of_def project_slots stage_after_def)
    qed (use lc lc' r_eq slot in \<open>simp add: lifecycle_of_def\<close>)
  qed
  with r' lc' show ?thesis
    by (simp add: status_of_def status_after_def)
qed

lemma status_after_refl [simp]: "status_after a a"
  by (simp add: status_after_def)

lemma status_after_trans: "status_after a b \<Longrightarrow> status_after b c \<Longrightarrow> status_after a c"
  unfolding status_after_def using lifecycle_after_trans by fastforce

lemma status_never_regresses:
  assumes "status_of (project g es) i = Some st"
  shows "orderly (es @ fs) \<Longrightarrow> \<exists>st'. status_of (project g (es @ fs)) i = Some st' \<and> status_after st st'"
proof (induction fs rule: rev_induct)
  case Nil
  with assms show ?case by simp
next
  case (snoc f fs)
  then have "orderly ((es @ fs) @ [f])" by simp
  with snoc.IH orderly_snocD obtain st' where "status_of (project g (es @ fs)) i = Some st'" "status_after st st'"
    by blast
  with status_moves_on [OF \<open>orderly ((es @ fs) @ [f])\<close>] status_after_trans show ?case
    by (metis append_assoc)
qed

end
