(* ===== verification/Pipeline_Finality.thy ===== *)
theory Pipeline_Finality
  imports Pipeline_Restart Status_Order
begin

text \<open>
  The log of every reachable state is \<open>orderly\<close>: the proofs of the running prover are about slots
  attested before and proven in no entry before, for they stay behind it. So the status the read
  model serves never goes back, from the first answer to any later one.
\<close>

section \<open>A batch is proven once\<close>

lemma ends_proved: "ends f s \<Longrightarrow> \<exists>t. proved_upto f = Some t \<and> s \<le> t"
  by (cases f) auto

lemma batch_follows:
  assumes "discharged P batch f" "map cs_slot batch = slot_run a b" "b < 2 ^ 64" "batch \<noteq> []"
    and "\<forall>c \<in> set batch. verdict_logged es (Some c)" "\<forall>t \<in> set (proved_slots es). unat t < a"
  shows "proof_follows es f"
  unfolding proof_follows_def
proof (intro allI impI conjI)
  fix s
  assume s: "ends f s"
  from slot_run_ends [OF assms(2,4)] obtain b' where b: "b = Suc b'" "a \<le> b'"
    "cs_slot (hd batch) = word_of_nat a" "cs_slot (last batch) = word_of_nat b'"
    by blast
  moreover from b(1,2) assms(3) have "a < 2 ^ 64" "b' < 2 ^ 64" by simp_all
  ultimately have range: "a \<le> unat s" "unat s \<le> b'"
    using assms(1) s by (auto simp: discharged_def word_le_nat_alt unat_of_nat64)
  then have "s \<in> set (slot_run a b)"
    unfolding mem_slot_run by (intro exI [of _ "unat s"]) (simp add: b(1))
  then obtain c where "c \<in> set batch" "s = cs_slot c"
    by (auto simp flip: assms(2))
  with assms(5) show "\<exists>q g. SlotAttested s q g \<in> set es"
    by (auto simp: verdict_logged_def)
  show "\<forall>f' \<in> set es. \<not> ends f' s"
  proof (intro ballI notI)
    fix f'
    assume f': "f' \<in> set es" "ends f' s"
    from ends_proved [OF f'(2)] obtain t where "proved_upto f' = Some t" "s \<le> t" by blast
    with f'(1) have "t \<in> set (proved_slots es)"
      by (force simp: proved_slots_def mem_map_filter)
    with assms(6) \<open>s \<le> t\<close> range(1) show False
      by (fastforce simp: word_le_nat_alt)
  qed
qed

lemma well_proven_other:
  "well_proven es \<Longrightarrow> \<forall>f \<in> set fs. proved_upto f = None \<Longrightarrow> well_proven (es @ fs)"
proof (induction fs rule: rev_induct)
  case (snoc f fs)
  then have "\<not> ends f s" for s
    using ends_proved [of f s] by auto
  with snoc show ?case
    by (simp add: well_proven_snoc proof_follows_def flip: append_assoc)
qed simp

context proving
begin

lemma well_proven_entry:
  assumes "ok l" "prv_inv good (entries l) p (e # todo)" "well_ruled (entries l)"
    and "length (entries l) < 2 ^ 64" "proofs_behind (entries l) p" "well_proven (entries l)"
    and "prover_entry L P e (p, l) = Some (Ok (), p', l')"
  shows "well_proven (entries l')"
proof -
  let ?es = "entries l"
  from prv_entry_effect [OF assms(1-4)] obtain nxt vs fs p1 l1
    where "prover_entry L P e (p, l) = Some (Ok (), p1, l1)" "entries l1 = ?es @ fs"
      and "release_step e (release_state_of p) = Ok (vs, release_state_of p1)" "batched P vs p fs p1"
      and nxt: "pr_next_slot p = word_of_nat nxt" "nxt + length vs < 2 ^ 64"
      and vs: "labelled nxt vs" "\<forall>v \<in> set vs. verdict_logged ?es v"
    by metis
  with assms(7) have l': "entries l' = ?es @ fs" and b: "batched P vs p fs p'"
    and step: "release_step e (release_state_of p) = Ok (vs, release_state_of p')"
    by simp_all
  from nxt(2) have "nxt < 2 ^ 64" by simp
  note facts = prv_inv_pending [OF assms(2-4) nxt(1) this]
  show ?thesis
    using step b vs(1) facts(3,2)
  proof (cases rule: batched_cases)
    case kept
    with assms(6) l' show ?thesis by simp
  next
    case (closed f m)
    have "\<forall>c \<in> set (pr_pending p @ List.map_filter id vs). verdict_logged ?es (Some c)"
      using facts(4) vs(2) by (auto simp: mem_map_filter)
    moreover have "\<forall>t \<in> set (proved_slots ?es). unat t < nxt - length (pr_pending p)"
      using assms(5) \<open>nxt < 2 ^ 64\<close> by (fastforce simp: proofs_behind_def nxt(1) unat_of_nat64)
    ultimately have "proof_follows ?es f"
      using batch_follows [OF closed(4,5) _ closed(3)] closed(6) nxt(2) by simp
    with assms(6) closed(1) l' show ?thesis by (simp add: well_proven_snoc)
  qed
qed

lemma well_proven_timer:
  assumes "ok l" "prv_inv good (entries l) p []" "well_ruled (entries l)"
    and "length (entries l) < 2 ^ 64" "proofs_behind (entries l) p" "well_proven (entries l)"
    and "prover_on_timer L P (p, l) = Some (Ok (), p', l')"
  shows "well_proven (entries l')"
proof (cases "pr_pending p = []")
  case True
  with assms(6,7) show ?thesis
    by (auto simp: prover_on_timer_def)
next
  case False
  from False assms(7) have "prover_flush L P (p, l) = Some (Ok (), p', l')"
    by (simp add: prover_on_timer_def)
  from prover_flush_outcome [OF assms(1) this] obtain f st
    where f: "proof_entry P (pr_pending p) (pr_prover p) = Some (f, st)" and l': "entries l' = entries l @ [f]"
    by auto
  let ?n = "unat (pr_next_slot p)"
  have nxt: "pr_next_slot p = word_of_nat ?n" "?n < 2 ^ 64"
    using unsigned_less [of "pr_next_slot p"] by simp_all
  note facts = prv_inv_pending [OF assms(2-4) nxt]
  have "\<forall>t \<in> set (proved_slots (entries l)). unat t < ?n - length (pr_pending p)"
    using assms(5) by (fastforce simp: proofs_behind_def)
  with batch_follows [OF conjunct2 [OF proof_entry_discharged [OF f]] facts(3) nxt(2) False facts(4)]
  have "proof_follows (entries l) f" by blast
  with assms(6) show ?thesis by (simp add: l' well_proven_snoc)
qed

end

section \<open>Every reachable log is orderly\<close>

lemma well_proven_step:
  "pipe_step K s s' \<Longrightarrow> pipe_inv K g m b s \<Longrightarrow> resume_inv s \<Longrightarrow> well_proven (pl_entries s) \<Longrightarrow>
     well_proven (pl_entries s')"
proof (induction rule: pipe_step.induct)
  case (step_submit intent now_ms s r a l)
  with submit_appends [OF step_submit.hyps(1)] well_proven_other show ?case by fastforce
next
  case (step_seq_append s e es p l)
  then have "ml_entries l = pl_entries s @ [e]" "is_seq_entry e"
    by (auto simp: mem_append_eq pipe_inv_def)
  moreover from this(2) have "proved_upto e = None"
    by (cases e) (simp_all add: is_seq_entry_def)
  ultimately show ?case
    using step_seq_append.prems(3) well_proven_other [of "pl_entries s" "[e]"] by simp
next
  case (step_att_rule s pe pes a l)
  with rule_appends [OF step_att_rule.prems(1) step_att_rule.hyps(1,2)] well_proven_other show ?case
    by fastforce
next
  case (step_prv_entry s e es p l)
  then show ?case
    using mock_proving.well_proven_entry [OF TrueI, of "pl_log s" "pl_prv s" e es K p l]
    by (simp add: pipe_inv_def resume_inv_def log_fits_def)
next
  case (step_prv_timer s p l)
  then show ?case
    using mock_proving.well_proven_timer [OF TrueI, of "pl_log s" "pl_prv s" K p l]
    by (simp add: pipe_inv_def resume_inv_def log_fits_def)
qed simp_all

lemma reachable_well_proven:
  assumes "reachable K (pipeline_start g en backend cfg) s" "mock_latency_ok backend" "0 < bc_batch_size cfg"
  shows "well_proven (pl_entries s)"
  using assms(1)
proof (induction rule: reachable.induct)
  case reach_start
  show ?case by (simp add: pipeline_start_def mem_log_new_def)
next
  case (reach_step s s')
  from reachable_all [OF reach_step.hyps(1) assms(2,3)] reach_step.IH show ?case
    using well_proven_step [OF reach_step.hyps(2)] by blast
next
  case (reach_restart s s')
  from reach_restart.hyps(2) have "pl_log s' = pl_log s"
    by cases (auto simp: pipeline_recover_Some)
  with reach_restart.IH show ?case by simp
qed

lemma reachable_orderly:
  assumes "reachable K (pipeline_start g en backend cfg) s" "mock_latency_ok backend" "0 < bc_batch_size cfg"
  shows "orderly (pl_entries s)"
proof -
  note inv = reachable_inv [OF assms]
  obtain k n where kn: "k \<le> n" "ruled_slots (pl_entries s) = slot_run 0 k" "committed_slots (pl_entries s) = slot_run 0 n"
    using well_ruled_obtains [OF pipe_inv_log(2) [OF inv], of "length (pl_entries s)"] by auto
  then have "n < 2 ^ 64"
    using committed_count_less [OF pipe_inv_log(3) [OF inv], of "length (pl_entries s)"] by simp
  with kn reachable_well_proven [OF assms] pipe_inv_placed_once(1) [OF inv] show ?thesis
    by (simp add: orderly_def distinct_slot_run)
qed

section \<open>What the read model answers, from step to step\<close>

text \<open>The steps of the tasks and the clients, without a restart in between.\<close>

lemma steps_reachable: "(pipe_step K)\<^sup>*\<^sup>* s s' \<Longrightarrow> reachable K s0 s \<Longrightarrow> reachable K s0 s'"
  by (induction rule: rtranclp_induct) (auto intro: reach_step)

lemma pipe_step_proj:
  assumes "pipe_step K s s'" "pipe_inv K g m b s"
  shows "pl_proj s' = pl_proj s \<or> (pl_proj s' = project g (pl_entries s') \<and> pl_entries s' = pl_entries s)"
  using assms(1)
proof cases
  case step_project
  from assms(2) obtain i where "i \<le> length (pl_entries s)" "pl_proj s = project g (take i (pl_entries s))"
    by (auto simp: pipe_inv_def)
  with mem.projector_outcome [OF TrueI pipe_inv_log(3) [OF assms(2)], of i g] step_project show ?thesis
    by (simp add: mem_read_from_eq)
qed simp_all

lemma status_step:
  assumes "reachable K (pipeline_start g en backend cfg) s" "mock_latency_ok backend" "0 < bc_batch_size cfg"
    and "pipe_step K s s'" "status_of (pl_proj s) i = Some st"
  shows "\<exists>st'. status_of (pl_proj s') i = Some st' \<and> status_after st st'"
proof -
  note inv = reachable_inv [OF assms(1-3)]
  then obtain n where n: "pl_proj s = project g (take n (pl_entries s))"
    by (auto simp: pipe_inv_def)
  have "orderly (take n (pl_entries s) @ drop n (pl_entries s))"
    using reachable_orderly [OF assms(1-3)] by simp
  from status_never_regresses [OF assms(5) [unfolded n] this]
  have "\<exists>st'. status_of (project g (pl_entries s)) i = Some st' \<and> status_after st st'" by simp
  with pipe_step_proj [OF assms(4) inv] assms(5) show ?thesis by auto
qed

end
