(* ===== verification/Wire.thy ===== *)
theory Wire
  imports Api
begin

text \<open>
  The JSON a client receives (\<^verbatim>\<open>src/src/receipt.rs\<close>, \<^verbatim>\<open>src/src/admission.rs\<close>, \<^verbatim>\<open>src/src/api.rs\<close>): what
  the derived \<open>Serialize\<close> of each response type writes, field by field in the order of the struct.
  Of serde the documented meaning of the attributes is modelled: \<open>tag\<close> puts the variant's name among its
  fields, \<open>rename_all\<close> spells it in snake case, \<open>flatten\<close> writes a field's fields in its place, a
  newtype is its content, \<open>None\<close> is \<open>null\<close>. \<open>hex\<close> stands for the \<open>hex\<close> crate behind \<open>serde_with\<close>.
\<close>

section \<open>Documents\<close>

text \<open>A document keeps every field written; a value, as \<open>serde_json\<close> collects it, the last of each name.\<close>

datatype json = JNull | JNum u64 | JStr string | JObj "(string \<times> json) list"

datatype json_value = VNull | VNum u64 | VStr string | VObj "string \<rightharpoonup> json_value"

fun to_value :: "json \<Rightarrow> json_value" where
  "to_value JNull = VNull"
| "to_value (JNum n) = VNum n"
| "to_value (JStr s) = VStr s"
| "to_value (JObj fs) = VObj (map_of (rev (map (\<lambda>(k, v). (k, to_value v)) fs)))"

text \<open>Indexing a value as \<open>value[key]\<close>: anything missing is \<open>null\<close>.\<close>

fun value_at :: "json_value \<Rightarrow> string \<Rightarrow> json_value" where
  "value_at (VObj m) k = (case m k of None \<Rightarrow> VNull | Some v \<Rightarrow> v)"
| "value_at _ k = VNull"

definition opt_json :: "('a \<Rightarrow> json) \<Rightarrow> 'a option \<Rightarrow> json" where
  "opt_json f v = (case v of None \<Rightarrow> JNull | Some x \<Rightarrow> f x)"

section \<open>The response types\<close>

definition intent_id_json :: "(bytes \<Rightarrow> string) \<Rightarrow> intent_id \<Rightarrow> json" where
  "intent_id_json hex i = JStr (hex (array_bytes (intent_id_array i)))"

definition commitment_json :: "(bytes \<Rightarrow> string) \<Rightarrow> commitment \<Rightarrow> json" where
  "commitment_json hex c = JStr (hex (array_bytes (commitment_array c)))"

definition signature_json :: "(bytes \<Rightarrow> string) \<Rightarrow> signature \<Rightarrow> json" where
  "signature_json hex s = JStr (hex (array_bytes (signature_array s)))"

definition position_json :: "position \<Rightarrow> json" where
  "position_json p = JNum (position_index p)"

fun lifecycle_fields :: "lifecycle \<Rightarrow> (string \<times> json) list" where
  "lifecycle_fields Received = [(''status'', JStr ''received'')]"
| "lifecycle_fields Sequenced = [(''status'', JStr ''sequenced'')]"
| "lifecycle_fields Preconfirmed = [(''status'', JStr ''preconfirmed'')]"
| "lifecycle_fields lifecycle.Expired = [(''status'', JStr ''expired'')]"
| "lifecycle_fields FinalProven = [(''status'', JStr ''final_proven'')]"
| "lifecycle_fields (Failed reason) = [(''status'', JStr ''failed''), (''reason'', JStr reason)]"

definition lifecycle_json :: "lifecycle \<Rightarrow> json" where
  "lifecycle_json l = JObj (lifecycle_fields l)"

definition status_response_json :: "(bytes \<Rightarrow> string) \<Rightarrow> status_response \<Rightarrow> json" where
  "status_response_json hex r =
     JObj ([(''intent_id'', intent_id_json hex (st_intent_id r))] @ lifecycle_fields (st_lifecycle r) @
       [(''slot'', opt_json JNum (st_slot r))])"

definition sequence_position_json :: "(bytes \<Rightarrow> string) \<Rightarrow> sequence_position \<Rightarrow> json" where
  "sequence_position_json hex p =
     JObj [(''slot'', JNum (sp_slot p)), (''index'', JNum (ucast (sp_index p))),
       (''slot_commitment'', commitment_json hex (sp_slot_commitment p))]"

fun guarantee_state_fields :: "guarantee_state \<Rightarrow> (string \<times> json) list" where
  "guarantee_state_fields guarantee_state.Pending = [(''state'', JStr ''pending'')]"
| "guarantee_state_fields Overdue = [(''state'', JStr ''overdue'')]"
| "guarantee_state_fields (Met slot committed_at_ms) =
     [(''state'', JStr ''met''), (''slot'', JNum slot), (''committed_at_ms'', JNum committed_at_ms)]"
| "guarantee_state_fields (Missed deadline_ms expired_at_ms) =
     [(''state'', JStr ''missed''), (''deadline_ms'', JNum deadline_ms),
      (''expired_at_ms'', JNum expired_at_ms)]"

definition inclusion_guarantee_json :: "inclusion_guarantee \<Rightarrow> json" where
  "inclusion_guarantee_json g =
     JObj ([(''received_at_ms'', JNum (ig_received_at_ms g)), (''max_slots'', JNum (ucast (ig_max_slots g))),
        (''deadline_ms'', JNum (ig_deadline_ms g)),
        (''intent_deadline_ms'', JNum (ig_intent_deadline_ms g))] @ guarantee_state_fields (ig_state g))"

definition preconf_ref_json :: "(bytes \<Rightarrow> string) \<Rightarrow> preconf_ref \<Rightarrow> json" where
  "preconf_ref_json hex p =
     JObj [(''slot'', JNum (pf_slot p)), (''commitment'', commitment_json hex (pf_commitment p)),
       (''quote'', JStr (pf_quote p)), (''signature'', signature_json hex (pf_signature p))]"

definition proof_ref_json :: "proof_ref \<Rightarrow> json" where
  "proof_ref_json p =
     JObj [(''from_slot'', JNum (pf_from_slot p)), (''to_slot'', JNum (pf_to_slot p)),
       (''backend'', JStr (pf_backend p)), (''vkey_hash'', JStr (pf_vkey_hash p)),
       (''proof'', JStr (pf_proof p))]"

definition receipt_json :: "(bytes \<Rightarrow> string) \<Rightarrow> receipt \<Rightarrow> json" where
  "receipt_json hex r =
     JObj ([(''intent_id'', intent_id_json hex (rc_intent_id r))] @ lifecycle_fields (rc_lifecycle r) @
       [(''log_position'', position_json (rc_log_position r)),
        (''sequence'', opt_json (sequence_position_json hex) (rc_sequence r)),
        (''guarantee'', inclusion_guarantee_json (rc_guarantee r)),
        (''preconf'', opt_json (preconf_ref_json hex) (rc_preconf r)),
        (''proof'', opt_json proof_ref_json (rc_proof r))])"

fun rejection_fields :: "(bytes \<Rightarrow> string) \<Rightarrow> rejection \<Rightarrow> (string \<times> json) list" where
  "rejection_fields hex ZeroSize = [(''reason'', JStr ''zero_size'')]"
| "rejection_fields hex EmptyMarket = [(''reason'', JStr ''empty_market'')]"
| "rejection_fields hex (SlippageOutOfRange got limit) =
     [(''reason'', JStr ''slippage_out_of_range''), (''got'', JNum (ucast got)), (''limit'', JNum (ucast limit))]"
| "rejection_fields hex (rejection.Expired deadline_ms now_ms) =
     [(''reason'', JStr ''expired''), (''deadline_ms'', JNum deadline_ms), (''now_ms'', JNum now_ms)]"
| "rejection_fields hex (UnmeetableWindow deadline_ms guarantee_deadline_ms) =
     [(''reason'', JStr ''unmeetable_window''), (''deadline_ms'', JNum deadline_ms),
      (''guarantee_deadline_ms'', JNum guarantee_deadline_ms)]"
| "rejection_fields hex (Replay i) = [(''reason'', JStr ''replay''), (''intent_id'', intent_id_json hex i)]"
| "rejection_fields hex (StaleNonce got last_nonce) =
     [(''reason'', JStr ''stale_nonce''), (''got'', JNum got), (''last'', JNum last_nonce)]"

definition rejection_json :: "(bytes \<Rightarrow> string) \<Rightarrow> rejection \<Rightarrow> json" where
  "rejection_json hex r = JObj (rejection_fields hex r)"

definition submit_response_json :: "(bytes \<Rightarrow> string) \<Rightarrow> submit_response \<Rightarrow> json" where
  "submit_response_json hex r =
     JObj [(''intent_id'', intent_id_json hex (sub_intent_id r)),
       (''log_position'', position_json (sub_log_position r))]"

section \<open>Reading a value\<close>

lemma value_at_obj:
  "value_at (to_value (JObj fs)) k = (case map_of (rev fs) k of None \<Rightarrow> VNull | Some v \<Rightarrow> to_value v)"
proof -
  have "map_of (rev (map (\<lambda>(k, v). (k, to_value v)) fs)) k = map_option to_value (map_of (rev fs) k)"
    by (simp only: rev_map map_of_map o_apply)
  then show ?thesis
    by (simp split: option.split)
qed

lemma to_value_leaf [simp]:
  "to_value (intent_id_json hex i) = VStr (hex (array_bytes (intent_id_array i)))"
  "to_value (commitment_json hex c) = VStr (hex (array_bytes (commitment_array c)))"
  "to_value (signature_json hex s) = VStr (hex (array_bytes (signature_array s)))"
  "to_value (position_json p) = VNum (position_index p)"
  "to_value (opt_json f None) = VNull" "to_value (opt_json f (Some x)) = to_value (f x)"
  by (simp_all add: intent_id_json_def commitment_json_def signature_json_def position_json_def opt_json_def)

lemma receipt_at:
  "value_at (to_value (receipt_json hex r)) ''intent_id'' = to_value (intent_id_json hex (rc_intent_id r))"
  "value_at (to_value (receipt_json hex r)) ''status'' = value_at (to_value (lifecycle_json (rc_lifecycle r))) ''status''"
  "value_at (to_value (receipt_json hex r)) ''reason'' = value_at (to_value (lifecycle_json (rc_lifecycle r))) ''reason''"
  "value_at (to_value (receipt_json hex r)) ''log_position'' = to_value (position_json (rc_log_position r))"
  "value_at (to_value (receipt_json hex r)) ''sequence'' =
     to_value (opt_json (sequence_position_json hex) (rc_sequence r))"
  "value_at (to_value (receipt_json hex r)) ''guarantee'' = to_value (inclusion_guarantee_json (rc_guarantee r))"
  "value_at (to_value (receipt_json hex r)) ''preconf'' = to_value (opt_json (preconf_ref_json hex) (rc_preconf r))"
  "value_at (to_value (receipt_json hex r)) ''proof'' = to_value (opt_json proof_ref_json (rc_proof r))"
  by (cases "rc_lifecycle r"; simp add: receipt_json_def lifecycle_json_def value_at_obj del: to_value.simps)+

lemma lifecycle_wire_inj:
  "value_at (to_value (lifecycle_json l)) ''status'' = value_at (to_value (lifecycle_json l')) ''status'' \<Longrightarrow>
   value_at (to_value (lifecycle_json l)) ''reason'' = value_at (to_value (lifecycle_json l')) ''reason'' \<Longrightarrow>
   l = l'"
  by (cases l; cases l'; simp add: lifecycle_json_def)

section \<open>Names written once\<close>

text \<open>A document is unambiguous when a name written twice in an object has the same content both times.\<close>

fun unambiguous :: "json \<Rightarrow> bool" where
  "unambiguous (JObj fs) \<longleftrightarrow>
     list_all (\<lambda>(k, v). unambiguous v \<and> list_all (\<lambda>(k', v'). k = k' \<longrightarrow> v = v') fs) fs"
| "unambiguous _ \<longleftrightarrow> True"

lemma unambiguous_leaf [simp]:
  "unambiguous (intent_id_json hex i)" "unambiguous (commitment_json hex c)"
  "unambiguous (signature_json hex s)" "unambiguous (position_json p)"
  by (simp_all add: intent_id_json_def commitment_json_def signature_json_def position_json_def)

lemma unambiguous_parts [simp]:
  "unambiguous (opt_json JNum n)"
  "unambiguous (opt_json (sequence_position_json hex) s)"
  "unambiguous (opt_json (preconf_ref_json hex) p)"
  "unambiguous (opt_json proof_ref_json q)"
  by (simp_all add: opt_json_def sequence_position_json_def preconf_ref_json_def proof_ref_json_def
      split: option.split)

text \<open>The guarantee of a missed window writes \<open>deadline_ms\<close> twice; nothing else is written twice.\<close>

lemma unambiguous_guarantee:
  "unambiguous (inclusion_guarantee_json g) \<longleftrightarrow> (\<forall>d t. ig_state g = Missed d t \<longrightarrow> d = ig_deadline_ms g)"
  by (cases "ig_state g") (auto simp: inclusion_guarantee_json_def)

lemma unambiguous_receipt:
  "unambiguous (receipt_json hex r) \<longleftrightarrow> unambiguous (inclusion_guarantee_json (rc_guarantee r))"
  by (cases "rc_lifecycle r") (auto simp: receipt_json_def)

lemma unambiguous_status: "unambiguous (status_response_json hex r)"
  by (cases "st_lifecycle r") (auto simp: status_response_json_def)

lemma unambiguous_rejection: "unambiguous (rejection_json hex r)"
  by (cases r) (simp_all add: rejection_json_def)

section \<open>What the wire keeps\<close>

lemma json_leaf_inject:
  assumes "inj hex"
  shows "to_value (intent_id_json hex i) = to_value (intent_id_json hex j) \<longleftrightarrow> i = j"
    and "to_value (commitment_json hex c) = to_value (commitment_json hex d) \<longleftrightarrow> c = d"
    and "to_value (signature_json hex s) = to_value (signature_json hex t) \<longleftrightarrow> s = t"
    and "to_value (position_json p) = to_value (position_json q) \<longleftrightarrow> p = q"
  subgoal by (cases i; cases j; simp add: inj_eq [OF assms])
  subgoal by (cases c; cases d; simp add: inj_eq [OF assms])
  subgoal by (cases s; cases t; simp add: inj_eq [OF assms])
  subgoal by (cases p; cases q; simp)
  done

lemma u32_widen_inject: "(ucast (a :: u32) :: u64) = ucast b \<longleftrightarrow> a = b"
  by transfer (simp add: min_def)

text \<open>Two objects of the same value agree at every name.\<close>

lemma same_value_at:
  "to_value (JObj fs) = to_value (JObj gs) \<Longrightarrow>
    (case map_of (rev fs) k of None \<Rightarrow> VNull | Some v \<Rightarrow> to_value v) =
    (case map_of (rev gs) k of None \<Rightarrow> VNull | Some v \<Rightarrow> to_value v)"
  by (metis value_at_obj)

lemma sequence_position_wire_inj:
  assumes "inj hex" "to_value (sequence_position_json hex a) = to_value (sequence_position_json hex b)"
  shows "a = b"
proof -
  note at = same_value_at [OF assms(2) [unfolded sequence_position_json_def]]
  have "sp_slot a = sp_slot b" using at [of "''slot''"] by simp
  moreover have "ucast (sp_index a) = (ucast (sp_index b) :: u64)" using at [of "''index''"] by simp
  moreover have "sp_slot_commitment a = sp_slot_commitment b"
    using at [of "''slot_commitment''"] json_leaf_inject(2) [OF assms(1)] by simp
  ultimately show ?thesis by (simp add: u32_widen_inject)
qed

lemma preconf_ref_wire_inj:
  assumes "inj hex" "to_value (preconf_ref_json hex a) = to_value (preconf_ref_json hex b)"
  shows "a = b"
proof -
  note at = same_value_at [OF assms(2) [unfolded preconf_ref_json_def]]
  have "pf_slot a = pf_slot b" using at [of "''slot''"] by simp
  moreover have "pf_commitment a = pf_commitment b"
    using at [of "''commitment''"] json_leaf_inject(2) [OF assms(1)] by simp
  moreover have "pf_quote a = pf_quote b" using at [of "''quote''"] by simp
  moreover have "pf_signature a = pf_signature b"
    using at [of "''signature''"] json_leaf_inject(3) [OF assms(1)] by simp
  ultimately show ?thesis by simp
qed

lemma proof_ref_wire_inj:
  assumes "to_value (proof_ref_json a) = to_value (proof_ref_json b)"
  shows "a = b"
proof -
  note at = same_value_at [OF assms [unfolded proof_ref_json_def]]
  show ?thesis
    using at [of "''from_slot''"] at [of "''to_slot''"] at [of "''backend''"] at [of "''vkey_hash''"]
      at [of "''proof''"] by simp
qed

lemma guarantee_wire_inj:
  assumes "unambiguous (inclusion_guarantee_json a)" "unambiguous (inclusion_guarantee_json b)"
    and "to_value (inclusion_guarantee_json a) = to_value (inclusion_guarantee_json b)"
  shows "a = b"
proof -
  note at = same_value_at [OF assms(3) [unfolded inclusion_guarantee_json_def]]
  have "ig_received_at_ms a = ig_received_at_ms b"
    using at [of "''received_at_ms''"] by (cases "ig_state a"; cases "ig_state b"; simp)
  moreover have "ucast (ig_max_slots a) = (ucast (ig_max_slots b) :: u64)"
    using at [of "''max_slots''"] by (cases "ig_state a"; cases "ig_state b"; simp)
  moreover have "ig_intent_deadline_ms a = ig_intent_deadline_ms b"
    using at [of "''intent_deadline_ms''"] by (cases "ig_state a"; cases "ig_state b"; simp)
  moreover have "ig_deadline_ms a = ig_deadline_ms b"
    using at [of "''deadline_ms''"] assms(1,2)
    by (cases "ig_state a"; cases "ig_state b"; simp add: unambiguous_guarantee)
  moreover have "ig_state a = ig_state b"
    using at [of "''state''"] at [of "''slot''"] at [of "''committed_at_ms''"] at [of "''deadline_ms''"]
      at [of "''expired_at_ms''"]
    by (cases "ig_state a"; cases "ig_state b"; simp)
  ultimately show ?thesis by (simp add: u32_widen_inject)
qed

lemma optional_wire_inj:
  assumes "\<And>x y. to_value (f x) = to_value (f y) \<Longrightarrow> x = y" "\<And>x. to_value (f x) \<noteq> VNull"
    and "to_value (opt_json f a) = to_value (opt_json f b)"
  shows "a = b"
  using assms(3) assms(1) assms(2) [symmetric] by (cases a; cases b; auto simp: assms(2))

text \<open>
  C25: Nothing of a receipt is lost on the wire, unless its guarantee names two different deadlines: two
  unambiguous receipts with the same JSON value are the same receipt, provided \<open>hex\<close> is injective.
\<close>

theorem receipt_wire_lossless:
  assumes "inj hex" "unambiguous (receipt_json hex r)" "unambiguous (receipt_json hex r')"
  shows "to_value (receipt_json hex r) = to_value (receipt_json hex r') \<longleftrightarrow> r = r'"
proof
  assume same: "to_value (receipt_json hex r) = to_value (receipt_json hex r')"
  note at = receipt_at [of hex r, unfolded same receipt_at]
  have "rc_intent_id r = rc_intent_id r'" "rc_log_position r = rc_log_position r'"
    using at(1,4) json_leaf_inject(1,4) [OF assms(1)] by metis+
  moreover have "rc_lifecycle r = rc_lifecycle r'"
    using lifecycle_wire_inj [OF at(2,3)] ..
  moreover have "rc_sequence r = rc_sequence r'"
    using sequence_position_wire_inj [OF assms(1)] at(5)
    by (intro optional_wire_inj [of "sequence_position_json hex"]) (auto simp: sequence_position_json_def)
  moreover have "rc_guarantee r = rc_guarantee r'"
    using at(6) assms(2,3) guarantee_wire_inj [of "rc_guarantee r" "rc_guarantee r'"]
    by (simp add: unambiguous_receipt)
  moreover have "rc_preconf r = rc_preconf r'"
    using preconf_ref_wire_inj [OF assms(1)] at(7)
    by (intro optional_wire_inj [of "preconf_ref_json hex"]) (auto simp: preconf_ref_json_def)
  moreover have "rc_proof r = rc_proof r'"
    using proof_ref_wire_inj at(8)
    by (intro optional_wire_inj [of proof_ref_json]) (auto simp: proof_ref_json_def)
  ultimately show "r = r'" by simp
qed simp

text \<open>Two receipts that differ in the place of their intent in the log differ on the wire.\<close>

definition plain_hex :: "bytes \<Rightarrow> string" where
  "plain_hex bs = map (\<lambda>b. char_of (unat b)) bs"

lemma inj_plain_hex: "inj plain_hex"
proof -
  have "inj (\<lambda>b :: u8. char_of (unat b))"
  proof (rule injI)
    fix b c :: u8
    assume "char_of (unat b) = char_of (unat c)"
    then have "of_char (char_of (unat b)) = (of_char (char_of (unat c)) :: nat)" by simp
    then show "b = c"
      using unsigned_less [of b, where 'a = nat] unsigned_less [of c, where 'a = nat] by (simp add: word_unat_eq_iff)
  qed
  then show ?thesis
    by (simp add: plain_hex_def [abs_def] inj_mapI)
qed

definition plain_receipt :: "u64 \<Rightarrow> receipt" where
  "plain_receipt n =
     \<lparr>rc_intent_id = IntentId (array_repeat 1), rc_lifecycle = Received, rc_log_position = Position n,
      rc_sequence = None,
      rc_guarantee = \<lparr>ig_received_at_ms = 5, ig_max_slots = 2, ig_deadline_ms = 7, ig_intent_deadline_ms = 9,
        ig_state = guarantee_state.Pending\<rparr>,
      rc_preconf = None, rc_proof = None\<rparr>"

theorem receipt_wire_lossless_witness:
  "to_value (receipt_json plain_hex (plain_receipt 3)) \<noteq> to_value (receipt_json plain_hex (plain_receipt 4))"
proof -
  have "unambiguous (receipt_json plain_hex (plain_receipt n))" for n
    by (simp add: unambiguous_receipt unambiguous_guarantee plain_receipt_def)
  then show ?thesis
    using receipt_wire_lossless [OF inj_plain_hex, of "plain_receipt 3" "plain_receipt 4"]
    by (simp add: plain_receipt_def)
qed

end
