(* ===== verification/Http.thy ===== *)
theory Http
  imports Wire Projection_Properties
begin

text \<open>
  The router of \<^verbatim>\<open>src/src/api.rs\<close>: what a client is answered. A request is one whose method and path
  axum has matched to a route and whose body it has extracted; a reply is the status code and the body, a
  JSON document or a text.
\<close>

datatype request =
    GetHealth
  | PostIntents intent
  | GetIntent string
      \<comment> \<open>\<open>/intents/{id}\<close>\<close>
  | GetIntentReceipt string
      \<comment> \<open>\<open>/intents/{id}/receipt\<close>\<close>

datatype body = TextReply string | JsonReply json

datatype reply =
    Served body
      \<comment> \<open>status 200\<close>
  | Refused status_code body

fun body_of :: "(bytes \<Rightarrow> string) \<Rightarrow> response_body \<Rightarrow> body" where
  "body_of hex (JsonBody r) = JsonReply (rejection_json hex r)"
| "body_of hex (TextBody s) = TextReply s"

definition reply_of :: "(bytes \<Rightarrow> string) \<Rightarrow> ('a \<Rightarrow> json) \<Rightarrow> api_error + 'a \<Rightarrow> reply" where
  "reply_of hex f r =
    (case r of
       Ok x \<Rightarrow> Served (JsonReply (f x))
     | Err e \<Rightarrow> (case into_response e of (code, b) \<Rightarrow> Refused code (body_of hex b)))"

fun router ::
    "'l log_ops \<Rightarrow> keccak \<Rightarrow> (bytes \<Rightarrow> string) \<Rightarrow> (string \<Rightarrow> bytes option) \<Rightarrow> u64 \<Rightarrow>
       request \<Rightarrow> 'l app_state \<Rightarrow> reply \<times> 'l app_state" where
  "router L K hex unhex now_ms GetHealth app = (Served (TextReply health), app)"
| "router L K hex unhex now_ms (PostIntents intent) app =
    (let (r, app') = submit L K intent now_ms app in (reply_of hex (submit_response_json hex) r, app'))"
| "router L K hex unhex now_ms (GetIntent path) app =
    (reply_of hex (status_response_json hex) (api_status_of L unhex path app), app)"
| "router L K hex unhex now_ms (GetIntentReceipt path) app =
    (reply_of hex (receipt_json hex) (api_receipt_of L unhex hex path now_ms app), app)"

text \<open>The id a status names.\<close>

lemma status_response_at:
  "value_at (to_value (status_response_json hex r)) ''intent_id'' = to_value (intent_id_json hex (st_intent_id r))"
  by (cases "st_lifecycle r"; simp add: status_response_json_def value_at_obj del: to_value.simps)

text \<open>
  C28: Every read request is answered, changes nothing, and its answer tells the cases apart. While the
  projector has consumed \<open>i\<close> entries, a path that is no id is a bad request; a known intent is served a
  document with its id; an unknown one is a retry while entries remain to be consumed, and not-found only
  when the whole log has no such intent.
\<close>

theorem http_miss_is_told_apart:
  assumes "app_projected ml_entries g i app" and "req = GetIntent path \<or> req = GetIntentReceipt path"
  shows "let (rep, app') = router mem_ops K hex unhex now_ms req app; es = ml_entries (app_log app)
    in app' = app \<and>
      (case intent_id_parse unhex path of
         None \<Rightarrow> rep = Refused BAD_REQUEST (TextReply ''intent id must be 64 hex chars'')
       | Some x \<Rightarrow>
           if x \<in> set (received_ids (take i es))
           then (\<exists>d. rep = Served (JsonReply d) \<and>
             value_at (to_value d) ''intent_id'' = VStr (hex (array_bytes (intent_id_array x))))
           else if i < length es then rep = Refused SERVICE_UNAVAILABLE (TextReply ''projection lagging; retry'')
           else rep = Refused NOT_FOUND (TextReply ''unknown intent''))"
proof (cases "intent_id_parse unhex path")
  case None
  with assms(2) show ?thesis
    by (auto simp: api_status_of_def api_receipt_of_def reply_of_def into_response_def)
next
  case (Some x)
  from assms(2) mem.status_outcome [OF TrueI assms(1) Some] mem.receipt_outcome [OF TrueI assms(1) Some, of hex now_ms]
    Some show ?thesis
    by (auto simp: reply_of_def into_response_def status_response_at receipt_at(1) Let_def split: sum.splits if_splits)
qed

definition lagging_app :: "mem_log app_state" where
  "lagging_app =
     \<lparr>app_log = \<lparr>ml_entries = [AttestFailed 0 []], ml_doorbell = []\<rparr>,
      app_projections = project guarantee_default [], app_admission = admission_default\<rparr>"

theorem http_miss_is_told_apart_witness:
  "fst (router mem_ops (\<lambda>_. array_repeat 0) (\<lambda>_. []) (\<lambda>_. Some (replicate 32 1)) 7 (GetIntentReceipt ''id'') lagging_app) =
     Refused SERVICE_UNAVAILABLE (TextReply ''projection lagging; retry'')"
proof -
  have "app_projected ml_entries guarantee_default 0 lagging_app"
    by (simp add: app_projected_def lagging_app_def)
  from http_miss_is_told_apart [OF this, of "GetIntentReceipt ''id''" "''id''" "\<lambda>_. array_repeat 0" "\<lambda>_. []"
      "\<lambda>_. Some (replicate 32 1)" 7]
  show ?thesis
    by (simp add: intent_id_parse_def array_try_from_def lagging_app_def received_ids_def case_prod_beta Let_def
        del: router.simps)
qed

end
