(* ===== verification/Wire_Schema.thy ===== *)
theory Wire_Schema
  imports Wire Pipeline_Safety
begin

text \<open>
  What a client may rely on in the JSON of a receipt: a schema with one shape per status, and that the
  receipts of the running pipeline have it. \<open>receipt_shaped\<close> states it of the receipt, \<open>conforms\<close> of
  the value a client parses.
\<close>

section \<open>Schemas\<close>

datatype schema =
    TNull
  | TNum
  | TStr
  | TWord string
  | TOneOf "schema list"
  | TObj "(string \<times> schema) list"

text \<open>An object has exactly the names of its schema.\<close>

fun conforms :: "schema \<Rightarrow> json_value \<Rightarrow> bool" where
  "conforms TNull v \<longleftrightarrow> v = VNull"
| "conforms TNum v \<longleftrightarrow> (case v of VNum _ \<Rightarrow> True | _ \<Rightarrow> False)"
| "conforms TStr v \<longleftrightarrow> (case v of VStr _ \<Rightarrow> True | _ \<Rightarrow> False)"
| "conforms (TWord w) v \<longleftrightarrow> v = VStr w"
| "conforms (TOneOf ts) v \<longleftrightarrow> list_ex (\<lambda>t. conforms t v) ts"
| "conforms (TObj ts) v \<longleftrightarrow>
     (case v of
        VObj m \<Rightarrow> dom m = set (map fst ts) \<and>
          list_all (\<lambda>(k, t). case m k of None \<Rightarrow> False | Some w \<Rightarrow> conforms t w) ts
      | _ \<Rightarrow> False)"

lemma conforms_obj [simp]:
  "conforms (TObj ts) (to_value (JObj fs)) \<longleftrightarrow>
     list_all (\<lambda>(k, v). list_ex (\<lambda>(k', t). k = k') ts) fs \<and>
     list_all (\<lambda>(k, t). case map_of (rev fs) k of None \<Rightarrow> False | Some v \<Rightarrow> conforms t (to_value v)) ts"
proof -
  have m: "map_of (rev (map (\<lambda>(k, v). (k, to_value v)) fs)) = map_option to_value \<circ> map_of (rev fs)"
    by (simp only: rev_map map_of_map)
  have "dom (map_of (rev fs)) = fst ` set fs"
    by (simp add: dom_map_of_conv_image_fst)
  then have "dom (map_option to_value \<circ> map_of (rev fs)) = fst ` set fs"
    by (auto simp: dom_def)
  moreover have "list_all (\<lambda>(k, v). list_ex (\<lambda>(k', t). k = k') ts) fs \<longleftrightarrow> fst ` set fs \<subseteq> fst ` set ts"
    by (auto simp: list_all_iff list_ex_iff subset_iff image_iff case_prod_beta)
  moreover have "fst ` set ts \<subseteq> fst ` set fs"
    if "list_all (\<lambda>(k, t). case map_of (rev fs) k of None \<Rightarrow> False | Some v \<Rightarrow> conforms t (to_value v)) ts"
  proof
    fix k assume "k \<in> fst ` set ts"
    with that have "map_of (rev fs) k \<noteq> None"
      by (auto simp: list_all_iff split: option.splits)
    then show "k \<in> fst ` set fs"
      by (simp add: map_of_eq_None_iff)
  qed
  ultimately show ?thesis
    unfolding to_value.simps conforms.simps m
    by (auto simp: list_all_iff case_prod_beta option.case_eq_if)
qed

declare to_value.simps(4) [simp del] conforms.simps(6) [simp del]

definition sequence_schema :: schema where
  "sequence_schema = TObj [(''slot'', TNum), (''index'', TNum), (''slot_commitment'', TStr)]"

definition guarantee_schema :: "(string \<times> schema) list \<Rightarrow> schema" where
  "guarantee_schema state =
     TObj ([(''received_at_ms'', TNum), (''max_slots'', TNum), (''deadline_ms'', TNum),
       (''intent_deadline_ms'', TNum)] @ state)"

definition open_schema :: schema where
  "open_schema = guarantee_schema [(''state'', TOneOf [TWord ''pending'', TWord ''overdue''])]"

definition met_schema :: schema where
  "met_schema = guarantee_schema [(''state'', TWord ''met''), (''slot'', TNum), (''committed_at_ms'', TNum)]"

definition missed_schema :: schema where
  "missed_schema = guarantee_schema [(''state'', TWord ''missed''), (''expired_at_ms'', TNum)]"

definition preconf_schema :: schema where
  "preconf_schema = TObj [(''slot'', TNum), (''commitment'', TStr), (''quote'', TStr), (''signature'', TStr)]"

definition proof_schema :: schema where
  "proof_schema =
     TObj [(''from_slot'', TNum), (''to_slot'', TNum), (''backend'', TStr), (''vkey_hash'', TStr), (''proof'', TStr)]"

definition receipt_of_status ::
    "(string \<times> schema) list \<Rightarrow> schema \<Rightarrow> schema \<Rightarrow> schema \<Rightarrow> schema \<Rightarrow> schema" where
  "receipt_of_status status sequence guarantee preconf proof =
     TObj ([(''intent_id'', TStr)] @ status @
       [(''log_position'', TNum), (''sequence'', sequence), (''guarantee'', guarantee),
        (''preconf'', preconf), (''proof'', proof)])"

definition receipt_schema :: schema where
  "receipt_schema =
     TOneOf
       [receipt_of_status [(''status'', TWord ''received'')] TNull open_schema TNull TNull,
        receipt_of_status [(''status'', TWord ''expired'')] TNull missed_schema TNull TNull,
        receipt_of_status [(''status'', TWord ''sequenced'')] sequence_schema met_schema TNull TNull,
        receipt_of_status [(''status'', TWord ''preconfirmed'')] sequence_schema met_schema preconf_schema TNull,
        receipt_of_status [(''status'', TWord ''final_proven'')] sequence_schema met_schema preconf_schema proof_schema,
        receipt_of_status [(''status'', TWord ''failed''), (''reason'', TStr)] sequence_schema met_schema
          (TOneOf [TNull, preconf_schema]) (TOneOf [TNull, proof_schema])]"

section \<open>The shape of a receipt\<close>

definition receipt_shaped :: "receipt \<Rightarrow> bool" where
  "receipt_shaped r \<longleftrightarrow>
    (let met = rc_sequence r \<noteq> None \<and> (\<exists>slot t. ig_state (rc_guarantee r) = Met slot t);
         nothing = rc_sequence r = None \<and> rc_preconf r = None \<and> rc_proof r = None
     in case rc_lifecycle r of
          Received \<Rightarrow> nothing \<and> ig_state (rc_guarantee r) \<in> {guarantee_state.Pending, Overdue}
        | lifecycle.Expired \<Rightarrow> nothing \<and> (\<exists>t. ig_state (rc_guarantee r) = Missed (ig_deadline_ms (rc_guarantee r)) t)
        | Sequenced \<Rightarrow> met \<and> rc_preconf r = None \<and> rc_proof r = None
        | Preconfirmed \<Rightarrow> met \<and> rc_preconf r \<noteq> None \<and> rc_proof r = None
        | FinalProven \<Rightarrow> met \<and> rc_preconf r \<noteq> None \<and> rc_proof r \<noteq> None
        | Failed _ \<Rightarrow> met)"

lemma evidence_conforms [simp]:
  "conforms sequence_schema (to_value (sequence_position_json hex sp))"
  "conforms preconf_schema (to_value (preconf_ref_json hex pf))"
  "conforms proof_schema (to_value (proof_ref_json pr))"
  by (simp_all add: sequence_schema_def sequence_position_json_def preconf_schema_def preconf_ref_json_def
      proof_schema_def proof_ref_json_def)

lemma guarantee_conforms:
  "ig_state g \<in> {guarantee_state.Pending, Overdue} \<Longrightarrow>
    conforms open_schema (to_value (inclusion_guarantee_json g))"
  "ig_state g = Met slot t \<Longrightarrow> conforms met_schema (to_value (inclusion_guarantee_json g))"
  "ig_state g = Missed d t \<Longrightarrow> conforms missed_schema (to_value (inclusion_guarantee_json g))"
  by (auto simp: open_schema_def met_schema_def missed_schema_def guarantee_schema_def inclusion_guarantee_json_def)

lemma optional_conforms:
  "conforms TNull (to_value (opt_json f v)) \<longleftrightarrow> v = None \<or> (\<exists>x. v = Some x \<and> to_value (f x) = VNull)"
  "v \<noteq> None \<Longrightarrow> (\<And>x. conforms t (to_value (f x))) \<Longrightarrow> conforms t (to_value (opt_json f v))"
  "(\<And>x. conforms t (to_value (f x))) \<Longrightarrow> conforms (TOneOf [TNull, t]) (to_value (opt_json f v))"
  by (cases v; auto)+

section \<open>The receipts of the read model\<close>

lemma receipt_of_deadline:
  "receipt_of hex p i now_ms = Some r \<Longrightarrow> pj_intents p i = Some row \<Longrightarrow>
    ig_deadline_ms (rc_guarantee r) = deadline_for (pj_guarantee p) (ir_received_at_ms row)"
  by (auto simp: receipt_of_def Let_def split: bind_splits)

text \<open>Over any log in which the intents are placed once and expire when their guarantee says.\<close>

lemma receipt_of_shaped:
  assumes "receipt_of hex (project g es) i now_ms = Some r"
    and once: "i \<notin> set (committed_ids es) \<or> i \<notin> set (expired_ids es)"
    and fine: "\<And>d t intent u. IntentExpired i d t \<in> set es \<Longrightarrow> IntentReceived i intent u \<in> set es \<Longrightarrow>
      d = deadline_for g u"
  shows "receipt_shaped r"
proof -
  obtain row where row: "pj_intents (project g es) i = Some row" "rc_intent_id r = i"
    and lc: "lifecycle_of (project g es) row = Some (rc_lifecycle r)" and "rc_log_position r = ir_position row"
    and parts: "rc_sequence r = receipt_sequence row (Option.bind (ir_slot row) (slot_rows es))"
      "rc_preconf r = receipt_preconf hex row (Option.bind (ir_slot row) (slot_rows es))"
      "rc_proof r = receipt_proof hex (Option.bind (ir_slot row) (slot_rows es))"
      "ig_state (rc_guarantee r) = receipt_state (deadline_for g (ir_received_at_ms row)) now_ms row
         (Option.bind (ir_slot row) (slot_rows es))"
    by (rule receipt_of_Some [OF assms(1)])
  note log = project_intents_logged [OF row(1), unfolded intent_logged_def]
  show ?thesis
  proof (cases "ir_expired row")
    case (Some dt)
    obtain d t where dt: "ir_expired row = Some (d, t)" using Some by (cases dt) simp
    with log have gone: "IntentExpired i d t \<in> set es" by blast
    with once in_expired_ids have "i \<notin> set (committed_ids es)" by blast
    with log have "ir_slot row = None"
      using in_committed_ids by (metis nth_mem not_None_eq)
    moreover from log obtain intent where "IntentReceived i intent (ir_received_at_ms row) \<in> set es"
      by (metis nth_mem)
    from fine [OF gone this] have deadline: "d = ig_deadline_ms (rc_guarantee r)"
      using receipt_of_deadline [OF assms(1) row(1)] by simp
    ultimately show ?thesis using deadline dt lc parts
      by (auto simp: receipt_shaped_def lifecycle_of_def receipt_sequence_def receipt_preconf_def
          receipt_proof_def receipt_state_def)
  next
    case None
    note open_row = None
    show ?thesis
    proof (cases "ir_slot row")
      case None
      with open_row lc parts show ?thesis
        by (auto simp: receipt_shaped_def lifecycle_of_def receipt_sequence_def receipt_preconf_def
            receipt_proof_def receipt_state_def)
    next
      case (Some s)
      then obtain sr where sr: "slot_rows es s = Some sr"
        using project_slot_known [OF row(1)] by blast
      from log Some obtain k where "ir_index_in_slot row = Some k" by auto
      with open_row Some sr lc [symmetric] parts slot_rows_evidence [OF sr] show ?thesis
        by (auto simp: receipt_shaped_def lifecycle_of_def receipt_sequence_def receipt_preconf_def
            receipt_proof_def receipt_state_def project_slots evidence_ok_def split: slot_stage.splits)
    qed
  qed
qed

lemma ids_take_subset:
  "set (committed_ids (take k es)) \<subseteq> set (committed_ids es)"
  "set (expired_ids (take k es)) \<subseteq> set (expired_ids es)"
  "set (received_ids (take k es)) \<subseteq> set (received_ids es)"
  using ids_simps(3,4) [of "take k es" "drop k es"] received_ids_append [of "take k es" "drop k es"]
  by (auto simp del: ids_simps(3,4))

lemma pipeline_receipt_shaped:
  assumes inv: "pipe_inv K g m b s" and r: "receipt_of hex (pl_proj s) i now_ms = Some r"
  shows "receipt_shaped r"
proof -
  let ?es = "pl_entries s"
  from inv obtain k where proj: "pl_proj s = project g (take k ?es)"
    by (auto simp: pipe_inv_def)
  show ?thesis
  proof (rule receipt_of_shaped [OF r [unfolded proj]])
    show "i \<notin> set (committed_ids (take k ?es)) \<or> i \<notin> set (expired_ids (take k ?es))"
      using pipe_inv_placed_once(1) [OF inv] ids_take_subset [of k ?es] by auto
    fix d t intent u
    assume gone: "IntentExpired i d t \<in> set (take k ?es)" and rec: "IntentReceived i intent u \<in> set (take k ?es)"
    show "d = deadline_for g u"
      by (rule pipe_inv_deadline [OF inv in_set_takeD [OF gone] in_set_takeD [OF rec]])
  qed
qed

lemma receipt_shaped_conforms: "receipt_shaped r \<Longrightarrow> conforms receipt_schema (to_value (receipt_json hex r))"
  by (cases "rc_lifecycle r"; cases "rc_preconf r"; cases "rc_proof r")
    (auto simp: receipt_shaped_def receipt_schema_def receipt_of_status_def receipt_json_def
      guarantee_conforms optional_conforms Let_def)

lemma receipt_shaped_unambiguous: "receipt_shaped r \<Longrightarrow> unambiguous (receipt_json hex r)"
  by (cases "rc_lifecycle r") (auto simp: receipt_shaped_def unambiguous_receipt unambiguous_guarantee Let_def)

end
