(* ===== verification/Testkit.thy ===== *)
theory Testkit
  imports Pipeline
begin

text \<open>
  The fixtures of \<^verbatim>\<open>src/src/testkit.rs\<close> that tests and benches share: a fixed guarantee, intents, a
  seeded shuffle, and the pipeline they spawn. The shuffle is shown to permute, and a live intent to
  pass a fresh gate.
\<close>

section \<open>Intents\<close>

definition TEST_GUARANTEE :: guarantee_config where
  "TEST_GUARANTEE = \<lparr>g_slot_duration = from_millis 5, g_max_slots = 200\<rparr>"

definition testkit_TEST_NOW :: u64 where "testkit_TEST_NOW = 1700000000000"

definition testkit_dummy :: "u64 \<Rightarrow> intent" where
  "testkit_dummy n =
     \<lparr>i_submitter = Address (array_repeat (ucast n)),
      i_nonce = n,
      i_market = Market ''ETH'' ''USDC'',
      i_side = Buy,
      i_size = 1000000000000000000,
      i_max_slippage_bps = 50,
      i_priority_fee = 0,
      i_timestamp_ms = testkit_TEST_NOW + n,
      i_deadline_ms = testkit_TEST_NOW + 60000 + n\<rparr>"

text \<open>The kit's fixtures are the ones of \<open>intent.rs\<close>.\<close>

lemma testkit_dummy_eq: "testkit_dummy = dummy"
  by (simp add: testkit_dummy_def dummy_def testkit_TEST_NOW_def TEST_NOW_def fun_eq_iff)

definition testkit_pending :: "keccak \<Rightarrow> string \<Rightarrow> u8 \<Rightarrow> u64 \<Rightarrow> u64 \<Rightarrow> u64 \<Rightarrow> pending" where
  "testkit_pending K market submitter nonce priority_fee received_at =
    (let i = (testkit_dummy 0)
           \<lparr>i_submitter := Address (array_repeat submitter),
            i_nonce := nonce,
            i_priority_fee := priority_fee,
            i_market := Market market ''USDC'',
            i_timestamp_ms := testkit_TEST_NOW + received_at\<rparr>
     in pending_new (intent_id_of K i) i received_at)"

definition live_intent :: "u8 \<Rightarrow> u64 \<Rightarrow> u64 \<Rightarrow> intent" where
  "live_intent submitter nonce now_ms =
     \<lparr>i_submitter = Address (array_repeat submitter),
      i_nonce = nonce,
      i_market = Market ''ETH'' ''USDC'',
      i_side = Buy,
      i_size = 1000000000000000000,
      i_max_slippage_bps = 50,
      i_priority_fee = nonce,
      i_timestamp_ms = now_ms,
      i_deadline_ms = now_ms + 3600000\<rparr>"

text \<open>Distinct per submitter and nonce, and admitted by a fresh gate whose window is an hour at most.\<close>

lemma live_intent_inject:
  "live_intent s n t = live_intent s' n' t \<longleftrightarrow> s = s' \<and> n = n'"
  by (auto simp: live_intent_def)

lemma live_intent_admitted:
  assumes "window_size g \<le> 3600000" "unat now_ms + 3600000 < 2 ^ 64"
  shows "admission_check (admission_new g) i (live_intent s n now_ms) now_ms = Ok ()"
proof -
  have "unat (now_ms + 3600000) = unat now_ms + 3600000"
    using assms(2) by (subst unat_add_no_overflow64) simp_all
  moreover have "unat (deadline_for g now_ms) = unat now_ms + unat (window_size g)"
    using assms by (intro unat_deadline_for) (simp add: window_fits_def word_le_nat_alt)
  ultimately have "window_met g (live_intent s n now_ms) now_ms"
    using assms(1) by (simp add: window_met_def live_intent_def word_less_nat_alt word_le_nat_alt)
  then show ?thesis
    by (simp add: admission_check_Ok_iff intent_valid_def nonce_advances_def admission_new_def
        live_intent_def MAX_SLIPPAGE_BPS_def)
qed

section \<open>The seeded shuffle\<close>

definition swap :: "nat \<Rightarrow> nat \<Rightarrow> 'a list \<Rightarrow> 'a list" where
  "swap i j xs = xs[i := xs ! j, j := xs ! i]"

definition lcg_next :: "u64 \<Rightarrow> u64" where
  "lcg_next state = state * 6364136223846793005 + 1442695040888963407"

text \<open>The loop \<open>for i in (1..v.len()).rev()\<close>, from the index \<open>i\<close> down to 1.\<close>

fun shuffle_loop :: "nat \<Rightarrow> u64 \<Rightarrow> 'a list \<Rightarrow> 'a list" where
  "shuffle_loop 0 state v = v"
| "shuffle_loop (Suc i) state v =
    (let state = lcg_next state
     in shuffle_loop i state (swap (Suc i) (unat (drop_bit 33 state) mod (Suc i + 1)) v))"

definition shuffled :: "'a list \<Rightarrow> u64 \<Rightarrow> 'a list" where
  "shuffled items seed = shuffle_loop (length items - 1) (or (seed * 2) 1) items"

lemma length_swap [simp]: "length (swap i j xs) = length xs"
  by (simp add: swap_def)

lemma mset_swap [simp]: "i < length xs \<Longrightarrow> j < length xs \<Longrightarrow> mset (swap i j xs) = mset xs"
  unfolding swap_def by (rule mset_swap)

lemma shuffle_loop_perm: "i < length v \<or> i = 0 \<Longrightarrow> mset (shuffle_loop i state v) = mset v"
proof (induction i state v rule: shuffle_loop.induct)
  case (2 i state v)
  have "unat x mod (Suc i + 1) < length v" for x :: u64
    using 2(2) mod_less_divisor [of "Suc i + 1" "unat x"] by linarith
  with 2 show ?case
    by (simp add: Let_def del: mod_Suc_eq)
qed simp

lemma shuffle_loop_permutes: "mset (shuffle_loop (length v - 1) state v) = mset v"
  by (cases v) (simp_all add: shuffle_loop_perm)

lemma shuffled_permutes: "mset (shuffled items seed) = mset items"
  unfolding shuffled_def by (rule shuffle_loop_permutes)

section \<open>The spawned pipeline\<close>

definition spawn_pipeline :: pipeline where
  "spawn_pipeline =
     pipeline_start TEST_GUARANTEE mock_enclave_new
       (prover_with_latency (from_millis 1) mock_prover_new)
       \<lparr>bc_batch_size = 2, bc_flush_after = from_millis 20\<rparr>"

definition harness_seen :: "pipeline \<Rightarrow> u64 list" where
  "harness_seen s = me_seen (at_enclave (pl_att s))"

definition harness_batches :: "pipeline \<Rightarrow> (u64 \<times> u64) list" where
  "harness_batches s = mp_batches (pr_prover (pl_prv s))"

text \<open>
  The polling loop over the read models and clocks it observes until its timeout; \<open>None\<close> is the
  panic of \<open>expect\<close> when none of them shows the intent proven.
\<close>

fun await_proven ::
    "(bytes \<Rightarrow> string) \<Rightarrow> (projections \<times> u64) list \<Rightarrow> intent_id \<Rightarrow> receipt option" where
  "await_proven hex [] i = None"
| "await_proven hex ((p, now_ms) # polls) i =
    (case receipt_of hex p i now_ms of
       Some r \<Rightarrow> if rc_lifecycle r = FinalProven then Some r else await_proven hex polls i
     | None \<Rightarrow> await_proven hex polls i)"

section \<open>A log of given entries\<close>

definition appended :: "entry list \<Rightarrow> mem_log" where
  "appended es = fold (\<lambda>e l. snd (mem_append e l)) es mem_log_new"

lemma ml_entries_appended [simp]: "ml_entries (appended es) = es"
proof -
  have "ml_entries (fold (\<lambda>e l. snd (mem_append e l)) es l) = ml_entries l @ es" for l
    by (induction es arbitrary: l) (simp_all add: mem_append_eq)
  then show ?thesis by (simp add: appended_def mem_log_new_def)
qed

end
