(* ===== verification/Ordering_Tests.thy ===== *)
theory Ordering_Tests
  imports Testkit Ordering_Properties
begin

text \<open>
  The unit tests of \<^verbatim>\<open>src/src/sequencer.rs\<close>, each a function of the hash that holds when the test's
  assertions do, run on the model for every hash. \<open>assert!\<close> is the conjunct, \<open>unwrap\<close> the
  equation with \<open>Ok\<close>.
\<close>

section \<open>Fixtures\<close>

definition test_pending :: "keccak \<Rightarrow> string \<Rightarrow> u8 \<Rightarrow> u64 \<Rightarrow> u64 \<Rightarrow> u64 \<Rightarrow> pending" where
  "test_pending K market submitter nonce priority_fee received_at =
    (let intent = (dummy 0)
           \<lparr>i_submitter := Address (array_repeat submitter),
            i_nonce := nonce,
            i_market := Market market ''USDC'',
            i_priority_fee := priority_fee\<rparr>
     in pending_new (intent_id_of K intent) intent received_at)"

definition test_shuffled :: "pending list \<Rightarrow> u64 \<Rightarrow> pending list" where
  "test_shuffled set0 seed = shuffle_loop (length set0 - 1) (lcg_next seed) set0"

text \<open>The helper asserts that the reversed buffer gives the same slot, and returns it.\<close>

definition order_both_ways :: "pending list \<Rightarrow> intent_id list option" where
  "order_both_ways buffer =
    (let ordered = order_slot buffer
     in if ordered = order_slot (rev buffer) then Some ordered else None)"

definition sorts_ahead :: "pending \<Rightarrow> pending \<Rightarrow> bool" where
  "sorts_ahead lower higher \<longleftrightarrow> rank lower < rank higher \<and> rank higher > rank lower"

lemma test_pending_simps [simp]:
  "p_market (test_pending K m s n f t) = Market m ''USDC''"
  "p_submitter (test_pending K m s n f t) = Address (array_repeat s)"
  "p_nonce (test_pending K m s n f t) = n"
  "p_priority_fee (test_pending K m s n f t) = f"
  "p_received_at (test_pending K m s n f t) = t"
  by (simp_all add: test_pending_def Let_def)

section \<open>The rank\<close>

definition new_carries_the_intents_identifying_fields :: "keccak \<Rightarrow> bool" where
  "new_carries_the_intents_identifying_fields K \<longleftrightarrow>
    (let intent = dummy 3;
         pending = pending_new (intent_id_of K intent) intent (TEST_NOW + 500)
     in p_id pending = intent_id_of K intent \<and>
        p_market pending = i_market intent \<and>
        p_submitter pending = i_submitter intent \<and>
        p_nonce pending = i_nonce intent \<and>
        p_priority_fee pending = i_priority_fee intent \<and>
        p_received_at pending = TEST_NOW + 500 \<and>
        p_received_at pending \<noteq> i_timestamp_ms intent)"

definition a_higher_priority_fee_sorts_first :: "keccak \<Rightarrow> bool" where
  "a_higher_priority_fee_sorts_first K \<longleftrightarrow>
    (let high = test_pending K ''ETH'' 1 1 100 TEST_NOW;
         low = test_pending K ''ETH'' 1 1 1 TEST_NOW
     in sorts_ahead high low)"

definition an_equal_fee_is_broken_by_arrival_time :: "keccak \<Rightarrow> bool" where
  "an_equal_fee_is_broken_by_arrival_time K \<longleftrightarrow>
    (let early = test_pending K ''ETH'' 1 1 50 TEST_NOW;
         late = test_pending K ''ETH'' 2 1 50 (TEST_NOW + 1)
     in sorts_ahead early late)"

definition a_fee_outbids_an_earlier_arrival :: "keccak \<Rightarrow> bool" where
  "a_fee_outbids_an_earlier_arrival K \<longleftrightarrow>
    (let late_high_bid = test_pending K ''ETH'' 1 1 100 (TEST_NOW + 1000);
         early_low_bid = test_pending K ''ETH'' 2 1 99 TEST_NOW
     in sorts_ahead late_high_bid early_low_bid)"

definition sorting_applies_the_policy_in_order :: "keccak \<Rightarrow> bool" where
  "sorting_applies_the_policy_in_order K \<longleftrightarrow>
    (let by_fee = test_pending K ''ETH'' 1 1 100 (TEST_NOW + 900);
         by_time = test_pending K ''ETH'' 2 1 10 TEST_NOW;
         by_time_later = test_pending K ''ETH'' 3 1 10 (TEST_NOW + 1);
         final = test_pending K ''ETH'' 4 1 0 TEST_NOW;
         buffer = sort_key rank [final, by_time_later, by_fee, by_time]
     in map p_id buffer = [p_id by_fee, p_id by_time, p_id by_time_later, p_id final])"

lemma rank_tests:
  "new_carries_the_intents_identifying_fields K"
  "a_higher_priority_fee_sorts_first K"
  "an_equal_fee_is_broken_by_arrival_time K"
  "a_fee_outbids_an_earlier_arrival K"
  "sorting_applies_the_policy_in_order K"
  by (simp_all add: new_carries_the_intents_identifying_fields_def a_higher_priority_fee_sorts_first_def
    an_equal_fee_is_broken_by_arrival_time_def a_fee_outbids_an_earlier_arrival_def
    sorting_applies_the_policy_in_order_def sorts_ahead_def rank_def less_Reverse_def less_eq_Reverse_def
    Let_def TEST_NOW_def)

section \<open>The slot order\<close>

definition a_submitter_never_outbids_itself :: "keccak \<Rightarrow> bool" where
  "a_submitter_never_outbids_itself K \<longleftrightarrow>
    (let fst0 = test_pending K ''ETH'' 1 1 1 TEST_NOW;
         snd0 = test_pending K ''ETH'' 1 2 1000 TEST_NOW
     in order_both_ways [snd0, fst0] = Some [p_id fst0, p_id snd0])"

definition priority_reorders_submitters_against_each_other :: "keccak \<Rightarrow> bool" where
  "priority_reorders_submitters_against_each_other K \<longleftrightarrow>
    (let a_first = test_pending K ''ETH'' 1 1 1 TEST_NOW;
         a_second = test_pending K ''ETH'' 1 2 1000 TEST_NOW;
         b_only = test_pending K ''ETH'' 2 1 500 TEST_NOW
     in order_both_ways [a_first, a_second, b_only] = Some [p_id b_only, p_id a_first, p_id a_second])"

definition a_submitters_queue_is_nonce_ordered_not_arrival_ordered :: "keccak \<Rightarrow> bool" where
  "a_submitters_queue_is_nonce_ordered_not_arrival_ordered K \<longleftrightarrow>
    (let fst0 = test_pending K ''ETH'' 1 1 0 (TEST_NOW + 500);
         snd0 = test_pending K ''ETH'' 1 2 0 TEST_NOW
     in order_both_ways [snd0, fst0] = Some [p_id fst0, p_id snd0])"

definition a_gap_in_nonces_does_not_stall_the_queue :: "keccak \<Rightarrow> bool" where
  "a_gap_in_nonces_does_not_stall_the_queue K \<longleftrightarrow>
    (let fst0 = test_pending K ''ETH'' 1 1 0 TEST_NOW;
         jumped = test_pending K ''ETH'' 1 99 0 TEST_NOW
     in order_both_ways [jumped, fst0] = Some [p_id fst0, p_id jumped])"

definition the_merge_takes_the_winning_head_each_time :: "keccak \<Rightarrow> bool" where
  "the_merge_takes_the_winning_head_each_time K \<longleftrightarrow>
    (let a_high = test_pending K ''ETH'' 1 1 100 TEST_NOW;
         a_low = test_pending K ''ETH'' 1 2 0 TEST_NOW;
         b_mid = test_pending K ''ETH'' 2 1 50 TEST_NOW
     in order_both_ways [a_high, a_low, b_mid] = Some [p_id a_high, p_id b_mid, p_id a_low])"

definition an_equal_bid_is_broken_by_arrival_then_by_id :: "keccak \<Rightarrow> bool" where
  "an_equal_bid_is_broken_by_arrival_then_by_id K \<longleftrightarrow>
    (let early = test_pending K ''ETH'' 1 1 10 TEST_NOW;
         late = test_pending K ''ETH'' 2 1 10 (TEST_NOW + 1);
         one = test_pending K ''ETH'' 3 1 10 TEST_NOW;
         other = test_pending K ''ETH'' 4 1 10 TEST_NOW;
         (lower, higher) = (if p_id one < p_id other then (one, other) else (other, one))
     in order_both_ways [late, early] = Some [p_id early, p_id late] \<and>
        order_both_ways [higher, lower] = Some [p_id lower, p_id higher])"

definition domains_are_laid_out_in_market_order :: "keccak \<Rightarrow> bool" where
  "domains_are_laid_out_in_market_order K \<longleftrightarrow>
    (let eth = test_pending K ''ETH'' 1 1 0 TEST_NOW;
         btc = test_pending K ''BTC'' 2 1 0 TEST_NOW;
         aaa = test_pending K ''AAA'' 3 1 0 TEST_NOW
     in order_both_ways [eth, btc, aaa] = Some [p_id aaa, p_id btc, p_id eth])"

definition a_market_is_ordered_by_quote_as_well_as_base :: "keccak \<Rightarrow> bool" where
  "a_market_is_ordered_by_quote_as_well_as_base K \<longleftrightarrow>
    (let usdc = test_pending K ''ETH'' 1 1 0 TEST_NOW;
         dai = (test_pending K ''ETH'' 2 1 0 TEST_NOW)\<lparr>p_market := Market ''ETH'' ''DAI''\<rparr>
     in order_both_ways [usdc, dai] = Some [p_id dai, p_id usdc])"

definition intents_do_not_compete_across_markets :: "keccak \<Rightarrow> bool" where
  "intents_do_not_compete_across_markets K \<longleftrightarrow>
    (let cheap_early_domain = test_pending K ''BTC'' 1 1 0 (TEST_NOW + 5000);
         rich_late_domain = test_pending K ''ETH'' 2 1 1000000 TEST_NOW
     in order_both_ways [rich_late_domain, cheap_early_domain] = Some [p_id cheap_early_domain, p_id rich_late_domain])"

definition an_empty_buffer_yields_an_empty_slot :: "keccak \<Rightarrow> bool" where
  "an_empty_buffer_yields_an_empty_slot K \<longleftrightarrow> order_slot [] = []"

lemma array_repeat_less: "(array_repeat a :: 'n::len array) < array_repeat b \<longleftrightarrow> a < b"
proof -
  have "replicate n a < replicate n b \<longleftrightarrow> a < b" if "0 < n" for n
    using that by (induction n) auto
  then show ?thesis by (simp add: less_array_def)
qed

lemma array_repeat_less_eq: "(array_repeat a :: 'n::len array) \<le> array_repeat b \<longleftrightarrow> a \<le> b"
  by (simp add: array_repeat_less flip: not_less)

lemmas slot_eval =
  order_both_ways_def order_slot_def bt_group_def bt_entry_push_def bt_get_def bt_new_def
  bt_into_values_def order_domain_def order_domain_checked_def submitter_queues_def bt_map_values_def
  merge_loop.simps queue_heads_def bt_iter_def List.map_filter_simps iter_min_def rank_def pop_queue_def
  bt_update_def bt_remove_def less_Reverse_def less_eq_Reverse_def less_eq_address_def less_address_def
  array_repeat_less array_repeat_less_eq less_market_def TEST_NOW_def Let_def

lemma a_submitter_never_outbids_itself_holds: "a_submitter_never_outbids_itself K"
  unfolding a_submitter_never_outbids_itself_def by (simp add: slot_eval word_le_nat_alt)

lemma priority_reorders_submitters_against_each_other_holds: "priority_reorders_submitters_against_each_other K"
  unfolding priority_reorders_submitters_against_each_other_def by (simp add: slot_eval word_le_nat_alt)

lemma a_submitters_queue_is_nonce_ordered_not_arrival_ordered_holds: "a_submitters_queue_is_nonce_ordered_not_arrival_ordered K"
  unfolding a_submitters_queue_is_nonce_ordered_not_arrival_ordered_def by (simp add: slot_eval word_le_nat_alt)

lemma a_gap_in_nonces_does_not_stall_the_queue_holds: "a_gap_in_nonces_does_not_stall_the_queue K"
  unfolding a_gap_in_nonces_does_not_stall_the_queue_def by (simp add: slot_eval word_le_nat_alt)

lemma the_merge_takes_the_winning_head_each_time_holds: "the_merge_takes_the_winning_head_each_time K"
  unfolding the_merge_takes_the_winning_head_each_time_def by (simp add: slot_eval word_le_nat_alt)

lemma an_equal_bid_is_broken_by_arrival_then_by_id_holds: "an_equal_bid_is_broken_by_arrival_then_by_id K"
  unfolding an_equal_bid_is_broken_by_arrival_then_by_id_def
  by (cases "p_id (test_pending K ''ETH'' 3 1 10 TEST_NOW) < p_id (test_pending K ''ETH'' 4 1 10 TEST_NOW)";
      cases "p_id (test_pending K ''ETH'' 3 1 10 TEST_NOW) = p_id (test_pending K ''ETH'' 4 1 10 TEST_NOW)")
    (simp_all add: slot_eval word_le_nat_alt min_def)

lemma domains_are_laid_out_in_market_order_holds: "domains_are_laid_out_in_market_order K"
  unfolding domains_are_laid_out_in_market_order_def by (simp add: slot_eval word_le_nat_alt)

lemma a_market_is_ordered_by_quote_as_well_as_base_holds: "a_market_is_ordered_by_quote_as_well_as_base K"
  unfolding a_market_is_ordered_by_quote_as_well_as_base_def by (simp add: slot_eval word_le_nat_alt)

lemma intents_do_not_compete_across_markets_holds: "intents_do_not_compete_across_markets K"
  unfolding intents_do_not_compete_across_markets_def by (simp add: slot_eval word_le_nat_alt)

lemma an_empty_buffer_yields_an_empty_slot_holds: "an_empty_buffer_yields_an_empty_slot K"
  unfolding an_empty_buffer_yields_an_empty_slot_def by (simp add: slot_eval word_le_nat_alt)

section \<open>Whole slots\<close>

text \<open>The buffer of four submitters in two markets, three nonces each.\<close>

definition twelve :: "keccak \<Rightarrow> pending list" where
  "twelve K =
     concat (map (\<lambda>submitter.
       map (\<lambda>nonce. test_pending K (if submitter mod 2 = 0 then ''ETH'' else ''BTC'')
            (word_of_nat submitter) (word_of_nat nonce) (word_of_nat (submitter * 7 mod 5))
            (TEST_NOW + word_of_nat nonce)) [1, 2, 3]) [0, 1, 2, 3])"

definition every_buffered_intent_is_sequenced_exactly_once :: "keccak \<Rightarrow> bool" where
  "every_buffered_intent_is_sequenced_exactly_once K \<longleftrightarrow>
    (let buffer = twelve K;
         expected = set (map p_id buffer)
     in case order_both_ways buffer of
          None \<Rightarrow> False
        | Some ordered \<Rightarrow> length ordered = 12 \<and> set ordered = expected)"

text \<open>\<open>rotate_left(4)\<close>, then \<open>reverse\<close>.\<close>

definition two_nodes_holding_the_same_intents_commit_identically :: "keccak \<Rightarrow> bool" where
  "two_nodes_holding_the_same_intents_commit_identically K \<longleftrightarrow>
    (let buffer = concat (map (\<lambda>submitter.
           map (\<lambda>nonce. test_pending K (if submitter = 1 then ''BTC'' else ''ETH'')
                (word_of_nat submitter) (word_of_nat nonce) (word_of_nat (nonce * 3 mod 4))
                (TEST_NOW + word_of_nat submitter)) [1, 2, 3]) [0, 1, 2]);
         one = order_slot buffer;
         other = order_slot (rev (rotate 4 buffer))
     in one = other \<and> commit K 5 one = commit K 5 other)"

definition permuted_set :: "keccak \<Rightarrow> pending list" where
  "permuted_set K =
     [test_pending K ''ETH'' 1 1 100 10,
      test_pending K ''ETH'' 1 2 900 11,
      test_pending K ''ETH'' 2 1 500 12,
      test_pending K ''ETH'' 2 2 500 13,
      test_pending K ''ETH'' 3 7 0 14,
      test_pending K ''BTC'' 1 3 50 15,
      test_pending K ''BTC'' 4 1 50 16,
      test_pending K ''BTC'' 4 2 4000 17,
      test_pending K ''SOL'' 2 3 1 18,
      test_pending K ''SOL'' 3 8 1 19,
      test_pending K ''SOL'' 3 9 1 20,
      test_pending K ''SOL'' 5 1 7 21]"

text \<open>
  The test tries the seeds below 64; here the slot is the same for every seed. That no id is
  placed twice needs the twelve ids to differ.
\<close>

definition ordering_is_deterministic_under_arrival_permutations :: "keccak \<Rightarrow> u64 \<Rightarrow> bool" where
  "ordering_is_deterministic_under_arrival_permutations K seed \<longleftrightarrow>
    (let set0 = permuted_set K;
         expected = order_slot set0
     in length expected = length set0 \<and>
        card (set expected) = length set0 \<and>
        order_slot (test_shuffled set0 seed) = expected)"

lemma order_both_ways_eq:
  "distinct (map slot_key buffer) \<Longrightarrow> order_both_ways buffer = Some (order_slot buffer)"
  using order_slot_perm [of buffer "rev buffer"] by (simp add: order_both_ways_def Let_def)

lemma slot_key_test_pending [simp]:
  "slot_key (test_pending K m s n f t) = (Market m ''USDC'', Address (array_repeat s), n)"
  by (simp add: slot_key_def)

lemma mset_rotate: "mset (rotate n xs) = mset xs"
proof -
  have "mset (rotate1 ys) = mset ys" for ys :: "'a list"
    by (cases ys) simp_all
  then show ?thesis
    by (induction n) simp_all
qed

lemma every_buffered_intent_is_sequenced_exactly_once_holds:
  "every_buffered_intent_is_sequenced_exactly_once K"
proof -
  have "distinct (map slot_key (twelve K))"
    by (simp add: twelve_def)
  moreover have "length (twelve K) = 12"
    by (simp add: twelve_def)
  ultimately show ?thesis
    by (simp add: every_buffered_intent_is_sequenced_exactly_once_def order_both_ways_eq
        length_order_slot set_order_slot)
qed

lemma two_nodes_holding_the_same_intents_commit_identically_holds:
  "two_nodes_holding_the_same_intents_commit_identically K"
  unfolding two_nodes_holding_the_same_intents_commit_identically_def Let_def
  by (intro conjI arg_cong [where f = "commit K 5"] order_slot_perm)
    (simp only: mset_rev mset_rotate, simp)+

lemma ordering_is_deterministic_under_arrival_permutations_holds:
  assumes "distinct (map p_id (permuted_set K))"
  shows "ordering_is_deterministic_under_arrival_permutations K seed"
proof -
  have "distinct (map slot_key (permuted_set K))"
    by (simp add: permuted_set_def)
  then have "order_slot (test_shuffled (permuted_set K) seed) = order_slot (permuted_set K)"
    by (intro order_slot_perm [symmetric])
      (simp_all only: test_shuffled_def shuffle_loop_permutes mset_map)
  moreover have "card (set (order_slot (permuted_set K))) = length (permuted_set K)"
    using distinct_card [OF assms] by (simp add: set_order_slot)
  ultimately show ?thesis
    by (simp add: ordering_is_deterministic_under_arrival_permutations_def Let_def length_order_slot)
qed

section \<open>The window\<close>

definition test_guarantee :: guarantee_config where
  "test_guarantee = \<lparr>g_slot_duration = from_millis 100, g_max_slots = 10\<rparr>"

definition an_intent_past_its_window_is_expired_with_the_deadline_it_missed :: "keccak \<Rightarrow> bool" where
  "an_intent_past_its_window_is_expired_with_the_deadline_it_missed K \<longleftrightarrow>
    (let stale = test_pending K ''ETH'' 1 1 0 TEST_NOW;
         deadline = deadline_for test_guarantee TEST_NOW;
         (live, expired) = partition_expired [stale] (deadline + 1) test_guarantee
     in live = [] \<and> expired = [(p_id stale, deadline)])"

definition an_intent_is_kept_right_up_to_its_deadline :: "keccak \<Rightarrow> bool" where
  "an_intent_is_kept_right_up_to_its_deadline K \<longleftrightarrow>
    (let p = test_pending K ''ETH'' 1 1 0 TEST_NOW;
         deadline = deadline_for test_guarantee TEST_NOW;
         (live, expired) = partition_expired [p] deadline test_guarantee;
         (live', expired') = partition_expired [p] (deadline - 1) test_guarantee
     in live = [p] \<and> expired = [] \<and> length live' = 1 \<and> expired' = [])"

definition a_partition_splits_by_arrival_and_keeps_the_rest_intact :: "keccak \<Rightarrow> bool" where
  "a_partition_splits_by_arrival_and_keeps_the_rest_intact K \<longleftrightarrow>
    (let old = test_pending K ''ETH'' 1 1 0 TEST_NOW;
         fresh = test_pending K ''ETH'' 2 1 0 (TEST_NOW + 900);
         closed_at = deadline_for test_guarantee TEST_NOW + 1;
         (live, expired) = partition_expired [old, fresh] closed_at test_guarantee
     in live = [fresh] \<and> length expired = 1 \<and> fst (hd expired) = p_id old)"

lemma test_window: "window_size test_guarantee = 1000"
  by (rule word_unat_eq_iff [THEN iffD2])
    (simp add: unat_window_size test_guarantee_def as_millis_from_millis)

lemma window_tests_hold:
  "an_intent_past_its_window_is_expired_with_the_deadline_it_missed K"
  "an_intent_is_kept_right_up_to_its_deadline K"
  "a_partition_splits_by_arrival_and_keeps_the_rest_intact K"
  by (simp_all add: an_intent_past_its_window_is_expired_with_the_deadline_it_missed_def
      an_intent_is_kept_right_up_to_its_deadline_def Let_def deadline_for_def test_window TEST_NOW_def
      a_partition_splits_by_arrival_and_keeps_the_rest_intact_def)

section \<open>Recovery\<close>

definition an_untouched_log_recovers_to_the_start :: "keccak \<Rightarrow> bool" where
  "an_untouched_log_recovers_to_the_start K \<longleftrightarrow>
    (let intent = dummy 1;
         log = appended [IntentReceived (intent_id_of K intent) intent TEST_NOW]
     in seq_recover mem_ops mem_log_new = Ok (position_ZERO, 0) \<and>
        seq_recover mem_ops log = Ok (position_ZERO, 0))"

definition recovery_resumes_from_the_last_committed_slot :: "keccak \<Rightarrow> bool" where
  "recovery_resumes_from_the_last_committed_slot K \<longleftrightarrow>
    (let log = appended (map (\<lambda>slot. SlotCommitted slot [] (Position slot) (commit K slot []) (TEST_NOW + slot))
           [0, 1, 2])
     in seq_recover mem_ops log = Ok (Position 2, 3))"

definition a_cursor_beyond_the_head_is_a_corrupt_log :: "keccak \<Rightarrow> bool" where
  "a_cursor_beyond_the_head_is_a_corrupt_log K \<longleftrightarrow>
    (let log = appended [SlotCommitted 0 [] (Position 99) (commit K 0 []) TEST_NOW]
     in seq_recover mem_ops log = Err (CorruptLog (Position 99) (Position 1)))"

lemma recovery_tests_hold:
  "an_untouched_log_recovers_to_the_start K"
  "recovery_resumes_from_the_last_committed_slot K"
  "a_cursor_beyond_the_head_is_a_corrupt_log K"
  by (simp_all add: an_untouched_log_recovers_to_the_start_def Let_def seq_recover_def mem_read_from_eq
      mem_head_def recovery_resumes_from_the_last_committed_slot_def mem_log_new_def
      a_cursor_beyond_the_head_is_a_corrupt_log_def position_ZERO_def less_position_def position_of_def
      offset_def)

section \<open>Tests that need the hash not to collide on their inputs\<close>

definition the_id_is_the_final_tie_break :: "keccak \<Rightarrow> bool" where
  "the_id_is_the_final_tie_break K \<longleftrightarrow>
    (let one = test_pending K ''ETH'' 1 1 50 TEST_NOW;
         other = test_pending K ''ETH'' 2 1 50 TEST_NOW;
         (fst0, snd0) = (if p_id one < p_id other then (one, other) else (other, one))
     in p_id one \<noteq> p_id other \<and> sorts_ahead fst0 snd0)"

definition the_order_is_total :: "keccak \<Rightarrow> bool" where
  "the_order_is_total K \<longleftrightarrow>
    distinct (map (\<lambda>n. rank (test_pending K ''ETH'' n 1 50 TEST_NOW)) [0, 1, 2, 3, 4, 5, 6, 7])"

definition sorted_entries :: "keccak \<Rightarrow> pending list" where
  "sorted_entries K =
     map (\<lambda>n. test_pending K ''ETH'' (ucast n) 1 (n mod 3) (TEST_NOW + n mod 2))
       ([0, 1, 2, 3, 4, 5, 6, 7] :: u64 list)"

definition sorting_is_deterministic_whatever_the_input_order :: "keccak \<Rightarrow> bool" where
  "sorting_is_deterministic_whatever_the_input_order K \<longleftrightarrow>
     sort_key rank (sorted_entries K) = sort_key rank (rev (sorted_entries K))"

definition a_commitment_binds_the_order_the_slot_fixed :: "keccak \<Rightarrow> bool" where
  "a_commitment_binds_the_order_the_slot_fixed K \<longleftrightarrow>
    (let ids = map (\<lambda>n. intent_id_of K (dummy n)) [0, 1, 2];
         swapped = [ids ! 1, ids ! 0, ids ! 2]
     in commit K 0 ids \<noteq> commit K 0 swapped)"

definition a_commitment_binds_its_slot_number_and_length :: "keccak \<Rightarrow> bool" where
  "a_commitment_binds_its_slot_number_and_length K \<longleftrightarrow>
    (let ids = map (\<lambda>n. intent_id_of K (dummy n)) [0, 1]
     in commit K 0 ids \<noteq> commit K 1 ids \<and>
        commit K 0 ids \<noteq> commit K 0 (take 1 ids) \<and>
        commit K 0 [] \<noteq> commit K 1 [])"

text \<open>\<open>K\<close> tells two messages apart when they differ.\<close>

definition tells_apart :: "keccak \<Rightarrow> bytes \<Rightarrow> bytes \<Rightarrow> bool" where
  "tells_apart K a b \<longleftrightarrow> (K a = K b \<longrightarrow> a = b)"

lemma commit_differs:
  assumes "tells_apart K (commit_preimage s is) (commit_preimage t js)"
    and "length is < 2 ^ 64" "length js < 2 ^ 64" "s \<noteq> t \<or> is \<noteq> js"
  shows "commit K s is \<noteq> commit K t js"
  using assms commit_preimage_inject [OF assms(2,3), of s t] by (auto simp: commit_eq tells_apart_def)

lemma the_id_is_the_final_tie_break_holds:
  "p_id (test_pending K ''ETH'' 1 1 50 TEST_NOW) \<noteq> p_id (test_pending K ''ETH'' 2 1 50 TEST_NOW) \<Longrightarrow>
    the_id_is_the_final_tie_break K"
  by (auto simp: the_id_is_the_final_tie_break_def Let_def sorts_ahead_def rank_def)

lemma the_order_is_total_holds:
  "distinct (map (\<lambda>n. p_id (test_pending K ''ETH'' n 1 50 TEST_NOW)) [0, 1, 2, 3, 4, 5, 6, 7]) \<Longrightarrow>
    the_order_is_total K"
  by (simp add: the_order_is_total_def rank_def)

lemma sorting_is_deterministic_whatever_the_input_order_holds:
  assumes "distinct (map p_id (sorted_entries K))"
  shows "sorting_is_deterministic_whatever_the_input_order K"
proof -
  have "inj_on rank (set (sorted_entries K))"
    using assms by (auto simp: distinct_map inj_on_def rank_def)
  then show ?thesis
    unfolding sorting_is_deterministic_whatever_the_input_order_def
    by (intro sort_key_inj_key_eq) simp_all
qed

lemma a_commitment_binds_the_order_the_slot_fixed_holds:
  assumes "intent_id_of K (dummy 0) \<noteq> intent_id_of K (dummy 1)"
    and "tells_apart K (commit_preimage 0 (map (\<lambda>n. intent_id_of K (dummy n)) [0, 1, 2]))
      (commit_preimage 0 (map (\<lambda>n. intent_id_of K (dummy n)) [1, 0, 2]))"
  shows "a_commitment_binds_the_order_the_slot_fixed K"
  using commit_differs [OF assms(2)] assms(1)
  by (simp add: a_commitment_binds_the_order_the_slot_fixed_def Let_def)

lemma a_commitment_binds_its_slot_number_and_length_holds:
  assumes "tells_apart K (commit_preimage 0 ids) (commit_preimage 1 ids)"
    "tells_apart K (commit_preimage 0 ids) (commit_preimage 0 (take 1 ids))"
    "tells_apart K (commit_preimage 0 []) (commit_preimage 1 [])"
    and ids: "ids = map (\<lambda>n. intent_id_of K (dummy n)) [0, 1]"
  shows "a_commitment_binds_its_slot_number_and_length K"
  using commit_differs [OF assms(1)] commit_differs [OF assms(2)] commit_differs [OF assms(3)]
  by (simp add: a_commitment_binds_its_slot_number_and_length_def ids)

end
