(* ===== verification/Admission_Tests.thy ===== *)
theory Admission_Tests
  imports Testkit Admission_Properties
begin

text \<open>
  The unit tests of \<^verbatim>\<open>src/src/admission.rs\<close> on the model: the gate and \<open>MemLog\<close> driven through
  the tests' submissions. A test that admits several intents needs the hash to tell the test
  intents apart, and only those: \<open>ids_differ\<close>. Threads race for one lock that spans check and append, so a concurrent
  test is a sequence of submissions in the order the lock was taken.
\<close>

section \<open>Fixtures\<close>

definition admission_guarantee :: guarantee_config where
  "admission_guarantee = \<lparr>g_slot_duration = from_millis 100, g_max_slots = 10\<rparr>"

definition fresh_gate :: admission where
  "fresh_gate = admission_new admission_guarantee"

text \<open>\<open>None\<close> is the panic on an entry that is not an admission.\<close>

fun admitted :: "entry list \<Rightarrow> (intent_id \<times> u64) list option" where
  "admitted [] = Some []"
| "admitted (IntentReceived i intent t # es) = map_option (\<lambda>r. (i, t) # r) (admitted es)"
| "admitted (_ # es) = None"

definition failing_append :: "entry \<Rightarrow> unit \<Rightarrow> (log_error + position) \<times> unit" where
  "failing_append e l = (Err (Encode ''append failed''), l)"

definition failing_log :: "unit log_ops" where
  "failing_log =
     \<lparr>lg_append = failing_append,
      lg_append_batch = (\<lambda>es l. (Err (Encode ''append failed''), l)),
      lg_read_from = (\<lambda>c l. Ok []),
      lg_head = (\<lambda>l. position_ZERO)\<rparr>"

definition with_nonce :: "u64 \<Rightarrow> u64 \<Rightarrow> intent" where
  "with_nonce n nonce = (dummy n)\<lparr>i_nonce := nonce\<rparr>"

definition with_fee :: "u64 \<Rightarrow> intent" where
  "with_fee fee = (with_nonce 1 7)\<lparr>i_priority_fee := fee\<rparr>"

definition restarted :: "mem_log \<Rightarrow> admission" where
  "restarted log = (case admission_recover mem_ops log admission_guarantee of Ok a \<Rightarrow> a | Err _ \<Rightarrow> admission_default)"

definition received_entry :: "keccak \<Rightarrow> intent \<Rightarrow> u64 \<Rightarrow> entry" where
  "received_entry K intent received_at = IntentReceived (intent_id_of K intent) intent received_at"

text \<open>Submissions one after another: their answers, and what they leave.\<close>

fun submit_all ::
    "keccak \<Rightarrow> (intent \<times> u64) list \<Rightarrow> admission \<times> mem_log \<Rightarrow>
      (admit_error + intent_id \<times> position) list \<times> admission \<times> mem_log" where
  "submit_all K [] (a, l) = ([], a, l)"
| "submit_all K ((intent, t) # xs) (a, l) =
    (let (r, a, l) = admit_and_append mem_ops K intent t (a, l);
         (rs, a, l) = submit_all K xs (a, l)
     in (r # rs, a, l))"

definition isOk :: "'e + 'a \<Rightarrow> bool" where "isOk r = (case r of Ok _ \<Rightarrow> True | Err _ \<Rightarrow> False)"

lemma isOk_simps [simp]: "isOk (Ok a)" "\<not> isOk (Err e)"
  by (simp_all add: isOk_def)

text \<open>\<open>rejected\<close> and \<open>accepted\<close>: on a fresh gate and log, with the assertion on the head.\<close>

definition rejected :: "keccak \<Rightarrow> intent \<Rightarrow> u64 \<Rightarrow> rejection option" where
  "rejected K intent now_ms =
    (case admit_and_append mem_ops K intent now_ms (fresh_gate, mem_log_new) of
       (Err (AdmitRejected r), a, l) \<Rightarrow> if mem_head l = position_ZERO then Some r else None
     | _ \<Rightarrow> None)"

definition accepted :: "keccak \<Rightarrow> intent \<Rightarrow> u64 \<Rightarrow> bool" where
  "accepted K intent now_ms \<longleftrightarrow>
    (case admit_and_append mem_ops K intent now_ms (fresh_gate, mem_log_new) of
       (Ok _, a, l) \<Rightarrow> mem_head l = Position 1
     | _ \<Rightarrow> False)"

section \<open>Static validity\<close>

definition an_intent_must_trade_something :: "keccak \<Rightarrow> bool" where
  "an_intent_must_trade_something K \<longleftrightarrow>
     rejected K ((dummy 1)\<lparr>i_size := 0\<rparr>) TEST_NOW = Some ZeroSize \<and>
     accepted K ((dummy 1)\<lparr>i_size := 1\<rparr>) TEST_NOW"

definition both_sides_of_the_market_must_be_named :: "keccak \<Rightarrow> bool" where
  "both_sides_of_the_market_must_be_named K \<longleftrightarrow>
    (\<forall>market \<in> {Market [] ''USDC'', Market ''ETH'' []}.
       rejected K ((dummy 1)\<lparr>i_market := market\<rparr>) TEST_NOW = Some EmptyMarket)"

definition slippage_is_capped_at_the_limit_inclusive :: "keccak \<Rightarrow> bool" where
  "slippage_is_capped_at_the_limit_inclusive K \<longleftrightarrow>
     rejected K ((dummy 1)\<lparr>i_max_slippage_bps := MAX_SLIPPAGE_BPS + 1\<rparr>) TEST_NOW =
       Some (SlippageOutOfRange (MAX_SLIPPAGE_BPS + 1) MAX_SLIPPAGE_BPS) \<and>
     accepted K ((dummy 1)\<lparr>i_max_slippage_bps := MAX_SLIPPAGE_BPS\<rparr>) TEST_NOW"

definition an_intent_that_has_already_expired_is_rejected :: "keccak \<Rightarrow> bool" where
  "an_intent_that_has_already_expired_is_rejected K \<longleftrightarrow>
     rejected K ((dummy 1)\<lparr>i_deadline_ms := TEST_NOW\<rparr>) TEST_NOW = Some (rejection.Expired TEST_NOW TEST_NOW) \<and>
     (case rejected K ((dummy 1)\<lparr>i_deadline_ms := TEST_NOW - 1\<rparr>) TEST_NOW of
        Some (rejection.Expired _ _) \<Rightarrow> True | _ \<Rightarrow> False)"

definition a_deadline_inside_the_guarantee_window_cannot_be_promised :: "keccak \<Rightarrow> bool" where
  "a_deadline_inside_the_guarantee_window_cannot_be_promised K \<longleftrightarrow>
    (let window_closes = TEST_NOW + 10 * 100
     in rejected K ((dummy 1)\<lparr>i_deadline_ms := window_closes - 1\<rparr>) TEST_NOW =
          Some (UnmeetableWindow (window_closes - 1) window_closes) \<and>
        accepted K ((dummy 1)\<lparr>i_deadline_ms := window_closes\<rparr>) TEST_NOW)"

lemma admission_window [simp]: "deadline_for admission_guarantee t = t + 1000"
proof -
  have "window_size admission_guarantee = 1000"
    by (rule word_unat_eq_iff [THEN iffD2])
      (simp add: unat_window_size admission_guarantee_def as_millis_from_millis)
  then show ?thesis by (simp add: deadline_for_def)
qed

lemmas gate_eval =
  admit_and_append_def admission_check_def admission_record_def fresh_gate_def admission_new_def
  mem_append_eq mem_head_def MAX_SLIPPAGE_BPS_def TEST_NOW_def Let_def mem_log_new_def

lemma validity_tests_hold:
  "an_intent_must_trade_something K"
  "both_sides_of_the_market_must_be_named K"
  "slippage_is_capped_at_the_limit_inclusive K"
  "an_intent_that_has_already_expired_is_rejected K"
  "a_deadline_inside_the_guarantee_window_cannot_be_promised K"
  by (simp_all add: an_intent_must_trade_something_def both_sides_of_the_market_must_be_named_def
      slippage_is_capped_at_the_limit_inclusive_def an_intent_that_has_already_expired_is_rejected_def
      a_deadline_inside_the_guarantee_window_cannot_be_promised_def rejected_def accepted_def
      gate_eval position_ZERO_def)

section \<open>History\<close>

definition test_intents :: "intent list" where
  "test_intents =
     map dummy [0, 1, 2, 3, 4, 5, 6, 7] @ map (with_nonce 1) [0, 3, 4, 5, 6, 9, 99] @
     map (with_nonce 2) [1, 3, 9, 7000] @ [(with_nonce 1 5)\<lparr>i_priority_fee := 1\<rparr>] @
     map with_fee [0, 1, 2, 3, 4, 5, 6, 7]"

definition ids_differ :: "keccak \<Rightarrow> bool" where
  "ids_differ K \<longleftrightarrow> inj_on (intent_id_of K) (set test_intents)"

definition admitting_returns_the_intents_own_id_and_its_log_position :: "keccak \<Rightarrow> bool" where
  "admitting_returns_the_intents_own_id_and_its_log_position K \<longleftrightarrow>
    (let intent = dummy 1;
         (r, a, l) = admit_and_append mem_ops K intent TEST_NOW (fresh_gate, mem_log_new)
     in r = Ok (intent_id_of K intent, position_ZERO) \<and> mem_head l = Position 1)"

definition admitting_appends_one_entry_stamped_with_the_admission_time :: "keccak \<Rightarrow> bool" where
  "admitting_appends_one_entry_stamped_with_the_admission_time K \<longleftrightarrow>
    (let intent = dummy 1;
         (r, a, l) = admit_and_append mem_ops K intent (TEST_NOW + 4242) (fresh_gate, mem_log_new)
     in isOk r \<and> admitted (ml_entries l) = Some [(intent_id_of K intent, TEST_NOW + 4242)])"

definition successive_admissions_take_consecutive_positions :: "keccak \<Rightarrow> bool" where
  "successive_admissions_take_consecutive_positions K \<longleftrightarrow>
    (let (rs, a, l) = submit_all K [(dummy 1, TEST_NOW), (dummy 2, TEST_NOW + 1)] (fresh_gate, mem_log_new)
     in rs = [Ok (intent_id_of K (dummy 1), Position 0), Ok (intent_id_of K (dummy 2), Position 1)] \<and>
        map_option length (admitted (ml_entries l)) = Some 2)"

definition an_admitted_intent_is_recorded_against_its_submitter :: "keccak \<Rightarrow> bool" where
  "an_admitted_intent_is_recorded_against_its_submitter K \<longleftrightarrow>
    (let intent = dummy 3;
         (r, a, l) = admit_and_append mem_ops K intent TEST_NOW (fresh_gate, mem_log_new)
     in isOk r \<and> intent_id_of K intent \<in> adm_seen a \<and>
        adm_nonces a (i_submitter intent) = Some (i_nonce intent))"

definition a_recorded_nonce_only_ever_advances :: "keccak \<Rightarrow> bool" where
  "a_recorded_nonce_only_ever_advances K \<longleftrightarrow>
    (let intent = dummy 0;
         i = intent_id_of K intent;
         a = admission_record i (i_submitter intent) 5 fresh_gate;
         a = admission_record i (i_submitter intent) 9 a;
         a = admission_record i (i_submitter intent) 2 a
     in adm_nonces a (i_submitter intent) = Some 9)"

definition submitters_have_independent_nonce_counters :: "keccak \<Rightarrow> bool" where
  "submitters_have_independent_nonce_counters K \<longleftrightarrow>
    (let (one, other) = (dummy 1, dummy 2);
         a = admission_record (intent_id_of K one) (i_submitter one) 7 fresh_gate;
         a = admission_record (intent_id_of K other) (i_submitter other) 1 a
     in adm_nonces a (i_submitter one) = Some 7 \<and> adm_nonces a (i_submitter other) = Some 1)"

definition a_failed_append_records_nothing :: "keccak \<Rightarrow> bool" where
  "a_failed_append_records_nothing K \<longleftrightarrow>
    (let (r, a, l) = admit_and_append failing_log K (dummy 1) TEST_NOW (fresh_gate, ())
     in (case r of Err (AdmitLog _) \<Rightarrow> True | _ \<Rightarrow> False) \<and>
        adm_seen a = {} \<and> adm_nonces a = Map.empty)"

definition an_intent_is_admitted_only_once :: "keccak \<Rightarrow> bool" where
  "an_intent_is_admitted_only_once K \<longleftrightarrow>
    (let intent = dummy 1;
         (rs, a, l) = submit_all K [(intent, TEST_NOW), (intent, TEST_NOW + 1)] (fresh_gate, mem_log_new)
     in isOk (rs ! 0) \<and> rs ! 1 = Err (AdmitRejected (Replay (intent_id_of K intent))) \<and>
        admitted (ml_entries l) = Some [(intent_id_of K intent, TEST_NOW)])"

definition a_nonce_must_strictly_advance :: "keccak \<Rightarrow> bool" where
  "a_nonce_must_strictly_advance K \<longleftrightarrow>
    (let (rs, a, l) = submit_all K
           [(with_nonce 1 5, TEST_NOW), (with_nonce 1 0, TEST_NOW + 1), (with_nonce 1 4, TEST_NOW + 1),
            ((with_nonce 1 5)\<lparr>i_priority_fee := 1\<rparr>, TEST_NOW + 2)] (fresh_gate, mem_log_new)
     in isOk (rs ! 0) \<and> rs ! 1 = Err (AdmitRejected (StaleNonce 0 5)) \<and>
        rs ! 2 = Err (AdmitRejected (StaleNonce 4 5)) \<and> rs ! 3 = Err (AdmitRejected (StaleNonce 5 5)) \<and>
        map_option length (admitted (ml_entries l)) = Some 1)"

definition an_advancing_nonce_is_admitted_even_with_gaps :: "keccak \<Rightarrow> bool" where
  "an_advancing_nonce_is_admitted_even_with_gaps K \<longleftrightarrow>
    (let (rs, a, l) = submit_all K
           [(with_nonce 1 5, TEST_NOW), (with_nonce 1 6, TEST_NOW + 1), (with_nonce 1 99, TEST_NOW + 2)] (fresh_gate, mem_log_new)
     in list_all isOk rs \<and> map_option length (admitted (ml_entries l)) = Some 3 \<and>
        adm_nonces a (i_submitter (dummy 1)) = Some 99)"

definition an_unknown_submitter_may_open_at_any_nonce :: "keccak \<Rightarrow> bool" where
  "an_unknown_submitter_may_open_at_any_nonce K \<longleftrightarrow>
    (let (rs, a, l) = submit_all K [(with_nonce 1 0, TEST_NOW), (with_nonce 2 7000, TEST_NOW + 1)] (fresh_gate, mem_log_new)
     in list_all isOk rs \<and> map_option length (admitted (ml_entries l)) = Some 2)"

definition one_submitters_nonce_does_not_gate_another :: "keccak \<Rightarrow> bool" where
  "one_submitters_nonce_does_not_gate_another K \<longleftrightarrow>
    (let (rs, a, l) = submit_all K [(with_nonce 1 9, TEST_NOW), (with_nonce 2 9, TEST_NOW + 1)] (fresh_gate, mem_log_new)
     in list_all isOk rs \<and> map_option length (admitted (ml_entries l)) = Some 2)"

definition a_rejection_leaves_the_recorded_state_intact :: "keccak \<Rightarrow> bool" where
  "a_rejection_leaves_the_recorded_state_intact K \<longleftrightarrow>
    (let admitted_intent = with_nonce 1 5;
         (rs, a, l) = submit_all K
           [(admitted_intent, TEST_NOW), (with_nonce 1 3, TEST_NOW + 1), (admitted_intent, TEST_NOW + 2)] (fresh_gate, mem_log_new)
     in map isOk rs = [True, False, False] \<and> card (adm_seen a) = 1 \<and>
        adm_nonces a (i_submitter admitted_intent) = Some 5)"

definition only_one_of_two_concurrent_replays_is_admitted :: "keccak \<Rightarrow> bool" where
  "only_one_of_two_concurrent_replays_is_admitted K \<longleftrightarrow>
    (let (rs, a, l) = submit_all K (replicate 8 (dummy 1, TEST_NOW)) (fresh_gate, mem_log_new)
     in length (filter isOk rs) = 1 \<and> map_option length (admitted (ml_entries l)) = Some 1)"

definition validity_is_judged_before_history :: "keccak \<Rightarrow> bool" where
  "validity_is_judged_before_history K \<longleftrightarrow>
    (let (rs, a, l) = submit_all K [(dummy 1, TEST_NOW), (dummy 1, TEST_NOW + 120000)] (fresh_gate, mem_log_new)
     in isOk (rs ! 0) \<and> (case rs ! 1 of Err (AdmitRejected (rejection.Expired _ _)) \<Rightarrow> True | _ \<Rightarrow> False))"

definition a_malformed_intent_records_nothing :: "keccak \<Rightarrow> bool" where
  "a_malformed_intent_records_nothing K \<longleftrightarrow>
    (let (rs, a, l) = submit_all K [((dummy 1)\<lparr>i_size := 0\<rparr>, TEST_NOW), (dummy 1, TEST_NOW)] (fresh_gate, mem_log_new)
     in map isOk rs = [False, True] \<and> map_option length (admitted (ml_entries l)) = Some 1)"

lemma with_nonce_simps [simp]:
  "i_submitter (with_nonce n k) = Address (array_repeat (ucast n))"
  "i_nonce (with_nonce n k) = k"
  "i_market (with_nonce n k) = Market ''ETH'' ''USDC''"
  "i_size (with_nonce n k) = 1000000000000000000"
  "i_max_slippage_bps (with_nonce n k) = 50"
  "i_priority_fee (with_nonce n k) = 0"
  "i_deadline_ms (with_nonce n k) = TEST_NOW + 60000 + n"
  by (simp_all add: with_nonce_def)

lemma with_nonce_inject [simp]: "with_nonce m j = with_nonce n k \<longleftrightarrow> m = n \<and> j = k"
proof
  assume "with_nonce m j = with_nonce n k"
  then have "i_nonce (with_nonce m j) = i_nonce (with_nonce n k)"
    "i_deadline_ms (with_nonce m j) = i_deadline_ms (with_nonce n k)" by simp_all
  then show "m = n \<and> j = k" by simp
qed simp

lemma with_nonce_self [simp]: "with_nonce n n = dummy n"
  by (simp add: with_nonce_def dummy_def)

lemma dummy_with_nonce [simp]:
  "dummy m = with_nonce n k \<longleftrightarrow> m = n \<and> m = k" "with_nonce n k = dummy m \<longleftrightarrow> m = n \<and> m = k"
  using with_nonce_inject [of m m n k] by auto

lemma with_nonce_fee [simp]: "with_nonce m j \<noteq> (with_nonce n k)\<lparr>i_priority_fee := 1\<rparr>"
  "(with_nonce n k)\<lparr>i_priority_fee := 1\<rparr> \<noteq> with_nonce m j"
  by (metis with_nonce_simps(6) intent.simps(7) intent.select_convs(7) intent.surjective
      intent.update_convs(7) zero_neq_one)+

lemma dummy_test_intents: "n \<in> set [0, 1, 2, 3, 4, 5, 6, 7] \<Longrightarrow> dummy n \<in> set test_intents"
  unfolding test_intents_def set_append set_map by blast

lemma id_eq:
  "ids_differ K \<Longrightarrow> i \<in> set test_intents \<Longrightarrow> j \<in> set test_intents \<Longrightarrow>
     intent_id_of K i = intent_id_of K j \<longleftrightarrow> i = j"
  by (auto simp: ids_differ_def inj_on_def)

section \<open>Recovery\<close>

definition an_empty_log_recovers_an_open_gate :: "keccak \<Rightarrow> bool" where
  "an_empty_log_recovers_an_open_gate K \<longleftrightarrow>
    (let log = mem_log_new;
         (r, a, l) = admit_and_append mem_ops K (dummy 1) TEST_NOW (restarted log, log)
     in isOk r \<and> map_option length (admitted (ml_entries l)) = Some 1)"

definition a_restart_does_not_let_a_replay_back_in :: "keccak \<Rightarrow> bool" where
  "a_restart_does_not_let_a_replay_back_in K \<longleftrightarrow>
    (let intent = dummy 1;
         (r0, a, l) = admit_and_append mem_ops K intent TEST_NOW (fresh_gate, mem_log_new);
         (r, a, l) = admit_and_append mem_ops K intent (TEST_NOW + 1) (restarted l, l)
     in isOk r0 \<and> r = Err (AdmitRejected (Replay (intent_id_of K intent))) \<and>
        map_option length (admitted (ml_entries l)) = Some 1)"

definition a_restart_keeps_each_submitters_nonce :: "keccak \<Rightarrow> bool" where
  "a_restart_keeps_each_submitters_nonce K \<longleftrightarrow>
    (let (r0, a, l) = admit_and_append mem_ops K (with_nonce 1 5) TEST_NOW (fresh_gate, mem_log_new);
         (rs, a, l) = submit_all K
           [(with_nonce 1 4, TEST_NOW + 1), (with_nonce 1 6, TEST_NOW + 2)] (restarted l, l)
     in isOk r0 \<and> rs ! 0 = Err (AdmitRejected (StaleNonce 4 5)) \<and> isOk (rs ! 1) \<and>
        map_option length (admitted (ml_entries l)) = Some 2)"

definition a_restart_keeps_submitters_independent :: "keccak \<Rightarrow> bool" where
  "a_restart_keeps_submitters_independent K \<longleftrightarrow>
    (let (rs0, a, l) = submit_all K [(with_nonce 1 9, TEST_NOW), (with_nonce 2 2, TEST_NOW + 1)] (fresh_gate, mem_log_new);
         (rs, a, l) = submit_all K
           [(with_nonce 2 1, TEST_NOW + 2), (with_nonce 2 3, TEST_NOW + 3)] (restarted l, l)
     in list_all isOk rs0 \<and> rs ! 0 = Err (AdmitRejected (StaleNonce 1 2)) \<and> isOk (rs ! 1))"

definition recovery_takes_the_highest_nonce_the_log_holds :: "keccak \<Rightarrow> bool" where
  "recovery_takes_the_highest_nonce_the_log_holds K \<longleftrightarrow>
    (let (r0, log) = mem_append_batch
           [received_entry K (with_nonce 1 9) TEST_NOW, received_entry K (with_nonce 1 3) (TEST_NOW + 1)]
           mem_log_new;
         (r, a, l) = admit_and_append mem_ops K (with_nonce 1 4) (TEST_NOW + 2) (restarted log, log)
     in isOk r0 \<and> r = Err (AdmitRejected (StaleNonce 4 9)))"

definition recovery_reads_only_admissions :: "keccak \<Rightarrow> bool" where
  "recovery_reads_only_admissions K \<longleftrightarrow>
    (let intent = dummy 1;
         (r0, log) = mem_append_batch
           [SlotCommitted 0 [intent_id_of K intent] position_ZERO (Commitment (array_repeat 0)) TEST_NOW,
            received_entry K intent TEST_NOW,
            AttestFailed 0 ''unrelated'']
           mem_log_new;
         (rs, a, l) = submit_all K [(intent, TEST_NOW + 1), (dummy 2, TEST_NOW + 2)] (restarted log, log)
     in isOk r0 \<and> rs ! 0 = Err (AdmitRejected (Replay (intent_id_of K intent))) \<and> isOk (rs ! 1))"

definition an_expired_intent_stays_admitted_history :: "keccak \<Rightarrow> bool" where
  "an_expired_intent_stays_admitted_history K \<longleftrightarrow>
    (let intent = dummy 1;
         (r0, a, l) = admit_and_append mem_ops K intent TEST_NOW (fresh_gate, mem_log_new);
         window_ms = 10 * 100;
         window_closes = TEST_NOW + window_ms;
         (r1, l) = mem_append
           (IntentExpired (intent_id_of K intent) window_closes (TEST_NOW + window_ms + 1)) l;
         (r, a, l) = admit_and_append mem_ops K intent (TEST_NOW + 1) (restarted l, l)
     in isOk r0 \<and> isOk r1 \<and> r = Err (AdmitRejected (Replay (intent_id_of K intent))))"

definition a_recovered_gate_enforces_the_guarantee_it_was_handed :: "keccak \<Rightarrow> bool" where
  "a_recovered_gate_enforces_the_guarantee_it_was_handed K \<longleftrightarrow>
    (let log = mem_log_new;
         window_closes = deadline_for admission_guarantee TEST_NOW;
         (r, a, l) = admit_and_append mem_ops K ((dummy 1)\<lparr>i_deadline_ms := window_closes - 1\<rparr>) TEST_NOW
           (restarted log, log)
     in r = Err (AdmitRejected (UnmeetableWindow (window_closes - 1) window_closes)))"

definition a_recovered_gate_appends_after_the_history_it_read :: "keccak \<Rightarrow> bool" where
  "a_recovered_gate_appends_after_the_history_it_read K \<longleftrightarrow>
    (let (r0, a, l) = admit_and_append mem_ops K (dummy 1) TEST_NOW (fresh_gate, mem_log_new);
         (r, a, l) = admit_and_append mem_ops K (dummy 2) (TEST_NOW + 1) (restarted l, l)
     in isOk r0 \<and> r = Ok (intent_id_of K (dummy 2), Position 1) \<and>
        admitted (ml_entries l) =
          Some [(intent_id_of K (dummy 1), TEST_NOW), (intent_id_of K (dummy 2), TEST_NOW + 1)])"

definition recovering_twice_over_reaches_the_same_gate :: "keccak \<Rightarrow> bool" where
  "recovering_twice_over_reaches_the_same_gate K \<longleftrightarrow>
    (let (rs, seed, l) = submit_all K [(with_nonce 1 5, TEST_NOW), (with_nonce 2 1, TEST_NOW + 1)] (fresh_gate, mem_log_new);
         once = restarted l;
         twice = restarted l
     in list_all isOk rs \<and> adm_seen once = adm_seen twice \<and> adm_nonces once = adm_nonces twice \<and>
        adm_seen once = adm_seen seed \<and> adm_nonces once = adm_nonces seed)"

text \<open>The gate a restart rebuilds is read off the log.\<close>

lemma restarted_eq: "restarted l = gate_of admission_guarantee (ml_entries l)"
  by (simp add: restarted_def mem_recover_eq)

lemma replicate_8: "replicate 8 x = [x, x, x, x, x, x, x, x]"
  by (simp add: numeral_eq_Suc)

lemma gate_of_Cons: "gate_of g es = fold admission_recover_entry es (admission_new g)"
  by (simp add: gate_of_def)

lemmas history_eval =
  gate_eval restarted_eq gate_of_Cons admission_recover_entry_def mem_append_batch_def received_entry_def
  position_of_def position_ZERO_def failing_log_def failing_append_def

lemma admitting_returns_the_intents_own_id_and_its_log_position_holds: "ids_differ K \<Longrightarrow> admitting_returns_the_intents_own_id_and_its_log_position K"
  by (simp add: admitting_returns_the_intents_own_id_and_its_log_position_def history_eval id_eq test_intents_def)

lemma admitting_appends_one_entry_stamped_with_the_admission_time_holds: "ids_differ K \<Longrightarrow> admitting_appends_one_entry_stamped_with_the_admission_time K"
  by (simp add: admitting_appends_one_entry_stamped_with_the_admission_time_def history_eval id_eq test_intents_def)

lemma successive_admissions_take_consecutive_positions_holds: "ids_differ K \<Longrightarrow> successive_admissions_take_consecutive_positions K"
  by (simp add: successive_admissions_take_consecutive_positions_def history_eval id_eq test_intents_def)

lemma an_admitted_intent_is_recorded_against_its_submitter_holds: "ids_differ K \<Longrightarrow> an_admitted_intent_is_recorded_against_its_submitter K"
  by (simp add: an_admitted_intent_is_recorded_against_its_submitter_def history_eval id_eq test_intents_def)

lemma a_recorded_nonce_only_ever_advances_holds: "ids_differ K \<Longrightarrow> a_recorded_nonce_only_ever_advances K"
  by (simp add: a_recorded_nonce_only_ever_advances_def history_eval id_eq test_intents_def)

lemma submitters_have_independent_nonce_counters_holds: "ids_differ K \<Longrightarrow> submitters_have_independent_nonce_counters K"
  by (simp add: submitters_have_independent_nonce_counters_def history_eval id_eq test_intents_def)

lemma a_failed_append_records_nothing_holds: "ids_differ K \<Longrightarrow> a_failed_append_records_nothing K"
  by (simp add: a_failed_append_records_nothing_def history_eval id_eq test_intents_def)

lemma an_intent_is_admitted_only_once_holds: "ids_differ K \<Longrightarrow> an_intent_is_admitted_only_once K"
  by (simp add: an_intent_is_admitted_only_once_def history_eval id_eq test_intents_def)

lemma a_nonce_must_strictly_advance_holds: "ids_differ K \<Longrightarrow> a_nonce_must_strictly_advance K"
  by (simp add: a_nonce_must_strictly_advance_def history_eval id_eq test_intents_def)

lemma an_advancing_nonce_is_admitted_even_with_gaps_holds: "ids_differ K \<Longrightarrow> an_advancing_nonce_is_admitted_even_with_gaps K"
  by (simp add: an_advancing_nonce_is_admitted_even_with_gaps_def history_eval id_eq test_intents_def)

lemma an_unknown_submitter_may_open_at_any_nonce_holds: "ids_differ K \<Longrightarrow> an_unknown_submitter_may_open_at_any_nonce K"
  by (simp add: an_unknown_submitter_may_open_at_any_nonce_def history_eval id_eq test_intents_def)

lemma one_submitters_nonce_does_not_gate_another_holds: "ids_differ K \<Longrightarrow> one_submitters_nonce_does_not_gate_another K"
  by (simp add: one_submitters_nonce_does_not_gate_another_def history_eval id_eq test_intents_def)

lemma a_rejection_leaves_the_recorded_state_intact_holds: "ids_differ K \<Longrightarrow> a_rejection_leaves_the_recorded_state_intact K"
  by (simp add: a_rejection_leaves_the_recorded_state_intact_def history_eval id_eq test_intents_def)

lemma only_one_of_two_concurrent_replays_is_admitted_holds: "ids_differ K \<Longrightarrow> only_one_of_two_concurrent_replays_is_admitted K"
  by (simp add: only_one_of_two_concurrent_replays_is_admitted_def replicate_8 history_eval id_eq test_intents_def)

lemma validity_is_judged_before_history_holds: "ids_differ K \<Longrightarrow> validity_is_judged_before_history K"
  by (simp add: validity_is_judged_before_history_def history_eval id_eq test_intents_def)

lemma a_malformed_intent_records_nothing_holds: "ids_differ K \<Longrightarrow> a_malformed_intent_records_nothing K"
  by (simp add: a_malformed_intent_records_nothing_def history_eval id_eq test_intents_def)

lemma an_empty_log_recovers_an_open_gate_holds: "ids_differ K \<Longrightarrow> an_empty_log_recovers_an_open_gate K"
  by (simp add: an_empty_log_recovers_an_open_gate_def history_eval id_eq test_intents_def)

lemma a_restart_does_not_let_a_replay_back_in_holds: "ids_differ K \<Longrightarrow> a_restart_does_not_let_a_replay_back_in K"
  by (simp add: a_restart_does_not_let_a_replay_back_in_def history_eval id_eq test_intents_def)

lemma a_restart_keeps_each_submitters_nonce_holds: "ids_differ K \<Longrightarrow> a_restart_keeps_each_submitters_nonce K"
  by (simp add: a_restart_keeps_each_submitters_nonce_def history_eval id_eq test_intents_def)

lemma a_restart_keeps_submitters_independent_holds: "ids_differ K \<Longrightarrow> a_restart_keeps_submitters_independent K"
  by (simp add: a_restart_keeps_submitters_independent_def history_eval id_eq test_intents_def)

lemma recovery_takes_the_highest_nonce_the_log_holds_holds: "ids_differ K \<Longrightarrow> recovery_takes_the_highest_nonce_the_log_holds K"
  by (simp add: recovery_takes_the_highest_nonce_the_log_holds_def history_eval id_eq test_intents_def)

lemma recovery_reads_only_admissions_holds: "ids_differ K \<Longrightarrow> recovery_reads_only_admissions K"
  by (simp add: recovery_reads_only_admissions_def history_eval id_eq test_intents_def)

lemma an_expired_intent_stays_admitted_history_holds: "ids_differ K \<Longrightarrow> an_expired_intent_stays_admitted_history K"
  by (simp add: an_expired_intent_stays_admitted_history_def history_eval id_eq test_intents_def)

lemma a_recovered_gate_enforces_the_guarantee_it_was_handed_holds: "ids_differ K \<Longrightarrow> a_recovered_gate_enforces_the_guarantee_it_was_handed K"
  by (simp add: a_recovered_gate_enforces_the_guarantee_it_was_handed_def history_eval id_eq test_intents_def)

lemma a_recovered_gate_appends_after_the_history_it_read_holds: "ids_differ K \<Longrightarrow> a_recovered_gate_appends_after_the_history_it_read K"
  by (simp add: a_recovered_gate_appends_after_the_history_it_read_def history_eval id_eq test_intents_def)

lemma recovering_twice_over_reaches_the_same_gate_holds: "ids_differ K \<Longrightarrow> recovering_twice_over_reaches_the_same_gate K"
  by (simp add: recovering_twice_over_reaches_the_same_gate_def history_eval id_eq test_intents_def)

section \<open>Races, for every order in which the lock is taken\<close>

definition concurrent_admissions_are_totally_ordered :: "keccak \<Rightarrow> u64 list \<Rightarrow> bool" where
  "concurrent_admissions_are_totally_ordered K schedule \<longleftrightarrow>
    (let (rs, a, l) = submit_all K (map (\<lambda>n. (dummy n, TEST_NOW + n)) schedule) (fresh_gate, mem_log_new);
         positions = map (\<lambda>r. case r of Ok (i, p) \<Rightarrow> position_index p | Err _ \<Rightarrow> 0) rs
     in list_all isOk rs \<and> sort positions = [0, 1, 2, 3, 4, 5, 6, 7] \<and> card (adm_seen a) = 8)"

definition concurrent_same_nonce_admits_exactly_one :: "keccak \<Rightarrow> u64 list \<Rightarrow> bool" where
  "concurrent_same_nonce_admits_exactly_one K schedule \<longleftrightarrow>
    (let contenders = map with_fee schedule;
         (rs, a, l) = submit_all K (map (\<lambda>i. (i, TEST_NOW)) contenders) (fresh_gate, mem_log_new)
     in card (intent_id_of K ` set contenders) = length contenders \<and>
        length (filter isOk rs) = 1 \<and> map_option length (admitted (ml_entries l)) = Some 1 \<and>
        adm_nonces a (i_submitter (dummy 1)) = Some 7)"

lemma submit_all_refused:
  assumes "\<forall>(intent, t) \<in> set xs. admission_check a (intent_id_of K intent) intent t \<noteq> Ok ()"
  shows "\<exists>rs. submit_all K xs (a, l) = (rs, a, l) \<and> filter isOk rs = []"
  using assms
proof (induction xs)
  case (Cons x xs)
  obtain intent t where x: "x = (intent, t)" by (cases x)
  with Cons.prems obtain r where "admission_check a (intent_id_of K intent) intent t = Err r"
    by (cases "admission_check a (intent_id_of K intent) intent t") auto
  then have "admit_and_append mem_ops K intent t (a, l) = (Err (AdmitRejected r), a, l)"
    by (simp add: admit_and_append_def Let_def)
  with Cons x show ?case by fastforce
qed simp

lemma with_fee_simps [simp]:
  "i_submitter (with_fee f) = Address (array_repeat 1)" "i_nonce (with_fee f) = 7"
  "i_priority_fee (with_fee f) = f" "with_fee f = with_fee f' \<longleftrightarrow> f = f'"
proof -
  show fee: "i_priority_fee (with_fee f) = f" for f
    by (simp add: with_fee_def)
  show "with_fee f = with_fee f' \<longleftrightarrow> f = f'"
    by (metis fee)
qed (simp_all add: with_fee_def)

lemma concurrent_same_nonce_admits_exactly_one_holds:
  assumes "ids_differ K" "mset schedule = mset [0, 1, 2, 3, 4, 5, 6, 7]"
  shows "concurrent_same_nonce_admits_exactly_one K schedule"
proof -
  have dist: "distinct schedule"
    using mset_eq_imp_distinct_iff [OF assms(2)] by simp
  have sub: "with_fee ` set schedule \<subseteq> set test_intents"
    using mset_eq_setD [OF assms(2)] by (auto simp: test_intents_def)
  have "inj_on (intent_id_of K) (set (map with_fee schedule))"
    using assms(1) sub unfolding ids_differ_def by (auto intro: inj_on_subset)
  then have "card (intent_id_of K ` set (map with_fee schedule)) = card (set (map with_fee schedule))"
    by (rule card_image)
  also have "\<dots> = length (map with_fee schedule)"
    using dist by (intro distinct_card) (auto simp: distinct_map inj_on_def)
  finally have ids: "card (intent_id_of K ` set (map with_fee schedule)) = length (map with_fee schedule)" .
  obtain f fs where sched: "schedule = f # fs"
    using assms(2) by (cases schedule) auto
  define a where "a = admission_record (intent_id_of K (with_fee f)) (Address (array_repeat 1)) 7 fresh_gate"
  define l where "l = snd (mem_append (IntentReceived (intent_id_of K (with_fee f)) (with_fee f) TEST_NOW) mem_log_new)"
  have won: "admit_and_append mem_ops K (with_fee f) TEST_NOW (fresh_gate, mem_log_new) =
      (Ok (intent_id_of K (with_fee f), Position 0), a, l)"
    by (simp add: a_def l_def gate_eval with_fee_def position_of_def)
  have nonce: "adm_nonces a (Address (array_repeat 1)) = Some 7"
    by (simp add: a_def admission_record_def fresh_gate_def admission_new_def Let_def)
  then have "admission_check a i (with_fee f') t \<noteq> Ok ()" for i f' t
    by (simp add: admission_check_Ok_iff nonce_advances_def)
  then obtain rs where "submit_all K (map (\<lambda>i. (i, TEST_NOW)) (map with_fee fs)) (a, l) = (rs, a, l)"
    "filter isOk rs = []"
    using submit_all_refused [of "map (\<lambda>i. (i, TEST_NOW)) (map with_fee fs)" a K l] by auto
  with ids won nonce show ?thesis
    by (simp add: concurrent_same_nonce_admits_exactly_one_def sched Let_def l_def mem_append_eq
        mem_log_new_def)
qed

lemma dummy_admissible:
  assumes "n \<in> set [0, 1, 2, 3, 4, 5, 6, 7]" "adm_guarantee a = admission_guarantee"
    "i \<notin> adm_seen a" "adm_nonces a (Address (array_repeat (ucast n))) = None"
  shows "admission_check a i (dummy n) (TEST_NOW + n) = Ok ()"
  using assms
  by (auto simp: admission_check_Ok_iff intent_valid_def window_met_def nonce_advances_def
      MAX_SLIPPAGE_BPS_def TEST_NOW_def)

lemma submit_all_distinct:
  assumes ids: "ids_differ K"
  shows "distinct ns \<Longrightarrow> set ns \<subseteq> set [0, 1, 2, 3, 4, 5, 6, 7] \<Longrightarrow>
    adm_guarantee a = admission_guarantee \<Longrightarrow>
    \<forall>n \<in> set ns. intent_id_of K (dummy n) \<notin> adm_seen a \<and>
      adm_nonces a (Address (array_repeat (ucast n))) = None \<Longrightarrow>
    \<exists>a' l'. submit_all K (map (\<lambda>n. (dummy n, TEST_NOW + n)) ns) (a, l) =
      (map (\<lambda>(n, k). Ok (intent_id_of K (dummy n), position_of k))
         (zip ns [length (ml_entries l)..<length (ml_entries l) + length ns]), a', l') \<and>
      adm_seen a' = adm_seen a \<union> (\<lambda>n. intent_id_of K (dummy n)) ` set ns"
proof (induction ns arbitrary: a l)
  case (Cons n ns)
  let ?i = "intent_id_of K (dummy n)"
  define a1 where "a1 = admission_record ?i (Address (array_repeat (ucast n))) n a"
  define l1 where "l1 = snd (mem_append (IntentReceived ?i (dummy n) (TEST_NOW + n)) l)"
  have "admission_check a ?i (dummy n) (TEST_NOW + n) = Ok ()"
    using Cons.prems by (intro dummy_admissible) simp_all
  then have step: "admit_and_append mem_ops K (dummy n) (TEST_NOW + n) (a, l) =
      (Ok (?i, position_of (length (ml_entries l))), a1, l1)"
    by (simp add: admit_and_append_def Let_def mem_append_eq a1_def l1_def)
  have small: "n \<in> set [0, 1, 2, 3, 4, 5, 6, 7]" and rest: "set ns \<subseteq> set [0, 1, 2, 3, 4, 5, 6, 7]"
    using Cons.prems(2) by simp_all
  have other: "intent_id_of K (dummy m) \<noteq> ?i \<and> (ucast m :: u8) \<noteq> ucast n" if m: "m \<in> set ns" for m
  proof -
    from m Cons.prems(1) have "n \<noteq> m" by auto
    moreover from m rest have "m \<in> set [0, 1, 2, 3, 4, 5, 6, 7]" by blast
    ultimately have "(ucast m :: u8) \<noteq> ucast n"
      using small by auto
    moreover have "dummy n \<in> set test_intents" "dummy m \<in> set test_intents"
      using small rest m dummy_test_intents by blast+
    then have "intent_id_of K (dummy m) \<noteq> ?i"
      using id_eq [OF ids] \<open>n \<noteq> m\<close> by simp
    ultimately show ?thesis by blast
  qed
  have "\<forall>m \<in> set ns. intent_id_of K (dummy m) \<notin> adm_seen a1 \<and>
      adm_nonces a1 (Address (array_repeat (ucast m))) = None"
    using other Cons.prems(4) by (auto simp: a1_def admission_record_def Let_def)
  then obtain a' l' where "submit_all K (map (\<lambda>n. (dummy n, TEST_NOW + n)) ns) (a1, l1) =
      (map (\<lambda>(n, k). Ok (intent_id_of K (dummy n), position_of k))
         (zip ns [length (ml_entries l1)..<length (ml_entries l1) + length ns]), a', l')"
    "adm_seen a' = adm_seen a1 \<union> (\<lambda>n. intent_id_of K (dummy n)) ` set ns"
    using Cons.IH [of a1 l1] Cons.prems(1,3) rest by (auto simp: a1_def)
  moreover have "length (ml_entries l1) = Suc (length (ml_entries l))"
    by (simp add: l1_def mem_append_eq)
  moreover have "adm_seen a1 = insert ?i (adm_seen a)"
    by (simp add: a1_def admission_record_def Let_def)
  ultimately show ?case
    by (simp add: step upt_conv_Cons del: upt_Suc)
qed simp

lemma concurrent_admissions_are_totally_ordered_holds:
  assumes "ids_differ K" "mset schedule = mset [0, 1, 2, 3, 4, 5, 6, 7]"
  shows "concurrent_admissions_are_totally_ordered K schedule"
proof -
  have dist: "distinct schedule" and set: "set schedule = set [0, 1, 2, 3, 4, 5, 6, 7]"
    and len: "length schedule = 8"
    using mset_eq_imp_distinct_iff [OF assms(2)] mset_eq_setD [OF assms(2)] mset_eq_length [OF assms(2)]
    by simp_all
  let ?ids = "(\<lambda>n. intent_id_of K (dummy n)) ` set schedule"
  obtain a' l' where run: "submit_all K (map (\<lambda>n. (dummy n, TEST_NOW + n)) schedule) (fresh_gate, mem_log_new) =
      (map (\<lambda>(n, k). Ok (intent_id_of K (dummy n), position_of k)) (zip schedule [0..<8]), a', l')"
    and seen: "adm_seen a' = ?ids"
    using submit_all_distinct [OF assms(1) dist, of fresh_gate mem_log_new] set len
    by (auto simp: fresh_gate_def admission_new_def mem_log_new_def)
  have "card ?ids = card (set schedule)"
  proof (rule card_image, rule inj_onI)
    fix m n
    assume mn: "m \<in> set schedule" "n \<in> set schedule" "intent_id_of K (dummy m) = intent_id_of K (dummy n)"
    then have "dummy m \<in> set test_intents" "dummy n \<in> set test_intents"
      using dummy_test_intents set by blast+
    with mn(3) id_eq [OF assms(1)] show "m = n" by simp
  qed
  then have card: "card (adm_seen a') = 8"
    using distinct_card [OF dist] len seen by simp
  have "map (\<lambda>r. case r of Ok (i, p) \<Rightarrow> position_index p | Err _ \<Rightarrow> 0)
      (map (\<lambda>(n, k). Ok (intent_id_of K (dummy n), position_of k)) (zip schedule [0..<8])) =
      map (\<lambda>(n, k). word_of_nat k) (zip schedule [0..<8])"
    by (simp add: position_of_def split_def comp_def)
  also have "\<dots> = map word_of_nat (map snd (zip schedule [0..<8]))"
    by (simp add: split_def comp_def)
  also have "\<dots> = [0, 1, 2, 3, 4, 5, 6, 7]"
    using len by (simp add: upt_rec)
  finally have positions: "map (\<lambda>r. case r of Ok (i, p) \<Rightarrow> position_index p | Err _ \<Rightarrow> 0)
      (map (\<lambda>(n, k). Ok (intent_id_of K (dummy n), position_of k)) (zip schedule [0..<8])) =
      [0, 1, 2, 3, 4, 5, 6, 7]" .
  show ?thesis
    unfolding concurrent_admissions_are_totally_ordered_def run Let_def prod.case positions
    using card by (auto simp: list_all_iff)
qed

section \<open>The suite\<close>

definition admission_tests :: "(keccak \<Rightarrow> bool) list" where
  "admission_tests =
     [an_intent_must_trade_something,
      both_sides_of_the_market_must_be_named,
      slippage_is_capped_at_the_limit_inclusive,
      an_intent_that_has_already_expired_is_rejected,
      a_deadline_inside_the_guarantee_window_cannot_be_promised,
      admitting_returns_the_intents_own_id_and_its_log_position,
      admitting_appends_one_entry_stamped_with_the_admission_time,
      successive_admissions_take_consecutive_positions,
      an_admitted_intent_is_recorded_against_its_submitter,
      a_recorded_nonce_only_ever_advances,
      submitters_have_independent_nonce_counters,
      a_failed_append_records_nothing,
      an_intent_is_admitted_only_once,
      a_nonce_must_strictly_advance,
      an_advancing_nonce_is_admitted_even_with_gaps,
      an_unknown_submitter_may_open_at_any_nonce,
      one_submitters_nonce_does_not_gate_another,
      a_rejection_leaves_the_recorded_state_intact,
      only_one_of_two_concurrent_replays_is_admitted,
      validity_is_judged_before_history,
      a_malformed_intent_records_nothing,
      an_empty_log_recovers_an_open_gate,
      a_restart_does_not_let_a_replay_back_in,
      a_restart_keeps_each_submitters_nonce,
      a_restart_keeps_submitters_independent,
      recovery_takes_the_highest_nonce_the_log_holds,
      recovery_reads_only_admissions,
      an_expired_intent_stays_admitted_history,
      a_recovered_gate_enforces_the_guarantee_it_was_handed,
      a_recovered_gate_appends_after_the_history_it_read,
      recovering_twice_over_reaches_the_same_gate]"

lemma admission_tests_hold: "ids_differ K \<Longrightarrow> list_all (\<lambda>test. test K) admission_tests"
  by (simp add: admission_tests_def validity_tests_hold
      admitting_returns_the_intents_own_id_and_its_log_position_holds
      admitting_appends_one_entry_stamped_with_the_admission_time_holds
      successive_admissions_take_consecutive_positions_holds
      an_admitted_intent_is_recorded_against_its_submitter_holds
      a_recorded_nonce_only_ever_advances_holds
      submitters_have_independent_nonce_counters_holds
      a_failed_append_records_nothing_holds
      an_intent_is_admitted_only_once_holds
      a_nonce_must_strictly_advance_holds
      an_advancing_nonce_is_admitted_even_with_gaps_holds
      an_unknown_submitter_may_open_at_any_nonce_holds
      one_submitters_nonce_does_not_gate_another_holds
      a_rejection_leaves_the_recorded_state_intact_holds
      only_one_of_two_concurrent_replays_is_admitted_holds
      validity_is_judged_before_history_holds
      a_malformed_intent_records_nothing_holds
      an_empty_log_recovers_an_open_gate_holds
      a_restart_does_not_let_a_replay_back_in_holds
      a_restart_keeps_each_submitters_nonce_holds
      a_restart_keeps_submitters_independent_holds
      recovery_takes_the_highest_nonce_the_log_holds_holds
      recovery_reads_only_admissions_holds
      an_expired_intent_stays_admitted_history_holds
      a_recovered_gate_enforces_the_guarantee_it_was_handed_holds
      a_recovered_gate_appends_after_the_history_it_read_holds
      recovering_twice_over_reaches_the_same_gate_holds)

text \<open>A hash that tells the test intents apart: submitter, nonce and the low byte of the fee.\<close>

definition test_hash :: keccak where
  "test_hash m = array_of_bytes (take 28 (drop 9 m) @ [m ! 79, 0, 0, 0])"

definition test_key :: "intent \<Rightarrow> address \<times> u64 \<times> u8" where
  "test_key i = (i_submitter i, i_nonce i, to_le_bytes (i_priority_fee i) ! 0)"

lemma test_hash_key:
  assumes "i_market i = Market ''ETH'' ''USDC''" "i_market j = Market ''ETH'' ''USDC''"
    and "intent_id_of test_hash i = intent_id_of test_hash j"
  shows "test_key i = test_key j"
proof -
  have pre: "take 28 (drop 9 (intent_preimage k)) = array_bytes (address_array (i_submitter k)) @ to_le_bytes (i_nonce k)"
    "intent_preimage k ! 79 = to_le_bytes (i_priority_fee k) ! 0"
    if "i_market k = Market ''ETH'' ''USDC''" for k
    using that by (simp_all add: intent_preimage_def counted_string_def nth_append)
  have "array_bytes (address_array (i_submitter i)) @ to_le_bytes (i_nonce i) @ [to_le_bytes (i_priority_fee i) ! 0, 0, 0, 0] =
      array_bytes (address_array (i_submitter j)) @ to_le_bytes (i_nonce j) @ [to_le_bytes (i_priority_fee j) ! 0, 0, 0, 0]"
    using assms(3) by (simp add: intent_id_of_eq test_hash_def pre [OF assms(1)] pre [OF assms(2)] array_of_bytes_eq_iff)
  then show ?thesis
    by (auto simp: test_key_def to_le_bytes_inject intro: address.expand)
qed

lemma test_hash_differs: "ids_differ test_hash"
  unfolding ids_differ_def
proof (rule inj_onI)
  fix i j
  assume ij: "i \<in> set test_intents" "j \<in> set test_intents" "intent_id_of test_hash i = intent_id_of test_hash j"
  have "i_market k = Market ''ETH'' ''USDC''" if "k \<in> set test_intents" for k
    using that by (auto simp: test_intents_def with_fee_def)
  with ij have "test_key i = test_key j"
    by (intro test_hash_key)
  moreover have "distinct (map test_key test_intents)"
    by (simp add: test_intents_def test_key_def to_le_bytes_def)
  ultimately show "i = j"
    using ij by (simp add: distinct_map inj_on_def)
qed

end
