(* ===== verification/Log_Tests.thy ===== *)
theory Log_Tests
  imports Testkit Redb_Log
begin

text \<open>
  The unit tests of \<^verbatim>\<open>src/src/log.rs\<close> on \<open>MemLog\<close> and on the value codec, and those of
  \<^verbatim>\<open>src/src/intent.rs\<close>. A receiver of the doorbell that subscribed after \<open>n\<close> sends has changed
  when more were sent since. The tests of \<open>RedbLog\<close> are in \<open>Redb_Tests\<close>.
\<close>

section \<open>Fixtures\<close>

definition test_received :: "keccak \<Rightarrow> u64 \<Rightarrow> entry" where
  "test_received K n = (let intent = dummy n in IntentReceived (intent_id_of K intent) intent n)"

text \<open>\<open>None\<close> is the panic on another variant.\<close>

fun marker_of :: "entry \<Rightarrow> u64 option" where
  "marker_of (IntentReceived _ _ received_at) = Some received_at"
| "marker_of _ = None"

fun test_markers :: "(position \<times> entry) list \<Rightarrow> (u64 \<times> u64) list option" where
  "test_markers [] = Some []"
| "test_markers ((pos, e) # pes) =
    (case (marker_of e, test_markers pes) of
       (Some m, Some ms) \<Rightarrow> Some ((position_index pos, m) # ms)
     | _ \<Rightarrow> None)"

definition test_read_from :: "mem_log \<Rightarrow> position \<Rightarrow> (u64 \<times> u64) list option" where
  "test_read_from log cursor =
    (case mem_read_from cursor log of Ok pes \<Rightarrow> test_markers pes | Err _ \<Rightarrow> None)"

text \<open>What a receiver that had seen \<open>n\<close> sends finds.\<close>

definition rung :: "mem_log \<Rightarrow> nat \<Rightarrow> position list" where
  "rung log n = drop n (ml_doorbell log)"

section \<open>\<open>MemLog\<close>\<close>

definition append_returns_the_position_written :: "keccak \<Rightarrow> bool" where
  "append_returns_the_position_written K \<longleftrightarrow>
    (let (r0, log) = mem_append (test_received K 0) mem_log_new;
         (r1, log) = mem_append (test_received K 1) log;
         (r2, log) = mem_append (test_received K 2) log
     in r0 = Ok (Position 0) \<and> r1 = Ok (Position 1) \<and> r2 = Ok (Position 2))"

definition head_is_exclusive_and_zero_when_empty :: "keccak \<Rightarrow> bool" where
  "head_is_exclusive_and_zero_when_empty K \<longleftrightarrow>
     mem_head mem_log_new = position_ZERO \<and>
     (case mem_append (test_received K 0) mem_log_new of
        (Ok pos, log) \<Rightarrow> mem_head log = position_next pos
      | (Err _, _) \<Rightarrow> False)"

definition a_rejected_empty_batch_leaves_the_log_untouched :: "keccak \<Rightarrow> bool" where
  "a_rejected_empty_batch_leaves_the_log_untouched K \<longleftrightarrow>
    (let (r, log) = mem_append_batch [] mem_log_new
     in r = Err EmptyBatch \<and> mem_head log = position_ZERO \<and> rung log 0 = [])"

definition append_rings_the_doorbell_with_the_written_position :: "keccak \<Rightarrow> bool" where
  "append_rings_the_doorbell_with_the_written_position K \<longleftrightarrow>
    (case mem_append (test_received K 0) mem_log_new of
       (Ok pos, log) \<Rightarrow> rung log 0 \<noteq> [] \<and> last (rung log 0) = pos
     | (Err _, _) \<Rightarrow> False)"

definition append_batch_rings_the_doorbell_once :: "keccak \<Rightarrow> bool" where
  "append_batch_rings_the_doorbell_once K \<longleftrightarrow>
    (case mem_append_batch [test_received K 0, test_received K 1] mem_log_new of
       (Ok pos, log) \<Rightarrow> last (rung log 0) = pos \<and> rung log 1 = []
     | (Err _, _) \<Rightarrow> False)"

definition three_received :: "keccak \<Rightarrow> mem_log" where
  "three_received K = snd (mem_append_batch (map (test_received K) [10, 11, 12]) mem_log_new)"

definition read_from_zero_yields_every_entry_with_its_position :: "keccak \<Rightarrow> bool" where
  "read_from_zero_yields_every_entry_with_its_position K \<longleftrightarrow>
     test_read_from (three_received K) position_ZERO = Some [(0, 10), (1, 11), (2, 12)]"

definition read_from_a_cursor_yields_only_the_tail :: "keccak \<Rightarrow> bool" where
  "read_from_a_cursor_yields_only_the_tail K \<longleftrightarrow>
     test_read_from (three_received K) (Position 2) = Some [(2, 12)]"

definition read_from_the_head_yields_nothing :: "keccak \<Rightarrow> bool" where
  "read_from_the_head_yields_nothing K \<longleftrightarrow>
    (let log = snd (mem_append (test_received K 10) mem_log_new)
     in test_read_from log (mem_head log) = Some [])"

definition read_from_past_the_head_is_clamped_rather_than_panicking :: "keccak \<Rightarrow> bool" where
  "read_from_past_the_head_is_clamped_rather_than_panicking K \<longleftrightarrow>
    (let log = snd (mem_append (test_received K 10) mem_log_new)
     in test_read_from log (Position 99) = Some [])"

definition append_batch_matches_append_and_wakes_consumers :: "keccak \<Rightarrow> bool" where
  "append_batch_matches_append_and_wakes_consumers K \<longleftrightarrow>
    (let (r, log) = mem_append_batch [test_received K 1, test_received K 2] mem_log_new
     in r = Ok (Position 1) \<and> mem_head log = Position 2 \<and> rung log 0 \<noteq> [] \<and>
        fst (mem_append_batch [] log) = Err EmptyBatch)"

lemmas log_eval =
  test_received_def test_read_from_def rung_def mem_append_eq mem_append_batch_def mem_head_def
  mem_read_from_eq mem_log_new_def position_of_def position_ZERO_def position_next_def offset_def
  three_received_def Let_def

lemma mem_log_tests_hold:
  "append_returns_the_position_written K"
  "head_is_exclusive_and_zero_when_empty K"
  "a_rejected_empty_batch_leaves_the_log_untouched K"
  "append_rings_the_doorbell_with_the_written_position K"
  "append_batch_rings_the_doorbell_once K"
  "read_from_zero_yields_every_entry_with_its_position K"
  "read_from_a_cursor_yields_only_the_tail K"
  "read_from_the_head_yields_nothing K"
  "read_from_past_the_head_is_clamped_rather_than_panicking K"
  "append_batch_matches_append_and_wakes_consumers K"
  by (simp_all add: append_returns_the_position_written_def head_is_exclusive_and_zero_when_empty_def
      a_rejected_empty_batch_leaves_the_log_untouched_def append_rings_the_doorbell_with_the_written_position_def
      append_batch_rings_the_doorbell_once_def read_from_zero_yields_every_entry_with_its_position_def
      read_from_a_cursor_yields_only_the_tail_def read_from_the_head_yields_nothing_def
      read_from_past_the_head_is_clamped_rather_than_panicking_def
      append_batch_matches_append_and_wakes_consumers_def log_eval)

text \<open>
  Threads that append race for the write lock, so their appends are a sequence, whatever it is: each
  owns its position and the log has them all.
\<close>

fun append_all :: "entry list \<Rightarrow> mem_log \<Rightarrow> (log_error + position) list \<times> mem_log" where
  "append_all [] log = ([], log)"
| "append_all (e # es) log =
    (let (r, log) = mem_append e log; (rs, log) = append_all es log in (r # rs, log))"

definition concurrent_appends_each_get_a_distinct_position :: "entry list \<Rightarrow> bool" where
  "concurrent_appends_each_get_a_distinct_position es \<longleftrightarrow>
    (let (positions, log) = append_all es mem_log_new
     in length positions = length es \<and> card (set positions) = length es \<and>
        mem_head log = position_of (length es))"

lemma append_all_eq:
  "append_all es log =
    (map (\<lambda>k. Ok (position_of k)) [length (ml_entries log)..<length (ml_entries log) + length es],
     log\<lparr>ml_entries := ml_entries log @ es,
         ml_doorbell := ml_doorbell log @
           map position_of [length (ml_entries log)..<length (ml_entries log) + length es]\<rparr>)"
  by (induction es arbitrary: log) (simp_all add: mem_append_eq upt_conv_Cons del: upt_Suc)

lemma concurrent_appends_each_get_a_distinct_position_holds:
  assumes "length es \<le> 2 ^ 64"
  shows "concurrent_appends_each_get_a_distinct_position es"
proof -
  have "inj_on (\<lambda>k. Ok (position_of k) :: log_error + position) (set [0..<length es])"
    using assms by (auto intro!: inj_onI)
  then have "distinct (map (\<lambda>k. Ok (position_of k) :: log_error + position) [0..<length es])"
    by (simp add: distinct_map)
  from distinct_card [OF this] show ?thesis
    by (simp add: concurrent_appends_each_get_a_distinct_position_def append_all_eq mem_log_new_def
        mem_head_def position_of_def)
qed

section \<open>The value codec\<close>

definition every_encoding_carries_the_schema_version :: "postcard \<Rightarrow> keccak \<Rightarrow> bool" where
  "every_encoding_carries_the_schema_version P K \<longleftrightarrow>
    (case encode P (test_received K 0) of
       Ok bytes \<Rightarrow> take 2 bytes = to_le_bytes SCHEMA_VERSION
     | Err _ \<Rightarrow> False)"

definition decode_rejects_a_different_schema_version :: "postcard \<Rightarrow> keccak \<Rightarrow> bool" where
  "decode_rejects_a_different_schema_version P K \<longleftrightarrow>
    (case encode P (test_received K 0) of
       Ok bytes \<Rightarrow> decode P (to_le_bytes (SCHEMA_VERSION + 1) @ drop 2 bytes) = Some (Err ())
     | Err _ \<Rightarrow> False)"

lemma from_le_bytes_u16 [simp]: "from_le_bytes (to_le_bytes (w :: u16)) = w"
  by (rule from_le_bytes_to_le_bytes) simp

lemma codec_tests_hold:
  assumes "pc_to_stdvec P (test_received K 0) = Ok bs"
  shows "every_encoding_carries_the_schema_version P K"
    "decode_rejects_a_different_schema_version P K"
  by (simp_all add: every_encoding_carries_the_schema_version_def encode_def assms SCHEMA_VERSION_def
      decode_rejects_a_different_schema_version_def decode_def)

definition encode_then_decode_round_trips_an_entry :: "postcard \<Rightarrow> keccak \<Rightarrow> bool" where
  "encode_then_decode_round_trips_an_entry P K \<longleftrightarrow>
    (case encode P (test_received K 7) of
       Ok bytes \<Rightarrow>
         (case decode P bytes of Some (Ok decoded) \<Rightarrow> marker_of decoded = Some 7 | _ \<Rightarrow> False)
     | Err _ \<Rightarrow> False)"

lemma encode_then_decode_round_trips_an_entry_holds:
  assumes "pc_to_stdvec P (test_received K 7) = Ok bs" "pc_from_bytes P bs = Ok (test_received K 7)"
  shows "encode_then_decode_round_trips_an_entry P K"
  by (simp add: encode_then_decode_round_trips_an_entry_def encode_def assms SCHEMA_VERSION_def decode_def)
    (simp add: test_received_def Let_def)

section \<open>The id\<close>

definition the_same_intent_always_hashes_the_same :: "keccak \<Rightarrow> bool" where
  "the_same_intent_always_hashes_the_same K \<longleftrightarrow>
     intent_id_of K (dummy 7) = intent_id_of K (dummy 7)"

definition id_variants :: "intent list" where
  "id_variants =
    (let base = dummy 0
     in [base\<lparr>i_submitter := Address (array_repeat 0xAA)\<rparr>,
         base\<lparr>i_nonce := i_nonce base + 1\<rparr>,
         base\<lparr>i_market := Market ''BTC'' (market_quote (i_market base))\<rparr>,
         base\<lparr>i_market := Market (market_base (i_market base)) ''DAI''\<rparr>,
         base\<lparr>i_side := Sell\<rparr>,
         base\<lparr>i_size := i_size base + 1\<rparr>,
         base\<lparr>i_max_slippage_bps := i_max_slippage_bps base + 1\<rparr>,
         base\<lparr>i_priority_fee := i_priority_fee base + 1\<rparr>,
         base\<lparr>i_timestamp_ms := i_timestamp_ms base + 1\<rparr>,
         base\<lparr>i_deadline_ms := i_deadline_ms base + 1\<rparr>])"

definition every_economic_field_feeds_the_id :: "keccak \<Rightarrow> bool" where
  "every_economic_field_feeds_the_id K \<longleftrightarrow>
    (let base = dummy 0; variants = id_variants
     in (\<forall>variant \<in> set variants. intent_id_of K base \<noteq> intent_id_of K variant) \<and>
        card (set (map (intent_id_of K) (variants @ [base]))) = length variants + 1)"

definition market_strings_are_length_prefixed :: "keccak \<Rightarrow> bool" where
  "market_strings_are_length_prefixed K \<longleftrightarrow>
    (let split_one = (dummy 0)\<lparr>i_market := Market ''AB'' ''C''\<rparr>;
         split_other = (dummy 0)\<lparr>i_market := Market ''A'' ''BC''\<rparr>
     in intent_id_of K split_one \<noteq> intent_id_of K split_other)"

definition distinct_intents_get_distinct_ids :: "keccak \<Rightarrow> bool" where
  "distinct_intents_get_distinct_ids K \<longleftrightarrow>
     card (set (map (\<lambda>n. intent_id_of K (dummy (word_of_nat n))) [0..<64])) = 64"

text \<open>The pre-images differ, so the ids do wherever the hash does not collide on them.\<close>

definition collides :: "keccak \<Rightarrow> intent list \<Rightarrow> bool" where
  "collides K is \<longleftrightarrow>
    (\<exists>i \<in> set is. \<exists>j \<in> set is. intent_preimage i \<noteq> intent_preimage j \<and>
       K (intent_preimage i) = K (intent_preimage j))"

lemma ids_distinct:
  assumes "\<not> collides K is" "\<forall>i \<in> set is. market_fits (i_market i)" "distinct is"
  shows "distinct (map (intent_id_of K) is)"
proof -
  have "inj_on (intent_id_of K) (set is)"
    using assms(1,2) by (intro inj_onI) (auto simp: collides_def intent_id_of_eq intent_preimage_inject)
  with assms(3) show ?thesis by (simp add: distinct_map)
qed

lemma id_variants_distinct: "distinct (id_variants @ [dummy 0])"
  by (simp add: id_variants_def Let_def dummy_def)

lemma id_variants_fit: "\<forall>i \<in> set (id_variants @ [dummy 0]). market_fits (i_market i)"
  by (simp add: id_variants_def Let_def market_fits_def)

lemma id_tests_hold:
  shows "the_same_intent_always_hashes_the_same K"
    and "\<not> collides K (id_variants @ [dummy 0]) \<Longrightarrow> every_economic_field_feeds_the_id K"
    and "\<not> collides K [(dummy 0)\<lparr>i_market := Market ''AB'' ''C''\<rparr>, (dummy 0)\<lparr>i_market := Market ''A'' ''BC''\<rparr>] \<Longrightarrow>
      market_strings_are_length_prefixed K"
    and "\<not> collides K (map (\<lambda>n. dummy (word_of_nat n)) [0..<64]) \<Longrightarrow> distinct_intents_get_distinct_ids K"
proof -
  show "the_same_intent_always_hashes_the_same K"
    by (simp add: the_same_intent_always_hashes_the_same_def)
  show "every_economic_field_feeds_the_id K" if "\<not> collides K (id_variants @ [dummy 0])"
    using ids_distinct [OF that id_variants_fit id_variants_distinct] distinct_card
    unfolding every_economic_field_feeds_the_id_def Let_def by fastforce
  show "market_strings_are_length_prefixed K"
    if "\<not> collides K [(dummy 0)\<lparr>i_market := Market ''AB'' ''C''\<rparr>, (dummy 0)\<lparr>i_market := Market ''A'' ''BC''\<rparr>]"
    using ids_distinct [OF that] by (simp add: market_strings_are_length_prefixed_def market_fits_def dummy_def)
  show "distinct_intents_get_distinct_ids K"
    if "\<not> collides K (map (\<lambda>n. dummy (word_of_nat n)) [0..<64])"
  proof -
    have "inj_on (\<lambda>n. dummy (word_of_nat n)) {0..<64}"
      by (intro inj_onI) (auto simp: word_of_nat_eq_iff64)
    then have "distinct (map (intent_id_of K) (map (\<lambda>n. dummy (word_of_nat n)) [0..<64]))"
      using that by (intro ids_distinct) (auto simp: distinct_map market_fits_def)
    from distinct_card [OF this] show ?thesis
      by (simp add: distinct_intents_get_distinct_ids_def comp_def)
  qed
qed

end
