(* ===== verification/Redb_Tests.thy ===== *)
theory Redb_Tests
  imports Log_Tests Redb_Properties
begin

text \<open>
  The unit tests of \<open>RedbLog\<close> in \<^verbatim>\<open>src/src/log.rs\<close>. The tests run on a real database file; here they
  run on any store and codec that obey their laws and do not fail, from a database without the
  table. Closing a log and opening its path again is \<open>redb_open\<close> on the database it left. A test
  whose \<open>unwrap\<close> would panic is false.
\<close>

section \<open>A store that does not fail\<close>

definition redb_works :: "('d, 'r, 't, 'w) redb \<Rightarrow> ('d, 'r, 't, 'w) views \<Rightarrow> bool" where
  "redb_works D V \<longleftrightarrow>
     (\<forall>d. \<exists>r. db_begin_read D d = Ok r) \<and> (\<forall>r x. db_open_table D r \<noteq> Err (TableFault x)) \<and>
     (\<forall>t. \<exists>kv. tb_last D t = Ok kv) \<and> (\<forall>c t. \<exists>rs. tb_range D c t = Ok rs) \<and>
     (\<forall>d. \<exists>w. db_begin_write D d = Ok w) \<and> (\<forall>w. \<exists>w'. tx_open_table D w = Ok w') \<and>
     (\<forall>k v w rows. vw_write V w = Some rows \<longrightarrow> length (bt_insert k v rows) < 2 ^ 64 \<longrightarrow>
        (\<exists>w'. tx_insert D k v w = Ok w')) \<and>
     (\<forall>w d. \<exists>d'. tx_commit D w d = (Ok (), d'))"

lemma redb_worksD:
  assumes "redb_works D V"
  shows redb_reads: "\<exists>r. db_begin_read D d = Ok r"
    and redb_no_fault: "db_open_table D r \<noteq> Err (TableFault x)"
    and redb_lasts: "\<exists>kv. tb_last D t = Ok kv"
    and redb_ranges: "\<exists>rs. tb_range D c t = Ok rs"
    and redb_writes: "\<exists>w. db_begin_write D d = Ok w"
    and redb_opens: "\<exists>w'. tx_open_table D w = Ok w'"
    and redb_inserts: "vw_write V w = Some rows \<Longrightarrow> length (bt_insert k v rows) < 2 ^ 64 \<Longrightarrow>
      \<exists>w'. tx_insert D k v w = Ok w'"
    and redb_commits: "\<exists>d'. tx_commit D w d = (Ok (), d')"
  using assms by (simp_all add: redb_works_def)

definition encodes :: "postcard \<Rightarrow> entry \<Rightarrow> bool" where
  "encodes P e \<longleftrightarrow> (\<exists>bs. pc_to_stdvec P e = Ok bs)"

lemma encodes_Ok: "encodes P e \<Longrightarrow> \<exists>bs. encode P e = Ok bs"
  by (auto simp: encodes_def encode_def Let_def)

lemma length_bt_insert: "length (bt_insert k v m) \<le> Suc (length m)"
  by (induction k v m rule: bt_insert.induct) auto

lemma insert_all_works:
  assumes "redb_laws D V" "redb_works D V"
  shows "vw_write V tx = Some rows \<Longrightarrow> length rows + length es < 2 ^ 64 \<Longrightarrow> \<forall>e \<in> set es. encodes P e \<Longrightarrow>
    \<exists>r. redb_insert_all D P es pos tx = Ok r"
proof (induction es arbitrary: pos tx rows)
  case (Cons e es)
  obtain bs where bs: "encode P e = Ok bs"
    using Cons.prems(3) encodes_Ok [of P e] by auto
  have len: "length (bt_insert pos bs rows) \<le> Suc (length rows)"
    by (rule length_bt_insert)
  then have "length (bt_insert pos bs rows) < 2 ^ 64"
    using Cons.prems(2) by simp
  then obtain tx' where tx': "tx_insert D pos bs tx = Ok tx'"
    using redb_inserts [OF assms(2) Cons.prems(1)] by blast
  have "vw_write V tx' = Some (bt_insert pos bs rows)"
    using redb_insert [OF assms(1) tx' Cons.prems(1)] by blast
  moreover have "length (bt_insert pos bs rows) + length es < 2 ^ 64"
    using Cons.prems(2) len by simp
  ultimately have "\<exists>r. redb_insert_all D P es (pos + 1) tx' = Ok r"
    using Cons.prems(3) by (intro Cons.IH) simp_all
  with bs tx' show ?case by auto
qed simp

text \<open>The log of such a store, its entries known.\<close>

definition redb_fine :: "('d, 'r, 't, 'w) redb \<Rightarrow> ('d, 'r, 't, 'w) views \<Rightarrow> postcard \<Rightarrow> bool" where
  "redb_fine D V P \<longleftrightarrow> redb_laws D V \<and> redb_works D V \<and> postcard_laws P"

definition holds :: "postcard \<Rightarrow> ('d, 'r, 't, 'w) views \<Rightarrow> 'd redb_log \<Rightarrow> entry list \<Rightarrow> bool" where
  "holds P V l es \<longleftrightarrow> redb_ok P V l \<and> redb_entries P V l = es"

lemma holds_length: "holds P V l es \<Longrightarrow> length es < 2 ^ 64"
  by (auto simp: holds_def redb_ok_def stored_def)

lemma holds_head: "holds P V l es \<Longrightarrow> redb_head l = position_of (length es)"
  by (auto simp: holds_def redb_head_def redb_ok_def position_of_def)

lemma batch_rings:
  "redb_append_batch D P es l = (Ok p, l') \<Longrightarrow> rl_doorbell l' = rl_doorbell l @ [redb_head l']"
  by (auto simp: redb_append_batch_def Let_def redb_head_def split: if_splits sum.splits prod.splits)

lemma batch_works:
  assumes "redb_fine D V P" "holds P V l es0" "es \<noteq> []" "\<forall>e \<in> set es. encodes P e"
    and "length es0 + length es < 2 ^ 64"
  obtains l' where "redb_append_batch D P es l = (Ok (position_of (length es0 + length es - 1)), l')"
    "holds P V l' (es0 @ es)" "rl_doorbell l' = rl_doorbell l @ [position_of (length es0 + length es)]"
proof -
  from assms(1) have laws: "redb_laws D V" "redb_works D V" "postcard_laws P"
    by (simp_all add: redb_fine_def)
  have ok: "redb_ok P V l" "redb_entries P V l = es0"
    using assms(2) by (simp_all add: holds_def)
  then have st: "stored P es0 (vw_db V (rl_db l))"
    by (simp add: redb_ok_def)
  obtain tx where tx: "db_begin_write D (rl_db l) = Ok tx"
    using redb_writes [OF laws(2)] by blast
  obtain tx1 where tx1: "tx_open_table D tx = Ok tx1"
    using redb_opens [OF laws(2)] by blast
  let ?rows = "case vw_db V (rl_db l) of None \<Rightarrow> [] | Some rows \<Rightarrow> rows"
  have "vw_write V tx1 = Some ?rows"
    using redb_begin_write [OF laws(1) tx] redb_open_write [OF laws(1) tx1] by simp
  moreover have "length ?rows = length es0"
    using st by (simp add: stored_def)
  ultimately obtain pos tx2 where ins: "redb_insert_all D P es (rl_head l) tx1 = Ok (pos, tx2)"
    using insert_all_works [OF laws(1,2), of tx1 ?rows es P "rl_head l"] assms(4,5) by auto
  obtain d where "tx_commit D tx2 (rl_db l) = (Ok (), d)"
    using redb_commits [OF laws(2)] by blast
  with tx tx1 ins assms(3) obtain p l' where app: "redb_append_batch D P es l = (Ok p, l')"
    by (simp add: redb_append_batch_def Let_def)
  from redb_append_batch_contract(1) [OF laws(1,3) ok(1) app] ok(2)
  have l': "holds P V l' (es0 @ es)" "p = position_of (length es0 + length es - 1)"
    by (simp_all add: holds_def)
  with batch_rings [OF app] holds_head [OF l'(1)] app show ?thesis
    by (intro that) simp_all
qed

lemma append_works:
  assumes "redb_fine D V P" "holds P V l es" "encodes P e" "Suc (length es) < 2 ^ 64"
  obtains l' where "redb_append D P e l = (Ok (position_of (length es)), l')" "holds P V l' (es @ [e])"
    "rl_doorbell l' = rl_doorbell l @ [position_of (Suc (length es))]"
  using batch_works [OF assms(1,2), of "[e]"] assms(3,4) by (auto simp: redb_append_def)

lemma read_works:
  assumes "redb_fine D V P" "holds P V l es"
  shows "redb_read_from_checked D P c l = Some (Ok (drop (offset c) (positioned es)))"
proof -
  from assms(1) have laws: "redb_laws D V" "redb_works D V" "postcard_laws P"
    by (simp_all add: redb_fine_def)
  have ok: "redb_ok P V l" "redb_entries P V l = es"
    using assms(2) by (simp_all add: holds_def)
  obtain tx where tx: "db_begin_read D (rl_db l) = Ok tx"
    using redb_reads [OF laws(2)] by blast
  show ?thesis
  proof (cases "db_open_table D tx")
    case (Inl x)
    with redb_no_fault [OF laws(2)] obtain y where x: "x = TableDoesNotExist y" by (cases x) auto
    with Inl redb_begin_read [OF laws(1) tx] redb_open_missing [OF laws(1), of tx y] ok have "es = []"
      by (auto simp: redb_ok_def stored_None)
    with Inl x tx show ?thesis by (simp add: redb_read_from_checked_def)
  next
    case (Inr t)
    obtain rs where "tb_range D (position_index c) t = Ok rs"
      using redb_ranges [OF laws(2)] by blast
    from redb_read_rows [OF laws(1,3) ok(1) tx Inr this] ok(2) show ?thesis by simp
  qed
qed

lemma open_works:
  assumes "redb_fine D V P"
  obtains l where "redb_open D (Ok d) = Ok l" "rl_db l = d" "rl_doorbell l = [redb_head l]"
proof -
  from assms have works: "redb_works D V" by (simp add: redb_fine_def)
  obtain tx where tx: "db_begin_read D d = Ok tx"
    using redb_reads [OF works] by blast
  have "\<exists>h. redb_open D (Ok d) = Ok \<lparr>rl_db = d, rl_head = h, rl_doorbell = [Position h]\<rparr>"
  proof (cases "db_open_table D tx")
    case (Inr t)
    moreover obtain kv where "tb_last D t = Ok kv"
      using redb_lasts [OF works] by blast
    ultimately show ?thesis by (simp add: redb_open_def tx)
  qed (simp add: redb_open_def tx)
  then show ?thesis by (auto simp: redb_head_def intro: that)
qed

text \<open>A new database has no table; a reopened one holds what the log that wrote it held.\<close>

lemma fresh_works:
  assumes "redb_fine D V P" "vw_db V d = None"
  obtains l where "redb_open D (Ok d) = Ok l" "holds P V l []" "rl_doorbell l = [Position 0]"
proof -
  from assms(1) have laws: "redb_laws D V" "redb_works D V" "postcard_laws P"
    by (simp_all add: redb_fine_def)
  obtain l where l: "redb_open D (Ok d) = Ok l" "rl_db l = d" "rl_doorbell l = [redb_head l]"
    by (rule open_works [OF assms(1)])
  let ?old = "\<lparr>rl_db = d, rl_head = 0, rl_doorbell = []\<rparr>"
  have old: "redb_entries P V ?old = []" "redb_ok P V ?old"
    using assms(2) by (simp_all add: redb_ok_def redb_entries_def stored_def map_filter_simps)
  have "redb_open D (Ok (rl_db ?old)) = Ok l" "\<forall>r x. db_open_table D r \<noteq> Err (TableFault x)"
    using l(1) redb_no_fault [OF laws(2)] by simp_all
  from redb_open_same [OF laws(1,3) old(2) this(2,1)] old(1) l show ?thesis
    by (intro that) (auto simp: holds_def redb_head_def)
qed

lemma reopen_works:
  assumes "redb_fine D V P" "holds P V old es"
  obtains l where "redb_open D (Ok (rl_db old)) = Ok l" "holds P V l es"
    "rl_doorbell l = [position_of (length es)]"
proof -
  from assms(1) have laws: "redb_laws D V" "redb_works D V" "postcard_laws P"
    by (simp_all add: redb_fine_def)
  obtain l where l: "redb_open D (Ok (rl_db old)) = Ok l" "rl_doorbell l = [redb_head l]"
    by (rule open_works [OF assms(1)])
  have "\<forall>r x. db_open_table D r \<noteq> Err (TableFault x)"
    using redb_no_fault [OF laws(2)] by simp
  from redb_open_same [OF laws(1,3) _ this l(1)] assms(2) have "holds P V l es"
    by (simp add: holds_def)
  with l holds_head [OF this] show ?thesis
    by (intro that) simp_all
qed

section \<open>The tests\<close>

text \<open>What the helper \<open>read_from\<close> of the tests yields on a \<open>RedbLog\<close>.\<close>

definition redb_markers ::
    "('d, 'r, 't, 'w) redb \<Rightarrow> postcard \<Rightarrow> 'd redb_log \<Rightarrow> position \<Rightarrow> (u64 \<times> u64) list option" where
  "redb_markers D P log cursor =
    (case redb_read_from_checked D P cursor log of
       Some (Ok pes) \<Rightarrow> test_markers pes
     | _ \<Rightarrow> None)"

definition a_fresh_database_starts_empty :: "('d, 'r, 't, 'w) redb \<Rightarrow> postcard \<Rightarrow> 'd \<Rightarrow> bool" where
  "a_fresh_database_starts_empty D P d \<longleftrightarrow>
    (case redb_open D (Ok d) of
       Ok log \<Rightarrow> redb_head log = position_ZERO \<and> redb_markers D P log position_ZERO = Some []
     | Err _ \<Rightarrow> False)"

definition redb_append_returns_the_position_written ::
    "('d, 'r, 't, 'w) redb \<Rightarrow> postcard \<Rightarrow> 'd \<Rightarrow> keccak \<Rightarrow> bool" where
  "redb_append_returns_the_position_written D P d K \<longleftrightarrow>
    (case redb_open D (Ok d) of
       Ok log \<Rightarrow>
         let (r0, log) = redb_append D P (test_received K 0) log;
             (r1, log) = redb_append D P (test_received K 1) log
         in r0 = Ok (Position 0) \<and> r1 = Ok (Position 1) \<and> redb_head log = Position 2
     | Err _ \<Rightarrow> False)"

definition append_batch_returns_the_last_position_and_stores_the_whole_batch ::
    "('d, 'r, 't, 'w) redb \<Rightarrow> postcard \<Rightarrow> 'd \<Rightarrow> keccak \<Rightarrow> bool" where
  "append_batch_returns_the_last_position_and_stores_the_whole_batch D P d K \<longleftrightarrow>
    (case redb_open D (Ok d) of
       Ok log \<Rightarrow>
         let (r0, log) = redb_append D P (test_received K 0) log;
             (r1, log) = redb_append_batch D P (map (test_received K) [1, 2, 3]) log
         in r0 = Ok (Position 0) \<and> r1 = Ok (Position 3) \<and> redb_head log = Position 4 \<and>
            redb_markers D P log position_ZERO = Some [(0, 0), (1, 1), (2, 2), (3, 3)]
     | Err _ \<Rightarrow> False)"

definition redb_rejected_empty_batch_leaves_the_log_untouched ::
    "('d, 'r, 't, 'w) redb \<Rightarrow> postcard \<Rightarrow> 'd \<Rightarrow> keccak \<Rightarrow> bool" where
  "redb_rejected_empty_batch_leaves_the_log_untouched D P d K \<longleftrightarrow>
    (case redb_open D (Ok d) of
       Ok log \<Rightarrow>
         let (r0, log) = redb_append D P (test_received K 0) log;
             seen = length (rl_doorbell log);
             (r1, log) = redb_append_batch D P [] log
         in r0 = Ok (Position 0) \<and> r1 = Err EmptyBatch \<and> redb_head log = Position 1 \<and>
            drop seen (rl_doorbell log) = []
     | Err _ \<Rightarrow> False)"

definition a_batch_rings_the_doorbell_once_after_the_commit ::
    "('d, 'r, 't, 'w) redb \<Rightarrow> postcard \<Rightarrow> 'd \<Rightarrow> keccak \<Rightarrow> bool" where
  "a_batch_rings_the_doorbell_once_after_the_commit D P d K \<longleftrightarrow>
    (case redb_open D (Ok d) of
       Ok log \<Rightarrow>
         let seen = length (rl_doorbell log);
             (r, log) = redb_append_batch D P (map (test_received K) [0, 1]) log
         in r = Ok (Position 1) \<and> drop seen (rl_doorbell log) = [redb_head log]
     | Err _ \<Rightarrow> False)"

definition redb_read_from_a_cursor_yields_only_the_tail ::
    "('d, 'r, 't, 'w) redb \<Rightarrow> postcard \<Rightarrow> 'd \<Rightarrow> keccak \<Rightarrow> bool" where
  "redb_read_from_a_cursor_yields_only_the_tail D P d K \<longleftrightarrow>
    (case redb_open D (Ok d) of
       Ok log \<Rightarrow>
         let (r, log) = redb_append_batch D P (map (test_received K) [10, 11, 12]) log
         in r = Ok (Position 2) \<and>
            redb_markers D P log position_ZERO = Some [(0, 10), (1, 11), (2, 12)] \<and>
            redb_markers D P log (Position 2) = Some [(2, 12)] \<and>
            redb_markers D P log (redb_head log) = Some [] \<and>
            redb_markers D P log (Position 99) = Some []
     | Err _ \<Rightarrow> False)"

text \<open>A log that is written, closed and opened again.\<close>

definition entries_survive_a_reopen :: "('d, 'r, 't, 'w) redb \<Rightarrow> postcard \<Rightarrow> 'd \<Rightarrow> keccak \<Rightarrow> bool" where
  "entries_survive_a_reopen D P d K \<longleftrightarrow>
    (case redb_open D (Ok d) of
       Ok log \<Rightarrow>
         (case redb_append_batch D P (map (test_received K) [10, 11, 12]) log of
            (Ok _, log) \<Rightarrow>
              (case redb_open D (Ok (rl_db log)) of
                 Ok log \<Rightarrow>
                   redb_head log = Position 3 \<and>
                   redb_markers D P log position_ZERO = Some [(0, 10), (1, 11), (2, 12)]
               | Err _ \<Rightarrow> False)
          | (Err _, _) \<Rightarrow> False)
     | Err _ \<Rightarrow> False)"

definition a_reopened_log_appends_after_the_recovered_head ::
    "('d, 'r, 't, 'w) redb \<Rightarrow> postcard \<Rightarrow> 'd \<Rightarrow> keccak \<Rightarrow> bool" where
  "a_reopened_log_appends_after_the_recovered_head D P d K \<longleftrightarrow>
    (case redb_open D (Ok d) of
       Ok log \<Rightarrow>
         let (r0, log) = redb_append D P (test_received K 0) log;
             (r1, log) = redb_append D P (test_received K 1) log
         in r0 = Ok (Position 0) \<and> r1 = Ok (Position 1) \<and>
            (case redb_open D (Ok (rl_db log)) of
               Ok log \<Rightarrow>
                 let (r2, log) = redb_append D P (test_received K 2) log
                 in r2 = Ok (Position 2) \<and>
                    redb_markers D P log position_ZERO = Some [(0, 0), (1, 1), (2, 2)]
             | Err _ \<Rightarrow> False)
     | Err _ \<Rightarrow> False)"

definition a_reopened_log_starts_its_doorbell_at_the_recovered_head ::
    "('d, 'r, 't, 'w) redb \<Rightarrow> postcard \<Rightarrow> 'd \<Rightarrow> keccak \<Rightarrow> bool" where
  "a_reopened_log_starts_its_doorbell_at_the_recovered_head D P d K \<longleftrightarrow>
    (case redb_open D (Ok d) of
       Ok log \<Rightarrow>
         (case redb_append_batch D P (map (test_received K) [0, 1]) log of
            (Ok _, log) \<Rightarrow>
              (case redb_open D (Ok (rl_db log)) of
                 Ok log \<Rightarrow> rl_doorbell log = [Position 2]
               | Err _ \<Rightarrow> False)
          | (Err _, _) \<Rightarrow> False)
     | Err _ \<Rightarrow> False)"

section \<open>They hold\<close>

lemma marker_of_test_received [simp]: "marker_of (test_received K n) = Some n"
  by (simp add: test_received_def Let_def)

lemma markers_work:
  "redb_fine D V P \<Longrightarrow> holds P V l es \<Longrightarrow>
     redb_markers D P l c = test_markers (drop (offset c) (positioned es))"
  by (simp add: redb_markers_def read_works)

lemmas position_eval = position_of_def position_ZERO_def offset_def

lemma a_fresh_database_starts_empty_holds:
  assumes "redb_fine D V P" "vw_db V d = None"
  shows "a_fresh_database_starts_empty D P d"
proof -
  obtain l0 where "redb_open D (Ok d) = Ok l0" "holds P V l0 []"
    by (rule fresh_works [OF assms])
  with markers_work [OF assms(1) this(2)] holds_head [OF this(2)] show ?thesis
    by (simp add: a_fresh_database_starts_empty_def position_eval)
qed

lemma one_appended:
  assumes "redb_fine D V P" "vw_db V d = None" "\<forall>n. encodes P (test_received K n)"
  obtains l0 l1 where "redb_open D (Ok d) = Ok l0"
    "redb_append D P (test_received K 0) l0 = (Ok (Position 0), l1)" "holds P V l1 [test_received K 0]"
proof -
  obtain l0 where l0: "redb_open D (Ok d) = Ok l0" "holds P V l0 []"
    by (rule fresh_works [OF assms(1,2)])
  obtain l1 where l1: "redb_append D P (test_received K 0) l0 = (Ok (Position 0), l1)"
    "holds P V l1 [test_received K 0]"
    using append_works [OF assms(1) l0(2), of "test_received K 0"] assms(3) by (auto simp: position_eval)
  with l0 show ?thesis by (intro that)
qed

lemma two_appended:
  assumes "redb_fine D V P" "vw_db V d = None" "\<forall>n. encodes P (test_received K n)"
  obtains l0 l1 l2 where "redb_open D (Ok d) = Ok l0"
    "redb_append D P (test_received K 0) l0 = (Ok (Position 0), l1)"
    "redb_append D P (test_received K 1) l1 = (Ok (Position 1), l2)"
    "holds P V l2 [test_received K 0, test_received K 1]"
proof -
  obtain l0 l1 where l0: "redb_open D (Ok d) = Ok l0"
    and l1: "redb_append D P (test_received K 0) l0 = (Ok (Position 0), l1)" "holds P V l1 [test_received K 0]"
    by (rule one_appended [OF assms])
  show ?thesis
    using append_works [OF assms(1) l1(2), of "test_received K 1"] assms(3) that [OF l0 l1(1)]
    by (auto simp: position_eval)
qed

lemma redb_append_returns_the_position_written_holds:
  assumes "redb_fine D V P" "vw_db V d = None" "\<forall>n. encodes P (test_received K n)"
  shows "redb_append_returns_the_position_written D P d K"
proof -
  obtain l0 l1 l2 where l0: "redb_open D (Ok d) = Ok l0"
    and l1: "redb_append D P (test_received K 0) l0 = (Ok (Position 0), l1)"
    and l2: "redb_append D P (test_received K 1) l1 = (Ok (Position 1), l2)"
      "holds P V l2 [test_received K 0, test_received K 1]"
    by (rule two_appended [OF assms])
  with l0 l1 holds_head [OF l2(2)] show ?thesis
    by (simp add: redb_append_returns_the_position_written_def position_eval)
qed

lemma append_batch_returns_the_last_position_and_stores_the_whole_batch_holds:
  assumes "redb_fine D V P" "vw_db V d = None" "\<forall>n. encodes P (test_received K n)"
  shows "append_batch_returns_the_last_position_and_stores_the_whole_batch D P d K"
proof -
  obtain l0 l1 where l0: "redb_open D (Ok d) = Ok l0"
    and l1: "redb_append D P (test_received K 0) l0 = (Ok (Position 0), l1)" "holds P V l1 [test_received K 0]"
    by (rule one_appended [OF assms])
  obtain l2 where l2: "redb_append_batch D P (map (test_received K) [1, 2, 3]) l1 = (Ok (Position 3), l2)"
    "holds P V l2 [test_received K 0, test_received K 1, test_received K 2, test_received K 3]"
    using batch_works [OF assms(1) l1(2), of "map (test_received K) [1, 2, 3]"] assms(3)
    by (auto simp: position_eval)
  with l0 l1 markers_work [OF assms(1) l2(2)] holds_head [OF l2(2)] show ?thesis
    by (simp add: append_batch_returns_the_last_position_and_stores_the_whole_batch_def position_eval)
qed

lemma redb_rejected_empty_batch_leaves_the_log_untouched_holds:
  assumes "redb_fine D V P" "vw_db V d = None" "\<forall>n. encodes P (test_received K n)"
  shows "redb_rejected_empty_batch_leaves_the_log_untouched D P d K"
proof -
  obtain l0 l1 where l0: "redb_open D (Ok d) = Ok l0"
    and l1: "redb_append D P (test_received K 0) l0 = (Ok (Position 0), l1)" "holds P V l1 [test_received K 0]"
    by (rule one_appended [OF assms])
  with l0 holds_head [OF l1(2)] show ?thesis
    by (simp add: redb_rejected_empty_batch_leaves_the_log_untouched_def redb_append_batch_def position_eval Let_def)
qed

lemma batch_of_two:
  assumes "redb_fine D V P" "vw_db V d = None" "\<forall>n. encodes P (test_received K n)"
  obtains l0 l1 where "redb_open D (Ok d) = Ok l0"
    "redb_append_batch D P (map (test_received K) [0, 1]) l0 = (Ok (Position 1), l1)"
    "holds P V l1 (map (test_received K) [0, 1])" "rl_doorbell l1 = rl_doorbell l0 @ [redb_head l1]"
proof -
  obtain l0 where l0: "redb_open D (Ok d) = Ok l0" "holds P V l0 []"
    by (rule fresh_works [OF assms(1,2)])
  obtain l1 where l1: "redb_append_batch D P (map (test_received K) [0, 1]) l0 = (Ok (Position 1), l1)"
    "holds P V l1 (map (test_received K) [0, 1])" "rl_doorbell l1 = rl_doorbell l0 @ [Position 2]"
    using batch_works [OF assms(1) l0(2), of "map (test_received K) [0, 1]"] assms(3)
    by (auto simp: position_eval)
  from holds_head [OF l1(2)] have "redb_head l1 = Position 2"
    by (simp add: position_eval)
  show ?thesis
    by (rule that [OF l0(1) l1(1,2) l1(3) [folded \<open>redb_head l1 = Position 2\<close>]])
qed

lemma batch_of_three:
  assumes "redb_fine D V P" "vw_db V d = None" "\<forall>n. encodes P (test_received K n)"
  obtains l0 l1 where "redb_open D (Ok d) = Ok l0"
    "redb_append_batch D P (map (test_received K) [10, 11, 12]) l0 = (Ok (Position 2), l1)"
    "holds P V l1 (map (test_received K) [10, 11, 12])"
proof -
  obtain l0 where l0: "redb_open D (Ok d) = Ok l0" "holds P V l0 []"
    by (rule fresh_works [OF assms(1,2)])
  show ?thesis
    using batch_works [OF assms(1) l0(2), of "map (test_received K) [10, 11, 12]"] assms(3) that [OF l0(1)]
    by (auto simp: position_eval)
qed

lemma a_batch_rings_the_doorbell_once_after_the_commit_holds:
  assumes "redb_fine D V P" "vw_db V d = None" "\<forall>n. encodes P (test_received K n)"
  shows "a_batch_rings_the_doorbell_once_after_the_commit D P d K"
proof -
  obtain l0 l1 where "redb_open D (Ok d) = Ok l0"
    "redb_append_batch D P (map (test_received K) [0, 1]) l0 = (Ok (Position 1), l1)"
    "rl_doorbell l1 = rl_doorbell l0 @ [redb_head l1]"
    by (rule batch_of_two [OF assms])
  then show ?thesis
    by (simp add: a_batch_rings_the_doorbell_once_after_the_commit_def)
qed

lemma redb_read_from_a_cursor_yields_only_the_tail_holds:
  assumes "redb_fine D V P" "vw_db V d = None" "\<forall>n. encodes P (test_received K n)"
  shows "redb_read_from_a_cursor_yields_only_the_tail D P d K"
proof -
  obtain l0 l1 where "redb_open D (Ok d) = Ok l0"
    "redb_append_batch D P (map (test_received K) [10, 11, 12]) l0 = (Ok (Position 2), l1)"
    and l1: "holds P V l1 (map (test_received K) [10, 11, 12])"
    by (rule batch_of_three [OF assms])
  with markers_work [OF assms(1) l1] holds_head [OF l1] show ?thesis
    by (simp add: redb_read_from_a_cursor_yields_only_the_tail_def position_eval)
qed

lemma entries_survive_a_reopen_holds:
  assumes "redb_fine D V P" "vw_db V d = None" "\<forall>n. encodes P (test_received K n)"
  shows "entries_survive_a_reopen D P d K"
proof -
  obtain l0 l1 where log: "redb_open D (Ok d) = Ok l0"
    "redb_append_batch D P (map (test_received K) [10, 11, 12]) l0 = (Ok (Position 2), l1)"
    and l1: "holds P V l1 (map (test_received K) [10, 11, 12])"
    by (rule batch_of_three [OF assms])
  obtain l2 where "redb_open D (Ok (rl_db l1)) = Ok l2" and l2: "holds P V l2 (map (test_received K) [10, 11, 12])"
    by (rule reopen_works [OF assms(1) l1])
  with log markers_work [OF assms(1) l2] holds_head [OF l2] show ?thesis
    by (simp add: entries_survive_a_reopen_def position_eval)
qed

lemma a_reopened_log_appends_after_the_recovered_head_holds:
  assumes "redb_fine D V P" "vw_db V d = None" "\<forall>n. encodes P (test_received K n)"
  shows "a_reopened_log_appends_after_the_recovered_head D P d K"
proof -
  obtain l0 l1 l2 where l0: "redb_open D (Ok d) = Ok l0"
    and l1: "redb_append D P (test_received K 0) l0 = (Ok (Position 0), l1)"
    and l2: "redb_append D P (test_received K 1) l1 = (Ok (Position 1), l2)"
      "holds P V l2 [test_received K 0, test_received K 1]"
    by (rule two_appended [OF assms])
  obtain l3 where l3: "redb_open D (Ok (rl_db l2)) = Ok l3" "holds P V l3 [test_received K 0, test_received K 1]"
    by (rule reopen_works [OF assms(1) l2(2)])
  obtain l4 where l4: "redb_append D P (test_received K 2) l3 = (Ok (Position 2), l4)"
    "holds P V l4 [test_received K 0, test_received K 1, test_received K 2]"
    using append_works [OF assms(1) l3(2), of "test_received K 2"] assms(3) by (auto simp: position_eval)
  from l0 l1 l2 l3 l4 markers_work [OF assms(1) l4(2)] show ?thesis
    by (simp add: a_reopened_log_appends_after_the_recovered_head_def position_eval)
qed

lemma a_reopened_log_starts_its_doorbell_at_the_recovered_head_holds:
  assumes "redb_fine D V P" "vw_db V d = None" "\<forall>n. encodes P (test_received K n)"
  shows "a_reopened_log_starts_its_doorbell_at_the_recovered_head D P d K"
proof -
  obtain l0 l1 where log: "redb_open D (Ok d) = Ok l0"
    "redb_append_batch D P (map (test_received K) [0, 1]) l0 = (Ok (Position 1), l1)"
    and l1: "holds P V l1 (map (test_received K) [0, 1])"
    by (rule batch_of_two [OF assms])
  obtain l2 where "redb_open D (Ok (rl_db l1)) = Ok l2"
    "rl_doorbell l2 = [position_of (length (map (test_received K) [0, 1]))]"
    by (rule reopen_works [OF assms(1) l1])
  with log show ?thesis
    by (simp add: a_reopened_log_starts_its_doorbell_at_the_recovered_head_def position_eval)
qed

text \<open>
  Threads that append race for the append lock, so their appends are a sequence, whatever it is: the
  positions are those from zero on without a gap, and none overwrites another.
\<close>

fun redb_append_all ::
    "('d, 'r, 't, 'w) redb \<Rightarrow> postcard \<Rightarrow> entry list \<Rightarrow> 'd redb_log \<Rightarrow> (log_error + position) list \<times> 'd redb_log"
    where
  "redb_append_all D P [] log = ([], log)"
| "redb_append_all D P (e # es) log =
    (let (r, log) = redb_append D P e log; (rs, log) = redb_append_all D P es log in (r # rs, log))"

definition redb_concurrent_appends_each_get_a_distinct_position ::
    "('d, 'r, 't, 'w) redb \<Rightarrow> postcard \<Rightarrow> 'd \<Rightarrow> entry list \<Rightarrow> bool" where
  "redb_concurrent_appends_each_get_a_distinct_position D P d es \<longleftrightarrow>
    (case redb_open D (Ok d) of
       Ok log \<Rightarrow>
         let (positions, log) = redb_append_all D P es log
         in length (readable positions) = length es \<and>
            sort (map position_index (readable positions)) = map word_of_nat [0..<length es] \<and>
            redb_head log = Position (len64 es) \<and>
            (case redb_read_from_checked D P position_ZERO log of
               Some (Ok pes) \<Rightarrow> length pes = length es
             | _ \<Rightarrow> False)
     | Err _ \<Rightarrow> False)"

lemma append_all_works:
  assumes "redb_fine D V P"
  shows "holds P V l es0 \<Longrightarrow> \<forall>e \<in> set es. encodes P e \<Longrightarrow> length es0 + length es < 2 ^ 64 \<Longrightarrow>
    \<exists>l'. redb_append_all D P es l = (map (\<lambda>k. Ok (position_of k)) [length es0..<length es0 + length es], l') \<and>
      holds P V l' (es0 @ es)"
proof (induction es arbitrary: l es0)
  case (Cons e es)
  obtain l1 where l1: "redb_append D P e l = (Ok (position_of (length es0)), l1)" "holds P V l1 (es0 @ [e])"
    using append_works [OF assms Cons.prems(1), of e] Cons.prems(2,3) by auto
  from Cons.IH [OF l1(2)] Cons.prems(2,3) obtain l2
    where "redb_append_all D P es l1 = (map (\<lambda>k. Ok (position_of k)) [Suc (length es0)..<Suc (length es0) + length es], l2)"
      "holds P V l2 ((es0 @ [e]) @ es)"
    by auto
  with l1(1) show ?case
    by (simp add: upt_conv_Cons del: upt_Suc)
qed simp

lemma redb_concurrent_appends_each_get_a_distinct_position_holds:
  assumes "redb_fine D V P" "vw_db V d = None" "\<forall>e \<in> set es. encodes P e" "length es < 2 ^ 64"
  shows "redb_concurrent_appends_each_get_a_distinct_position D P d es"
proof -
  obtain l0 where l0: "redb_open D (Ok d) = Ok l0" "holds P V l0 []"
    by (rule fresh_works [OF assms(1,2)])
  from append_all_works [OF assms(1) l0(2) assms(3)] assms(4) obtain l1
    where l1: "redb_append_all D P es l0 = (map (\<lambda>k. Ok (position_of k)) [0..<length es], l1)" "holds P V l1 es"
    by auto
  have "readable (map (\<lambda>k. Ok (position_of k) :: log_error + position) ks) = map position_of ks" for ks
    using readable_Ok [of "map position_of ks"] by (simp add: comp_def del: readable_Ok)
  moreover have "sort (slot_run 0 (length es)) = slot_run 0 (length es)"
    using sorted_slot_run [of "length es" 0] assms(4) by (simp add: sorted_sort_id)
  moreover have "map position_index (map position_of [0..<length es]) = slot_run 0 (length es)"
    by (simp add: slot_run_def position_of_def comp_def)
  ultimately show ?thesis
    using l0 l1 holds_head [OF l1(2)] read_works [OF assms(1) l1(2), of position_ZERO]
    by (simp add: redb_concurrent_appends_each_get_a_distinct_position_def slot_run_def position_of_def comp_def
        del: map_map)
qed

text \<open>The store of \<open>Redb_Properties\<close> does not fail, and here is a codec of the entries of the tests.\<close>

definition marker_codec :: "keccak \<Rightarrow> postcard" where
  "marker_codec K =
     \<lparr>pc_to_stdvec = (\<lambda>e. case marker_of e of
          Some n \<Rightarrow> if e = test_received K n then Ok (to_le_bytes n) else Err ''unsupported''
        | None \<Rightarrow> Err ''unsupported''),
      pc_from_bytes = (\<lambda>bs. Ok (test_received K (from_le_bytes bs)))\<rparr>"

lemma store_fine: "redb_fine store store_views (marker_codec K)"
proof -
  have "redb_works store store_views"
    by (simp add: redb_works_def store_def store_views_def store_open_write_def split: option.splits)
  moreover have "postcard_laws (marker_codec K)"
    by (auto simp: postcard_laws_def marker_codec_def from_le_bytes_to_le_bytes split: option.splits if_splits)
  ultimately show ?thesis
    by (simp add: redb_fine_def store_laws)
qed

lemma store_encodes: "encodes (marker_codec K) (test_received K n)"
  by (simp add: encodes_def marker_codec_def)

end
