(* ===== verification/Projection_Tests.thy ===== *)
theory Projection_Tests
  imports Testkit
begin

text \<open>
  The unit tests of \<^verbatim>\<open>src/src/projection.rs\<close>: sequences of entries applied to an empty read model
  and the receipts read from it, for every hash and every \<open>hex::encode\<close>. Where a test reads the
  clock, it holds for every clock whose small offsets do not overflow.
\<close>

fun apply_from :: "nat \<Rightarrow> entry list \<Rightarrow> projections \<Rightarrow> projections" where
  "apply_from pos [] p = p"
| "apply_from pos (e # es) p = apply_from (Suc pos) es (projection_apply (position_of pos) e p)"

definition test_proof :: "bytes \<Rightarrow> proof_handle" where
  "test_proof bs =
     \<lparr>ph_backend = Mock, ph_proof = bs, ph_public_inputs = [], ph_vkey_hash = array_repeat 0xAA\<rparr>"

definition test_lifecycle :: "projections \<Rightarrow> intent_id \<Rightarrow> u64 \<Rightarrow> lifecycle option" where
  "test_lifecycle p i now_ms = map_option rc_lifecycle (receipt_of (\<lambda>_. []) p i now_ms)"

definition proving_retains_the_preconf :: "keccak \<Rightarrow> (bytes \<Rightarrow> string) \<Rightarrow> u64 \<Rightarrow> bool" where
  "proving_retains_the_preconf K hex received_at \<longleftrightarrow>
    (let p = projections_new guarantee_default;
         i = intent_id_of K (dummy 4);
         intents = [intent_id_of K (dummy 99), i];
         c = commit K 4 intents;
         quote = as_bytes ''MOCKQUOTE-test'';
         sig = mock_over K (array_bytes (commitment_array c));
         p = apply_from 0
           [IntentReceived i (dummy 4) received_at,
            SlotCommitted 4 intents (Position 1) c (received_at + 10),
            SlotAttested 4 quote sig] p;
         q = apply_from 3 [SlotsProven 4 5 (test_proof [1, 2, 3])] p
     in test_lifecycle p i received_at = Some Preconfirmed \<and>
        (case receipt_of hex q i received_at of
           None \<Rightarrow> False
         | Some r \<Rightarrow>
             rc_lifecycle r = FinalProven \<and>
             rc_sequence r = Some \<lparr>sp_slot = 4, sp_index = 1, sp_slot_commitment = c\<rparr> \<and>
             rc_preconf r = Some \<lparr>pf_slot = 4, pf_commitment = c, pf_quote = hex quote, pf_signature = sig\<rparr> \<and>
             map_option (\<lambda>pr. (pf_from_slot pr, pf_to_slot pr, pf_proof pr)) (rc_proof r) =
               Some (4, 5, hex [1, 2, 3])))"

definition pending_receipt_states_the_guarantee :: "keccak \<Rightarrow> (bytes \<Rightarrow> string) \<Rightarrow> u64 \<Rightarrow> bool" where
  "pending_receipt_states_the_guarantee K hex received_at \<longleftrightarrow>
    (let i = intent_id_of K (dummy 3);
         p = apply_from 0 [IntentReceived i (dummy 3) received_at] (projections_new guarantee_default)
     in (case receipt_of hex p i received_at of
           None \<Rightarrow> False
         | Some r \<Rightarrow>
             rc_lifecycle r = Received \<and> rc_sequence r = None \<and> rc_preconf r = None \<and>
             ig_state (rc_guarantee r) = Pending \<and>
             ig_max_slots (rc_guarantee r) = g_max_slots guarantee_default) \<and>
        (case receipt_of hex p i (deadline_for guarantee_default received_at + 1) of
           None \<Rightarrow> False
         | Some late \<Rightarrow> ig_state (rc_guarantee late) = Overdue))"

definition proving_cannot_skip_attestation :: "keccak \<Rightarrow> (bytes \<Rightarrow> string) \<Rightarrow> u64 \<Rightarrow> bool" where
  "proving_cannot_skip_attestation K hex received_at \<longleftrightarrow>
    (let i = intent_id_of K (dummy 5);
         intents = [i];
         p = apply_from 0
           [IntentReceived i (dummy 5) received_at,
            SlotCommitted 4 intents (Position 1) (commit K 4 intents) received_at,
            SlotsProven 4 4 (test_proof [9])] (projections_new guarantee_default)
     in case receipt_of hex p i received_at of
          None \<Rightarrow> False
        | Some r \<Rightarrow> rc_lifecycle r = Sequenced \<and> rc_proof r = None)"

definition a_failed_proof_fails_every_slot_in_its_range :: "keccak \<Rightarrow> bool" where
  "a_failed_proof_fails_every_slot_in_its_range K \<longleftrightarrow>
    (let ids = map (\<lambda>s. intent_id_of K (dummy s)) [2, 3, 4];
         p = apply_from 0
           (concat (map (\<lambda>slot.
              let i = intent_id_of K (dummy slot); intents = [i]
              in [IntentReceived i (dummy slot) 0,
                  SlotCommitted slot intents position_ZERO (commit K slot intents) 0,
                  SlotAttested slot [] (mock_over K [ucast slot])]) [2, 3, 4]) @
            [ProveFailed 2 4 ''prover backend down'']) (projections_new guarantee_default)
     in \<forall>i \<in> set ids. case test_lifecycle p i 0 of Some (Failed _) \<Rightarrow> True | _ \<Rightarrow> False)"

lemma inclusive_range_tests:
  "inclusive_range 4 5 = [4, 5]" "inclusive_range 4 4 = [4]" "inclusive_range 2 4 = [2, 3, 4]"
  by (simp_all add: inclusive_range_def upt_rec)

lemmas projection_eval =
  projection_apply_def projections_new_def modify_def attest_row_def prove_row_def fail_row_def
  receipt_of_def lifecycle_of_def receipt_sequence_def receipt_state_def receipt_preconf_def
  receipt_proof_def inclusive_range_tests test_lifecycle_def test_proof_def Let_def

lemma zero_window [simp]: "deadline_for guarantee_default t = t"
proof -
  have "window_size guarantee_default = 0"
    by (simp add: window_size_def guarantee_default_def duration_zero_def as_millis_def)
  then show ?thesis by (simp add: deadline_for_def)
qed

lemma projection_tests_hold:
  "proving_retains_the_preconf K hex t"
  "unat t < 2 ^ 64 - 1 \<Longrightarrow> pending_receipt_states_the_guarantee K hex t"
  "proving_cannot_skip_attestation K hex t"
  "a_failed_proof_fails_every_slot_in_its_range K"
proof -
  show "proving_retains_the_preconf K hex t"
    by (simp add: proving_retains_the_preconf_def projection_eval)
  show "pending_receipt_states_the_guarantee K hex t" if "unat t < 2 ^ 64 - 1"
  proof -
    from that have "t < t + 1"
      by (simp add: word_less_nat_alt unat_add_no_overflow64)
    then show ?thesis
      by (simp add: pending_receipt_states_the_guarantee_def projection_eval)
  qed
  show "proving_cannot_skip_attestation K hex t"
    by (simp add: proving_cannot_skip_attestation_def projection_eval)
  show "a_failed_proof_fails_every_slot_in_its_range K"
    by (cases "intent_id_of K (dummy 2) = intent_id_of K (dummy 3)";
        cases "intent_id_of K (dummy 3) = intent_id_of K (dummy 4)";
        cases "intent_id_of K (dummy 2) = intent_id_of K (dummy 4)")
      (simp_all add: a_failed_proof_fails_every_slot_in_its_range_def projection_eval)
qed

end
