(* ===== verification/Receipt_Tests.thy ===== *)
theory Receipt_Tests
  imports Wire Testkit
begin

text \<open>
  The unit tests of \<^verbatim>\<open>src/src/receipt.rs\<close>: the JSON a client receives for each response type. \<open>json!\<close> is a
  map literal; \<open>hex\<close> is the \<open>hex\<close> crate's encoder.
\<close>

section \<open>Fixtures\<close>

definition ID_HEX :: string where
  "ID_HEX = ''84d00be013f73c5ffd5d6379e6ca0fb0fb2473aea6bde8b388ff42c59b5cbcab''"

definition receipt_intent_id :: "keccak \<Rightarrow> intent_id" where
  "receipt_intent_id K = intent_id_of K (dummy 0)"

definition wire_commitment :: commitment where "wire_commitment = Commitment (array_repeat 0xab)"

definition wire_signature :: signature where "wire_signature = Signature (array_repeat 0xcd)"

definition wire_guarantee :: "guarantee_state \<Rightarrow> inclusion_guarantee" where
  "wire_guarantee state =
     \<lparr>ig_received_at_ms = TEST_NOW, ig_max_slots = 2, ig_deadline_ms = TEST_NOW + 1000,
      ig_intent_deadline_ms = TEST_NOW + 60000, ig_state = state\<rparr>"

definition object_len :: "json_value \<Rightarrow> nat option" where
  "object_len v = (case v of VObj m \<Rightarrow> Some (card (dom m)) | _ \<Rightarrow> None)"

section \<open>Lifecycle\<close>

definition every_state_is_reported_under_a_status_tag :: bool where
  "every_state_is_reported_under_a_status_tag \<longleftrightarrow>
     list_all (\<lambda>(state, tag). to_value (lifecycle_json state) = VObj [''status'' \<mapsto> VStr tag])
       [(Received, ''received''), (Sequenced, ''sequenced''), (Preconfirmed, ''preconfirmed''),
        (lifecycle.Expired, ''expired''), (FinalProven, ''final_proven'')]"

definition a_failure_carries_its_reason_beside_the_tag :: bool where
  "a_failure_carries_its_reason_beside_the_tag \<longleftrightarrow>
     to_value (lifecycle_json (Failed ''commitment mismatch'')) =
       VObj [''status'' \<mapsto> VStr ''failed'', ''reason'' \<mapsto> VStr ''commitment mismatch'']"

definition two_failures_differ_by_their_reason :: bool where
  "two_failures_differ_by_their_reason \<longleftrightarrow>
     (let one = Failed ''a'' in one = one \<and> one \<noteq> Failed ''b'' \<and> one \<noteq> lifecycle.Expired)"

section \<open>Status\<close>

definition a_status_response_flattens_the_lifecycle_beside_the_intent_id :: "(bytes \<Rightarrow> string) \<Rightarrow> keccak \<Rightarrow> bool" where
  "a_status_response_flattens_the_lifecycle_beside_the_intent_id hex K \<longleftrightarrow>
    (let response = \<lparr>st_intent_id = receipt_intent_id K, st_lifecycle = Sequenced, st_slot = Some 7\<rparr>
     in to_value (status_response_json hex response) =
          VObj [''intent_id'' \<mapsto> VStr ID_HEX, ''status'' \<mapsto> VStr ''sequenced'', ''slot'' \<mapsto> VNum 7])"

definition an_unsequenced_intent_reports_a_null_slot :: "(bytes \<Rightarrow> string) \<Rightarrow> keccak \<Rightarrow> bool" where
  "an_unsequenced_intent_reports_a_null_slot hex K \<longleftrightarrow>
    (let response = \<lparr>st_intent_id = receipt_intent_id K, st_lifecycle = Received, st_slot = None\<rparr>
     in to_value (status_response_json hex response) =
          VObj [''intent_id'' \<mapsto> VStr ID_HEX, ''status'' \<mapsto> VStr ''received'', ''slot'' \<mapsto> VNull])"

definition a_failed_status_keeps_both_its_reason_and_its_slot :: "(bytes \<Rightarrow> string) \<Rightarrow> keccak \<Rightarrow> bool" where
  "a_failed_status_keeps_both_its_reason_and_its_slot hex K \<longleftrightarrow>
    (let response = \<lparr>st_intent_id = receipt_intent_id K, st_lifecycle = Failed ''enclave unavailable'',
           st_slot = Some 3\<rparr>
     in to_value (status_response_json hex response) =
          VObj [''intent_id'' \<mapsto> VStr ID_HEX, ''status'' \<mapsto> VStr ''failed'',
            ''reason'' \<mapsto> VStr ''enclave unavailable'', ''slot'' \<mapsto> VNum 3])"

section \<open>Guarantee\<close>

definition an_open_window_reports_the_promise_and_nothing_more :: bool where
  "an_open_window_reports_the_promise_and_nothing_more \<longleftrightarrow>
     to_value (inclusion_guarantee_json (wire_guarantee guarantee_state.Pending)) =
       VObj [''received_at_ms'' \<mapsto> VNum TEST_NOW, ''max_slots'' \<mapsto> VNum 2,
         ''deadline_ms'' \<mapsto> VNum (TEST_NOW + 1000), ''intent_deadline_ms'' \<mapsto> VNum (TEST_NOW + 60000),
         ''state'' \<mapsto> VStr ''pending'']"

definition an_elapsed_but_unadjudicated_window_is_overdue :: bool where
  "an_elapsed_but_unadjudicated_window_is_overdue \<longleftrightarrow>
    (let json = to_value (inclusion_guarantee_json (wire_guarantee Overdue))
     in value_at json ''state'' = VStr ''overdue'' \<and> object_len json = Some 5)"

definition a_kept_promise_names_the_slot_that_kept_it :: bool where
  "a_kept_promise_names_the_slot_that_kept_it \<longleftrightarrow>
     to_value (inclusion_guarantee_json (wire_guarantee (Met 4 (TEST_NOW + 800)))) =
       VObj [''received_at_ms'' \<mapsto> VNum TEST_NOW, ''max_slots'' \<mapsto> VNum 2,
         ''deadline_ms'' \<mapsto> VNum (TEST_NOW + 1000), ''intent_deadline_ms'' \<mapsto> VNum (TEST_NOW + 60000),
         ''state'' \<mapsto> VStr ''met'', ''slot'' \<mapsto> VNum 4, ''committed_at_ms'' \<mapsto> VNum (TEST_NOW + 800)]"

definition a_missed_deadline_shadows_the_promised_one :: bool where
  "a_missed_deadline_shadows_the_promised_one \<longleftrightarrow>
    (let json = to_value (inclusion_guarantee_json (wire_guarantee (Missed (TEST_NOW + 999) (TEST_NOW + 1500))))
     in value_at json ''deadline_ms'' = VNum (TEST_NOW + 999) \<and> object_len json = Some 6 \<and>
        value_at json ''expired_at_ms'' = VNum (TEST_NOW + 1500))"

section \<open>Receipt\<close>

definition wire_sequence :: sequence_position where
  "wire_sequence = \<lparr>sp_slot = 4, sp_index = 2, sp_slot_commitment = wire_commitment\<rparr>"

definition wire_preconf :: preconf_ref where
  "wire_preconf =
     \<lparr>pf_slot = 4, pf_commitment = wire_commitment, pf_quote = ''4d4f434b'', pf_signature = wire_signature\<rparr>"

definition wire_proof :: proof_ref where
  "wire_proof =
     \<lparr>pf_from_slot = 0, pf_to_slot = 9, pf_backend = ''mock'', pf_vkey_hash = ''00ff'', pf_proof = ''beef''\<rparr>"

definition received_receipt :: "keccak \<Rightarrow> receipt" where
  "received_receipt K =
     \<lparr>rc_intent_id = receipt_intent_id K, rc_lifecycle = Received, rc_log_position = Position 12,
      rc_sequence = None, rc_guarantee = wire_guarantee guarantee_state.Pending, rc_preconf = None,
      rc_proof = None\<rparr>"

definition a_freshly_received_intent_carries_no_evidence_yet :: "(bytes \<Rightarrow> string) \<Rightarrow> keccak \<Rightarrow> bool" where
  "a_freshly_received_intent_carries_no_evidence_yet hex K \<longleftrightarrow>
     to_value (receipt_json hex (received_receipt K)) =
       VObj [''intent_id'' \<mapsto> VStr ID_HEX, ''status'' \<mapsto> VStr ''received'', ''log_position'' \<mapsto> VNum 12,
         ''sequence'' \<mapsto> VNull,
         ''guarantee'' \<mapsto>
           VObj [''received_at_ms'' \<mapsto> VNum TEST_NOW, ''max_slots'' \<mapsto> VNum 2,
             ''deadline_ms'' \<mapsto> VNum (TEST_NOW + 1000), ''intent_deadline_ms'' \<mapsto> VNum (TEST_NOW + 60000),
             ''state'' \<mapsto> VStr ''pending''],
         ''preconf'' \<mapsto> VNull, ''proof'' \<mapsto> VNull]"

definition a_log_position_is_a_bare_number_not_an_object :: "(bytes \<Rightarrow> string) \<Rightarrow> keccak \<Rightarrow> bool" where
  "a_log_position_is_a_bare_number_not_an_object hex K \<longleftrightarrow>
     value_at (to_value (receipt_json hex (received_receipt K))) ''log_position'' = VNum 12"

definition a_preconfirmed_receipt_reports_its_rank_and_its_attestation :: "(bytes \<Rightarrow> string) \<Rightarrow> keccak \<Rightarrow> bool" where
  "a_preconfirmed_receipt_reports_its_rank_and_its_attestation hex K \<longleftrightarrow>
    (let receipt = \<lparr>rc_intent_id = receipt_intent_id K, rc_lifecycle = Preconfirmed,
           rc_log_position = Position 12, rc_sequence = Some wire_sequence,
           rc_guarantee = wire_guarantee (Met 4 (TEST_NOW + 800)), rc_preconf = Some wire_preconf,
           rc_proof = None\<rparr>;
         json = to_value (receipt_json hex receipt)
     in value_at json ''status'' = VStr ''preconfirmed'' \<and>
        value_at json ''sequence'' =
          VObj [''slot'' \<mapsto> VNum 4, ''index'' \<mapsto> VNum 2, ''slot_commitment'' \<mapsto> VStr (concat (replicate 32 ''ab''))] \<and>
        value_at json ''preconf'' =
          VObj [''slot'' \<mapsto> VNum 4, ''commitment'' \<mapsto> VStr (concat (replicate 32 ''ab'')),
            ''quote'' \<mapsto> VStr ''4d4f434b'', ''signature'' \<mapsto> VStr (concat (replicate 32 ''cd''))] \<and>
        value_at json ''proof'' = VNull)"

definition proving_does_not_discard_the_preconfirmation :: "(bytes \<Rightarrow> string) \<Rightarrow> keccak \<Rightarrow> bool" where
  "proving_does_not_discard_the_preconfirmation hex K \<longleftrightarrow>
    (let receipt = \<lparr>rc_intent_id = receipt_intent_id K, rc_lifecycle = FinalProven,
           rc_log_position = Position 12, rc_sequence = Some wire_sequence,
           rc_guarantee = wire_guarantee (Met 4 (TEST_NOW + 800)), rc_preconf = Some wire_preconf,
           rc_proof = Some wire_proof\<rparr>;
         json = to_value (receipt_json hex receipt)
     in value_at json ''status'' = VStr ''final_proven'' \<and>
        value_at json ''preconf'' \<noteq> VNull \<and>
        value_at json ''proof'' =
          VObj [''from_slot'' \<mapsto> VNum 0, ''to_slot'' \<mapsto> VNum 9, ''backend'' \<mapsto> VStr ''mock'',
            ''vkey_hash'' \<mapsto> VStr ''00ff'', ''proof'' \<mapsto> VStr ''beef''])"

definition an_expired_intent_is_never_sequenced :: "(bytes \<Rightarrow> string) \<Rightarrow> keccak \<Rightarrow> bool" where
  "an_expired_intent_is_never_sequenced hex K \<longleftrightarrow>
    (let receipt = \<lparr>rc_intent_id = receipt_intent_id K, rc_lifecycle = lifecycle.Expired,
           rc_log_position = Position 12, rc_sequence = None,
           rc_guarantee = wire_guarantee (Missed (TEST_NOW + 1000) (TEST_NOW + 1500)), rc_preconf = None,
           rc_proof = None\<rparr>;
         json = to_value (receipt_json hex receipt)
     in value_at json ''status'' = VStr ''expired'' \<and> value_at json ''sequence'' = VNull \<and>
        value_at (value_at json ''guarantee'') ''state'' = VStr ''missed'' \<and>
        value_at (value_at json ''guarantee'') ''expired_at_ms'' = VNum (TEST_NOW + 1500))"

section \<open>They hold\<close>

text \<open>Of the encoder the tests use that it writes two digits per byte, and the id pinned in \<open>intent\<close>.\<close>

definition hex_repeats :: "(bytes \<Rightarrow> string) \<Rightarrow> bool" where
  "hex_repeats hex \<longleftrightarrow>
     hex (replicate 32 0xab) = concat (replicate 32 ''ab'') \<and> hex (replicate 32 0xcd) = concat (replicate 32 ''cd'')"

definition id_pinned :: "(bytes \<Rightarrow> string) \<Rightarrow> keccak \<Rightarrow> bool" where
  "id_pinned hex K \<longleftrightarrow> hex (array_bytes (intent_id_array (receipt_intent_id K))) = ID_HEX"

lemma lifecycle_wire_tests:
  "every_state_is_reported_under_a_status_tag" "a_failure_carries_its_reason_beside_the_tag"
  "two_failures_differ_by_their_reason"
  by (simp_all add: every_state_is_reported_under_a_status_tag_def
      a_failure_carries_its_reason_beside_the_tag_def two_failures_differ_by_their_reason_def lifecycle_json_def
      Let_def)

lemma status_wire_tests:
  assumes "id_pinned hex K"
  shows "a_status_response_flattens_the_lifecycle_beside_the_intent_id hex K"
    "an_unsequenced_intent_reports_a_null_slot hex K"
    "a_failed_status_keeps_both_its_reason_and_its_slot hex K"
  using assms
  by (simp_all add: a_status_response_flattens_the_lifecycle_beside_the_intent_id_def
      an_unsequenced_intent_reports_a_null_slot_def a_failed_status_keeps_both_its_reason_and_its_slot_def
      status_response_json_def id_pinned_def Let_def)

lemma guarantee_wire_tests:
  "an_open_window_reports_the_promise_and_nothing_more" "an_elapsed_but_unadjudicated_window_is_overdue"
  "a_kept_promise_names_the_slot_that_kept_it" "a_missed_deadline_shadows_the_promised_one"
  by (simp_all add: an_open_window_reports_the_promise_and_nothing_more_def
      an_elapsed_but_unadjudicated_window_is_overdue_def a_kept_promise_names_the_slot_that_kept_it_def
      a_missed_deadline_shadows_the_promised_one_def inclusion_guarantee_json_def wire_guarantee_def
      object_len_def Let_def)

lemma receipt_wire_tests:
  assumes "id_pinned hex K" "hex_repeats hex"
  shows "a_freshly_received_intent_carries_no_evidence_yet hex K"
    "a_log_position_is_a_bare_number_not_an_object hex K"
    "a_preconfirmed_receipt_reports_its_rank_and_its_attestation hex K"
    "proving_does_not_discard_the_preconfirmation hex K"
    "an_expired_intent_is_never_sequenced hex K"
  subgoal
    using assms(1)
    by (simp add: a_freshly_received_intent_carries_no_evidence_yet_def received_receipt_def receipt_json_def
        inclusion_guarantee_json_def wire_guarantee_def id_pinned_def)
  subgoal
    by (simp add: a_log_position_is_a_bare_number_not_an_object_def received_receipt_def receipt_at
        del: to_value.simps)
  subgoal
    using assms(2)
    by (simp add: a_preconfirmed_receipt_reports_its_rank_and_its_attestation_def receipt_at Let_def
        del: to_value.simps(4))
      (simp add: lifecycle_json_def sequence_position_json_def preconf_ref_json_def wire_sequence_def
        wire_preconf_def wire_commitment_def wire_signature_def hex_repeats_def)
  subgoal
    by (simp add: proving_does_not_discard_the_preconfirmation_def receipt_at Let_def del: to_value.simps(4))
      (simp add: lifecycle_json_def preconf_ref_json_def proof_ref_json_def wire_proof_def)
  subgoal
    by (simp add: an_expired_intent_is_never_sequenced_def receipt_at Let_def del: to_value.simps(4))
      (simp add: lifecycle_json_def inclusion_guarantee_json_def wire_guarantee_def)
  done

end
