(* ===== verification/Attest_Tests.thy ===== *)
theory Attest_Tests
  imports Ordering_Tests
begin

text \<open>
  The unit tests of \<^verbatim>\<open>src/src/attest.rs\<close>: the quote codec, the verifier, the mock enclave, the
  attester's recovery, and its loop. A test that spawns the attester and waits for its decisions
  holds after any number of turns of the loop, at least one of them after the last append the test
  makes, for a turn with nothing left to rule on changes nothing (\<open>att_turns_Suc\<close>). The tests that
  compare hashes of different messages need the hash not to collide on them.
\<close>

section \<open>Fixtures\<close>

definition test_ids :: "keccak \<Rightarrow> nat \<Rightarrow> intent_id list" where
  "test_ids K n = map (\<lambda>i. intent_id_of K (dummy (word_of_nat i))) [0..<n]"

definition test_committed :: "keccak \<Rightarrow> u64 \<Rightarrow> intent_id list \<Rightarrow> entry" where
  "test_committed K slot intents =
     SlotCommitted slot intents position_ZERO (commit K slot intents) (TEST_NOW + slot)"

definition tampered :: "u64 \<Rightarrow> intent_id list \<Rightarrow> entry" where
  "tampered slot intents =
     SlotCommitted slot intents position_ZERO (Commitment (array_repeat 0xff)) (TEST_NOW + slot)"

definition test_attested :: "keccak \<Rightarrow> u64 \<Rightarrow> entry" where
  "test_attested K slot = SlotAttested slot [] (mock_over K [])"

definition test_failed :: "u64 \<Rightarrow> entry" where
  "test_failed slot = AttestFailed slot ''whatever''"

definition test_intent_received :: "keccak \<Rightarrow> u64 \<Rightarrow> entry" where
  "test_intent_received K n = (let intent = dummy n in IntentReceived (intent_id_of K intent) intent (TEST_NOW + n))"

datatype attest_outcome = OutcomeAttested u64 | OutcomeFailed u64 string

fun attest_outcome_of :: "entry \<Rightarrow> attest_outcome option" where
  "attest_outcome_of (SlotAttested slot _ _) = Some (OutcomeAttested slot)"
| "attest_outcome_of (AttestFailed slot reason) = Some (OutcomeFailed slot reason)"
| "attest_outcome_of _ = None"

definition attest_outcomes :: "mem_log \<Rightarrow> attest_outcome list" where
  "attest_outcomes log = List.map_filter attest_outcome_of (ml_entries log)"

definition test_quotes :: "mem_log \<Rightarrow> (u64 \<times> bytes \<times> signature) list" where
  "test_quotes log =
     List.map_filter (\<lambda>e. case e of SlotAttested slot q g \<Rightarrow> Some (slot, q, g) | _ \<Rightarrow> None) (ml_entries log)"

text \<open>The layout by hand; \<open>None\<close> is a failed assertion.\<close>

definition parse_quote :: "bytes \<Rightarrow> (u64 \<times> commitment \<times> measurement) option" where
  "parse_quote bs =
    (if length bs = QUOTE_LEN \<and> take 9 bs = QUOTE_MAGIC \<and> bs ! 9 = QUOTE_VERSION
     then Some (from_le_bytes (take 8 (drop 10 bs)),
                Commitment (array_of_bytes (take 32 (drop 18 bs))),
                Measurement (array_of_bytes (take 32 (drop 50 bs))))
     else None)"

lemma parse_quote_decode: "parse_quote bs = (case decode_quote bs of Ok r \<Rightarrow> Some r | Err _ \<Rightarrow> None)"
  by (simp add: parse_quote_def decode_quote_def Let_def)

lemma parse_encode_quote [simp]: "parse_quote (encode_quote slot c m) = Some (slot, c, m)"
  by (simp add: parse_quote_decode decode_encode_quote)

section \<open>The quote\<close>

definition a_quote_binds_its_slot_commitment_and_measurement :: "keccak \<Rightarrow> bool" where
  "a_quote_binds_its_slot_commitment_and_measurement K \<longleftrightarrow>
    (let c = commit K 7 (test_ids K 3)
     in parse_quote (encode_quote 7 c MOCK_MEASUREMENT) = Some (7, c, MOCK_MEASUREMENT))"

definition every_field_changes_the_encoding :: "keccak \<Rightarrow> bool" where
  "every_field_changes_the_encoding K \<longleftrightarrow>
    (let c = commit K 0 (test_ids K 1);
         base = encode_quote 0 c MOCK_MEASUREMENT
     in base \<noteq> encode_quote 1 c MOCK_MEASUREMENT \<and>
        base \<noteq> encode_quote 0 (commit K 0 (test_ids K 2)) MOCK_MEASUREMENT \<and>
        base \<noteq> encode_quote 0 c (Measurement (array_repeat 0xab)))"

definition a_quote_round_trips_through_the_decoder :: "keccak \<Rightarrow> bool" where
  "a_quote_round_trips_through_the_decoder K \<longleftrightarrow>
    (let c = commit K 9 (test_ids K 2)
     in decode_quote (encode_quote 9 c MOCK_MEASUREMENT) = Ok (9, c, MOCK_MEASUREMENT))"

definition the_decoder_rejects_anything_that_is_not_a_quote :: "keccak \<Rightarrow> bool" where
  "the_decoder_rejects_anything_that_is_not_a_quote K \<longleftrightarrow>
    (let good = encode_quote 0 (commit K 0 []) MOCK_MEASUREMENT
     in \<forall>bytes \<in> set [[], take (QUOTE_LEN - 1) good, good @ [0], good[0 := 0x58],
             good[length QUOTE_MAGIC := QUOTE_VERSION + 1]].
          decode_quote bytes = Err MalformedQuote)"

lemma encode_quote_inject:
  "encode_quote s c m = encode_quote s' c' m' \<longleftrightarrow> s = s' \<and> c = c' \<and> m = m'"
  by (metis decode_encode_quote prod.inject sum.inject(2))

lemma quote_tests:
  "a_quote_binds_its_slot_commitment_and_measurement K"
  "a_quote_round_trips_through_the_decoder K"
  by (simp_all add: a_quote_binds_its_slot_commitment_and_measurement_def
      a_quote_round_trips_through_the_decoder_def decode_encode_quote)

lemma QUOTE_MAGIC_bytes: "QUOTE_MAGIC = [0x4d, 0x4f, 0x43, 0x4b, 0x51, 0x55, 0x4f, 0x54, 0x45]"
  by (simp add: QUOTE_MAGIC_def as_bytes_def byte_of_char_def)

lemma decode_quote_Err:
  "decode_quote bs = Err MalformedQuote \<longleftrightarrow>
     \<not> (length bs = 82 \<and> take 9 bs = QUOTE_MAGIC \<and> bs ! 9 = QUOTE_VERSION)"
  by (simp add: decode_quote_def QUOTE_LEN_def Let_def)

lemma decoder_rejects: "the_decoder_rejects_anything_that_is_not_a_quote K"
proof -
  let ?good = "encode_quote 0 (commit K 0 []) MOCK_MEASUREMENT"
  have "length ?good = 82"
    by (simp add: length_encode_quote QUOTE_LEN_def)
  moreover have "take 9 (?good[0 := 0x58]) \<noteq> QUOTE_MAGIC" "?good[9 := QUOTE_VERSION + 1] ! 9 \<noteq> QUOTE_VERSION"
    by (simp_all add: encode_quote_def QUOTE_MAGIC_bytes QUOTE_VERSION_def)
  ultimately show ?thesis
    by (simp add: the_decoder_rejects_anything_that_is_not_a_quote_def Let_def decode_quote_Err QUOTE_LEN_def
        del: list_update_code)
qed

lemma every_field_changes_the_encoding_holds:
  assumes "commit K 0 (test_ids K 1) \<noteq> commit K 0 (test_ids K 2)"
  shows "every_field_changes_the_encoding K"
  using assms
  by (simp add: every_field_changes_the_encoding_def Let_def encode_quote_inject MOCK_MEASUREMENT_def)

section \<open>Offline verification\<close>

definition honest_evidence :: "keccak \<Rightarrow> u64 \<Rightarrow> intent_id list \<Rightarrow> commitment \<times> bytes \<times> signature" where
  "honest_evidence K slot intents =
    (let c = commit K slot intents
     in (c, encode_quote slot c MOCK_MEASUREMENT, mock_over K (array_bytes (commitment_array c))))"

definition test_claim :: "u64 \<Rightarrow> commitment \<Rightarrow> bytes \<Rightarrow> signature \<Rightarrow> preconf_claim" where
  "test_claim slot c quote sig = \<lparr>pc_slot = slot, pc_commitment = c, pc_quote = quote, pc_signature = sig\<rparr>"

definition an_honest_preconfirmation_verifies :: "keccak \<Rightarrow> bool" where
  "an_honest_preconfirmation_verifies K \<longleftrightarrow>
    (let intents = test_ids K 3; (c, quote, sig) = honest_evidence K 4 intents
     in verify_preconf K (mock_verifier_default K) (test_claim 4 c quote sig) intents = Ok ())"

definition an_empty_slot_still_verifies :: "keccak \<Rightarrow> bool" where
  "an_empty_slot_still_verifies K \<longleftrightarrow>
    (let (c, quote, sig) = honest_evidence K 0 []
     in verify_preconf K (mock_verifier_default K) (test_claim 0 c quote sig) [] = Ok ())"

definition wrong_contents :: "keccak \<Rightarrow> intent_id list list" where
  "wrong_contents K =
    (let intents = test_ids K 3 in [test_ids K 2, test_ids K 4, [], swap 0 2 intents])"

definition intents_that_do_not_reproduce_the_commitment_are_rejected :: "keccak \<Rightarrow> bool" where
  "intents_that_do_not_reproduce_the_commitment_are_rejected K \<longleftrightarrow>
    (let (c, quote, sig) = honest_evidence K 4 (test_ids K 3)
     in \<forall>wrong \<in> set (wrong_contents K).
          verify_preconf K (mock_verifier_default K) (test_claim 4 c quote sig) wrong = Err ContentsMismatch)"

definition the_contents_are_checked_before_the_evidence :: "keccak \<Rightarrow> bool" where
  "the_contents_are_checked_before_the_evidence K \<longleftrightarrow>
    (let (c, _, sig) = honest_evidence K 4 (test_ids K 3); junk = replicate 4 0
     in verify_preconf K (mock_verifier_default K) (test_claim 4 c junk sig) (test_ids K 1) =
          Err ContentsMismatch)"

definition a_quote_for_another_slot_does_not_cover_this_one :: "keccak \<Rightarrow> bool" where
  "a_quote_for_another_slot_does_not_cover_this_one K \<longleftrightarrow>
    (let intents = test_ids K 2; c = commit K 4 intents;
         quote = encode_quote 5 c MOCK_MEASUREMENT;
         sig = mock_over K (array_bytes (commitment_array c))
     in verify_preconf K (mock_verifier_default K) (test_claim 4 c quote sig) intents = Err (SlotMismatch 4 5))"

definition a_quote_over_another_commitment_does_not_cover_this_one :: "keccak \<Rightarrow> bool" where
  "a_quote_over_another_commitment_does_not_cover_this_one K \<longleftrightarrow>
    (let intents = test_ids K 2; c = commit K 4 intents;
         quote = encode_quote 4 (Commitment (array_repeat 0xff)) MOCK_MEASUREMENT;
         sig = mock_over K (array_bytes (commitment_array c))
     in verify_preconf K (mock_verifier_default K) (test_claim 4 c quote sig) intents = Err CommitmentMismatch)"

definition a_malformed_quote_is_rejected :: "keccak \<Rightarrow> bool" where
  "a_malformed_quote_is_rejected K \<longleftrightarrow>
    (let intents = test_ids K 2; c = commit K 4 intents;
         sig = mock_over K (array_bytes (commitment_array c))
     in verify_preconf K (mock_verifier_default K) (test_claim 4 c (as_bytes ''not a quote'') sig) intents =
          Err MalformedQuote)"

definition a_quote_from_an_unpinned_build_is_rejected :: "keccak \<Rightarrow> bool" where
  "a_quote_from_an_unpinned_build_is_rejected K \<longleftrightarrow>
    (let intents = test_ids K 2; impostor = Measurement (array_repeat 0xab); c = commit K 4 intents;
         quote = encode_quote 4 c impostor;
         sig = mock_over K (array_bytes (commitment_array c))
     in verify_preconf K (mock_verifier_default K) (test_claim 4 c quote sig) intents =
          Err (UntrustedMeasurement impostor))"

definition a_verifier_pinned_to_another_build_rejects_the_mock_enclave :: "keccak \<Rightarrow> bool" where
  "a_verifier_pinned_to_another_build_rejects_the_mock_enclave K \<longleftrightarrow>
    (let intents = test_ids K 2; (c, quote, sig) = honest_evidence K 4 intents
     in verify_preconf K (mock_verifier K (Measurement (array_repeat 0xab))) (test_claim 4 c quote sig) intents =
          Err (UntrustedMeasurement MOCK_MEASUREMENT))"

definition a_signature_over_anything_else_is_rejected :: "keccak \<Rightarrow> bool" where
  "a_signature_over_anything_else_is_rejected K \<longleftrightarrow>
    (let intents = test_ids K 2; (c, quote, _) = honest_evidence K 4 intents;
         wrong = mock_over K (as_bytes ''something else'')
     in verify_preconf K (mock_verifier_default K) (test_claim 4 c quote wrong) intents = Err BadSignature)"

definition a_quote_the_mock_enclave_actually_produced_verifies :: "keccak \<Rightarrow> bool" where
  "a_quote_the_mock_enclave_actually_produced_verifies K \<longleftrightarrow>
    (let intents = test_ids K 3; c = commit K 7 intents
     in case mock_attest K 7 intents c mock_enclave_new of
          (Err _, _) \<Rightarrow> False
        | (Ok q, _) \<Rightarrow>
            verify_preconf K (mock_verifier_default K) (test_claim 7 c (q_quote q) (q_sig q)) intents = Ok ())"

lemmas verify_eval =
  verify_preconf_def mock_verifier_default_def mock_verifier_def test_claim_def honest_evidence_def
  decode_encode_quote mock_attest_def mock_enclave_new_def MOCK_MEASUREMENT_def Let_def

lemma verify_tests:
  "an_honest_preconfirmation_verifies K"
  "an_empty_slot_still_verifies K"
  "a_quote_for_another_slot_does_not_cover_this_one K"
  "a_malformed_quote_is_rejected K"
  "a_quote_from_an_unpinned_build_is_rejected K"
  "a_verifier_pinned_to_another_build_rejects_the_mock_enclave K"
  "a_quote_the_mock_enclave_actually_produced_verifies K"
  by (simp_all add: an_honest_preconfirmation_verifies_def an_empty_slot_still_verifies_def
      a_quote_for_another_slot_does_not_cover_this_one_def a_malformed_quote_is_rejected_def
      a_quote_from_an_unpinned_build_is_rejected_def
      a_verifier_pinned_to_another_build_rejects_the_mock_enclave_def
      a_quote_the_mock_enclave_actually_produced_verifies_def verify_eval)
    (simp add: decode_quote_def QUOTE_LEN_def)

text \<open>The other tests tell two hashes apart.\<close>

lemma verify_tests_apart:
  "\<forall>wrong \<in> set (wrong_contents K). commit K 4 wrong \<noteq> commit K 4 (test_ids K 3) \<Longrightarrow>
    intents_that_do_not_reproduce_the_commitment_are_rejected K"
  "commit K 4 (test_ids K 1) \<noteq> commit K 4 (test_ids K 3) \<Longrightarrow> the_contents_are_checked_before_the_evidence K"
  "commit K 4 (test_ids K 2) \<noteq> Commitment (array_repeat 0xff) \<Longrightarrow>
    a_quote_over_another_commitment_does_not_cover_this_one K"
  "mock_over K (array_bytes (commitment_array (commit K 4 (test_ids K 2)))) \<noteq>
      mock_over K (as_bytes ''something else'') \<Longrightarrow>
    a_signature_over_anything_else_is_rejected K"
  by (auto simp: intents_that_do_not_reproduce_the_commitment_are_rejected_def
      the_contents_are_checked_before_the_evidence_def
      a_quote_over_another_commitment_does_not_cover_this_one_def
      a_signature_over_anything_else_is_rejected_def verify_eval)

section \<open>The mock enclave\<close>

definition a_successful_attestation_quotes_the_slot_it_was_given :: "keccak \<Rightarrow> bool" where
  "a_successful_attestation_quotes_the_slot_it_was_given K \<longleftrightarrow>
    (let intents = test_ids K 3; c = commit K 4 intents
     in case mock_attest K 4 intents c mock_enclave_new of
          (Err _, _) \<Rightarrow> False
        | (Ok q, _) \<Rightarrow>
            parse_quote (q_quote q) = Some (4, c, MOCK_MEASUREMENT) \<and>
            q_sig q = mock_over K (array_bytes (commitment_array c)))"

definition every_requested_slot_is_recorded_in_order :: "keccak \<Rightarrow> bool" where
  "every_requested_slot_is_recorded_in_order K \<longleftrightarrow>
    (let en = enclave_failing_on [1] mock_enclave_new;
         en = fold (\<lambda>slot en. snd (mock_attest K slot [] (commit K slot []) en)) [0, 1, 2] en
     in me_seen en = [0, 1, 2])"

definition a_configured_slot_fails_and_the_rest_do_not :: "keccak \<Rightarrow> bool" where
  "a_configured_slot_fails_and_the_rest_do_not K \<longleftrightarrow>
    (let en = enclave_failing_on [1] mock_enclave_new;
         (r0, en) = mock_attest K 0 [] (commit K 0 []) en;
         (r1, en) = mock_attest K 1 [] (commit K 1 []) en;
         (r2, en) = mock_attest K 2 [] (commit K 2 []) en
     in (\<exists>q. r0 = Ok q) \<and> (\<exists>s. r1 = Err (Unavailable s)) \<and> (\<exists>q. r2 = Ok q))"

definition the_enclave_recomputes_the_commitment_it_is_handed :: "keccak \<Rightarrow> bool" where
  "the_enclave_recomputes_the_commitment_it_is_handed K \<longleftrightarrow>
    (let intents = test_ids K 3
     in case fst (mock_attest K 0 intents (commit K 1 intents) mock_enclave_new) of
          Err (QuoteError _) \<Rightarrow> True
        | _ \<Rightarrow> False)"

definition a_mock_can_impersonate_another_build :: "keccak \<Rightarrow> bool" where
  "a_mock_can_impersonate_another_build K \<longleftrightarrow>
    (let other = Measurement (array_repeat 0xab);
         en = with_measurement other mock_enclave_new
     in case fst (mock_attest K 0 [] (commit K 0 []) en) of
          Err _ \<Rightarrow> False
        | Ok q \<Rightarrow>
            (case parse_quote (q_quote q) of
               None \<Rightarrow> False
             | Some (_, _, m) \<Rightarrow> m = other \<and> m \<noteq> MOCK_MEASUREMENT))"

lemma enclave_tests:
  "a_successful_attestation_quotes_the_slot_it_was_given K"
  "every_requested_slot_is_recorded_in_order K"
  "a_configured_slot_fails_and_the_rest_do_not K"
  "a_mock_can_impersonate_another_build K"
  by (simp_all add: a_successful_attestation_quotes_the_slot_it_was_given_def
      every_requested_slot_is_recorded_in_order_def a_configured_slot_fails_and_the_rest_do_not_def
      a_mock_can_impersonate_another_build_def with_measurement_def enclave_failing_on_def verify_eval)

lemma the_enclave_recomputes_the_commitment_it_is_handed_holds:
  "commit K 0 (test_ids K 3) \<noteq> commit K 1 (test_ids K 3) \<Longrightarrow>
    the_enclave_recomputes_the_commitment_it_is_handed K"
  by (simp add: the_enclave_recomputes_the_commitment_it_is_handed_def verify_eval)

section \<open>Recovery\<close>

definition attester_untouched_log_recovers_to_the_start :: "keccak \<Rightarrow> bool" where
  "attester_untouched_log_recovers_to_the_start K \<longleftrightarrow>
     recover_attester mem_ops mem_log_new = Ok position_ZERO"

definition commits_alone_leave_the_whole_log_to_attest :: "keccak \<Rightarrow> bool" where
  "commits_alone_leave_the_whole_log_to_attest K \<longleftrightarrow>
    (let log = appended [test_committed K 0 (test_ids K 1), test_committed K 1 (test_ids K 2)]
     in recover_attester mem_ops log = Ok position_ZERO)"

definition recovery_resumes_at_the_slot_after_the_last_attested_one :: "keccak \<Rightarrow> bool" where
  "recovery_resumes_at_the_slot_after_the_last_attested_one K \<longleftrightarrow>
    (let log = appended [test_committed K 0 (test_ids K 1), test_committed K 1 (test_ids K 1),
           test_committed K 2 (test_ids K 1), test_attested K 0]
     in recover_attester mem_ops log = Ok (Position 1))"

definition a_failed_slot_counts_as_done :: "keccak \<Rightarrow> bool" where
  "a_failed_slot_counts_as_done K \<longleftrightarrow>
    (let log = appended [test_committed K 0 (test_ids K 1), test_committed K 1 (test_ids K 1), test_failed 0]
     in recover_attester mem_ops log = Ok (Position 1))"

definition the_newest_decision_wins_whatever_order_it_was_written_in :: "keccak \<Rightarrow> bool" where
  "the_newest_decision_wins_whatever_order_it_was_written_in K \<longleftrightarrow>
    (let log = appended [test_committed K 0 (test_ids K 1), test_committed K 1 (test_ids K 1),
           test_committed K 2 (test_ids K 1), test_committed K 3 (test_ids K 1),
           test_attested K 2, test_attested K 0]
     in recover_attester mem_ops log = Ok (Position 3))"

definition attester_nothing_newer_committed_resumes_at_the_head :: "keccak \<Rightarrow> bool" where
  "attester_nothing_newer_committed_resumes_at_the_head K \<longleftrightarrow>
    (let log = appended [test_committed K 0 (test_ids K 1), test_attested K 0]
     in recover_attester mem_ops log = Ok (mem_head log))"

definition a_gap_in_committed_slots_resumes_at_the_head :: "keccak \<Rightarrow> bool" where
  "a_gap_in_committed_slots_resumes_at_the_head K \<longleftrightarrow>
    (let log = appended [test_committed K 0 (test_ids K 1), test_committed K 2 (test_ids K 1), test_attested K 0]
     in recover_attester mem_ops log = Ok (mem_head log))"

lemmas recover_eval =
  recover_attester_def attester_resume_def mem_read_from_eq mem_head_def test_committed_def
  test_attested_def test_failed_def position_ZERO_def position_of_def offset_def Let_def

lemma attester_recovery_tests:
  "attester_untouched_log_recovers_to_the_start K"
  "commits_alone_leave_the_whole_log_to_attest K"
  "recovery_resumes_at_the_slot_after_the_last_attested_one K"
  "a_failed_slot_counts_as_done K"
  "the_newest_decision_wins_whatever_order_it_was_written_in K"
  "attester_nothing_newer_committed_resumes_at_the_head K"
  "a_gap_in_committed_slots_resumes_at_the_head K"
  by (simp_all add: attester_untouched_log_recovers_to_the_start_def
      commits_alone_leave_the_whole_log_to_attest_def
      recovery_resumes_at_the_slot_after_the_last_attested_one_def a_failed_slot_counts_as_done_def
      the_newest_decision_wins_whatever_order_it_was_written_in_def
      attester_nothing_newer_committed_resumes_at_the_head_def
      a_gap_in_committed_slots_resumes_at_the_head_def mem_log_new_def recover_eval)

section \<open>The loop\<close>

fun att_turns :: "nat \<Rightarrow> keccak \<Rightarrow> mock_enclave attester \<times> mem_log \<Rightarrow> mock_enclave attester \<times> mem_log" where
  "att_turns 0 K s = s"
| "att_turns (Suc n) K s = att_turns n K (snd (att_on_doorbell mem_ops K (mock_attest K) s))"

text \<open>An attester started on a log and left to run for \<open>n\<close> turns.\<close>

definition attester_ran :: "nat \<Rightarrow> keccak \<Rightarrow> mock_enclave \<Rightarrow> mem_log \<Rightarrow> mock_enclave attester \<times> mem_log" where
  "attester_ran n K en log =
    (case attester_start mem_ops en log of
       Ok a \<Rightarrow> att_turns n K (a, log)
     | Err _ \<Rightarrow> (\<lparr>at_enclave = en, at_cursor = position_ZERO\<rparr>, log))"

text \<open>The log and the enclave after \<open>n\<close> turns.\<close>

definition att_after :: "mock_enclave attester \<times> mem_log \<Rightarrow> entry list \<times> mock_enclave" where
  "att_after s = (ml_entries (snd s), at_enclave (fst s))"

lemma verdicts_no_commits:
  "committed_slots es = [] \<Longrightarrow> verdicts K attest es en = ([], en)"
proof (induction es)
  case (Cons e es)
  then show ?case
    by (cases e) (auto simp: att_verdict_def split: option.splits)
qed simp

lemma att_turn:
  assumes "att_on_doorbell mem_ops K (mock_attest K) (a, l) = (r, a', l')"
    and "length (ml_entries l) < 2 ^ 64" "offset (at_cursor a) \<le> length (ml_entries l)"
  shows "att_after (a', l') =
      (let (vs, en) = verdicts K (mock_attest K) (drop (offset (at_cursor a)) (ml_entries l)) (at_enclave a)
       in (ml_entries l @ vs, en)) \<and>
    offset (at_cursor a') = length (ml_entries l) \<and>
    committed_slots (drop (length (ml_entries l)) (ml_entries l')) = []"
proof -
  note out = att_doorbell_mem [OF assms(1)]
  have "committed_slots (fst (verdicts K (mock_attest K) es en)) = []" for es en
  proof (induction es arbitrary: en)
    case (Cons e es)
    then show ?case
      using attest_slot_ruled [OF prod.collapse [symmetric], of K "mock_attest K"] ruled_not_committed
      by (cases e) (auto simp: att_verdict_def case_prod_beta Let_def)
  qed simp
  moreover have "offset (at_cursor a') = length (ml_entries l)"
    using out assms(2,3) by (cases "length (ml_entries l) \<le> offset (at_cursor a)") simp_all
  ultimately show ?thesis
    using out by (simp add: att_after_def case_prod_beta)
qed

lemma att_turn_total:
  obtains a' l' where "att_on_doorbell mem_ops K attest (a, l) = (Ok (), a', l')"
  using att_doorbell_mem [of K attest a l] by (metis prod_cases3)

lemma att_turns_settled:
  assumes "committed_slots (drop (offset (at_cursor a)) (ml_entries l)) = []"
    and "length (ml_entries l) < 2 ^ 64" "offset (at_cursor a) \<le> length (ml_entries l)"
  shows "att_after (att_turns n K (a, l)) = att_after (a, l)"
  using assms
proof (induction n arbitrary: a l)
  case (Suc n)
  obtain a' l' where out: "att_on_doorbell mem_ops K (mock_attest K) (a, l) = (Ok (), a', l')"
    by (rule att_turn_total)
  note turn = att_turn [OF out Suc.prems(2,3)]
  then have same: "att_after (a', l') = att_after (a, l)"
    by (simp add: verdicts_no_commits [OF Suc.prems(1)] att_after_def)
  moreover from this have "ml_entries l' = ml_entries l"
    by (simp add: att_after_def)
  ultimately have "att_after (att_turns n K (a', l')) = att_after (a', l')"
    using turn Suc.prems by (intro Suc.IH) simp_all
  with same out show ?case by simp
qed simp

lemma length_verdicts: "length (fst (verdicts K attest es en)) \<le> length es"
proof (induction es arbitrary: en)
  case (Cons e es)
  then show ?case
    by (cases e) (auto simp: att_verdict_def case_prod_beta Let_def ruled_slots_verdicts le_SucI)
qed simp

text \<open>Any further turn changes neither the log nor the enclave.\<close>

lemma att_turns_Suc:
  assumes "2 * length (ml_entries l) < 2 ^ 64" "offset (at_cursor a) \<le> length (ml_entries l)"
  shows "att_after (att_turns (Suc n) K (a, l)) =
    (let (vs, en) = verdicts K (mock_attest K) (drop (offset (at_cursor a)) (ml_entries l)) (at_enclave a)
     in (ml_entries l @ vs, en))"
proof -
  obtain a' l' where out: "att_on_doorbell mem_ops K (mock_attest K) (a, l) = (Ok (), a', l')"
    by (rule att_turn_total)
  from assms(1) have "length (ml_entries l) < 2 ^ 64" by simp
  note turn = att_turn [OF out this assms(2)]
  have "length (ml_entries l') \<le> 2 * length (ml_entries l)"
    using turn length_verdicts [of K "mock_attest K" "drop (offset (at_cursor a)) (ml_entries l)" "at_enclave a"]
    by (simp add: att_after_def case_prod_beta)
  moreover have "length (ml_entries l) \<le> length (ml_entries l')"
    using turn by (simp add: att_after_def case_prod_beta)
  ultimately have "att_after (att_turns n K (a', l')) = att_after (a', l')"
    using turn assms(1) by (intro att_turns_settled) simp_all
  with out turn show ?thesis by simp
qed

lemma attester_ran_eq:
  assumes "recover_attester mem_ops l = Ok (position_of c)" "c \<le> length (ml_entries l)"
    and "2 * length (ml_entries l) < 2 ^ 64"
  shows "ml_entries (snd (attester_ran (Suc n) K en l)) =
      ml_entries l @ fst (verdicts K (mock_attest K) (drop c (ml_entries l)) en)"
    and "at_enclave (fst (attester_ran (Suc n) K en l)) =
      snd (verdicts K (mock_attest K) (drop c (ml_entries l)) en)"
proof -
  have c: "c < 2 ^ 64" using assms(2,3) by simp
  have "att_after (attester_ran (Suc n) K en l) =
      (let (vs, en) = verdicts K (mock_attest K) (drop c (ml_entries l)) en in (ml_entries l @ vs, en))"
    using att_turns_Suc [OF assms(3), of "\<lparr>at_enclave = en, at_cursor = position_of c\<rparr>" n K] c assms(1,2)
    by (simp add: attester_ran_def attester_start_def)
  then show "ml_entries (snd (attester_ran (Suc n) K en l)) =
      ml_entries l @ fst (verdicts K (mock_attest K) (drop c (ml_entries l)) en)"
    and "at_enclave (fst (attester_ran (Suc n) K en l)) =
      snd (verdicts K (mock_attest K) (drop c (ml_entries l)) en)"
    by (simp_all add: att_after_def case_prod_beta Let_def)
qed

definition a_backlog_present_before_the_start_is_drained :: "nat \<Rightarrow> keccak \<Rightarrow> bool" where
  "a_backlog_present_before_the_start_is_drained n K \<longleftrightarrow>
    (let log = appended [test_committed K 0 (test_ids K 1), test_committed K 1 (test_ids K 2)];
         (a, log) = attester_ran (Suc n) K mock_enclave_new log
     in attest_outcomes log = [OutcomeAttested 0, OutcomeAttested 1] \<and> me_seen (at_enclave a) = [0, 1])"

definition a_slot_committed_after_the_start_wakes_the_attester :: "nat \<Rightarrow> nat \<Rightarrow> keccak \<Rightarrow> bool" where
  "a_slot_committed_after_the_start_wakes_the_attester m n K \<longleftrightarrow>
    (let (a, log) = attester_ran m K mock_enclave_new mem_log_new;
         log = snd (mem_append (test_committed K 0 (test_ids K 1)) log);
         (a, log) = att_turns (Suc n) K (a, log)
     in attest_outcomes log = [OutcomeAttested 0])"

definition an_attestation_carries_the_quote_and_signature_from_the_enclave :: "nat \<Rightarrow> keccak \<Rightarrow> bool" where
  "an_attestation_carries_the_quote_and_signature_from_the_enclave n K \<longleftrightarrow>
    (let intents = test_ids K 3; c = commit K 0 intents;
         (a, log) = attester_ran (Suc n) K mock_enclave_new (appended [test_committed K 0 intents])
     in case test_quotes log of
          [(slot, quote, sig)] \<Rightarrow>
            slot = 0 \<and> parse_quote quote = Some (0, c, MOCK_MEASUREMENT) \<and>
            sig = mock_over K (array_bytes (commitment_array c))
        | _ \<Rightarrow> False)"

definition a_commitment_that_does_not_match_its_intents_never_reaches_the_enclave :: "nat \<Rightarrow> keccak \<Rightarrow> bool" where
  "a_commitment_that_does_not_match_its_intents_never_reaches_the_enclave n K \<longleftrightarrow>
    (let log = appended [tampered 0 (test_ids K 2), test_committed K 1 (test_ids K 1)];
         (a, log) = attester_ran (Suc n) K mock_enclave_new log
     in attest_outcomes log = [OutcomeFailed 0 ''commitment mismatch'', OutcomeAttested 1] \<and>
        me_seen (at_enclave a) = [1])"

definition an_enclave_failure_is_recorded_with_its_reason :: "nat \<Rightarrow> keccak \<Rightarrow> bool" where
  "an_enclave_failure_is_recorded_with_its_reason n K \<longleftrightarrow>
    (let log = appended [test_committed K 0 (test_ids K 1), test_committed K 1 (test_ids K 1)];
         (a, log) = attester_ran (Suc n) K (enclave_failing_on [0] mock_enclave_new) log
     in attest_outcomes log =
          [OutcomeFailed 0 ''enclave unavailable: mock failure on slot 0'', OutcomeAttested 1])"

definition entries_that_are_not_slots_advance_the_cursor_without_being_reread :: "nat \<Rightarrow> keccak \<Rightarrow> bool" where
  "entries_that_are_not_slots_advance_the_cursor_without_being_reread n K \<longleftrightarrow>
    (let log = appended [test_committed K 0 (test_ids K 1), test_intent_received K 1,
           test_intent_received K 2, test_committed K 1 (test_ids K 2)];
         (a, log) = attester_ran (Suc n) K mock_enclave_new log
     in attest_outcomes log = [OutcomeAttested 0, OutcomeAttested 1] \<and> me_seen (at_enclave a) = [0, 1])"

definition a_restarted_attester_does_not_redo_finished_slots :: "nat \<Rightarrow> nat \<Rightarrow> keccak \<Rightarrow> bool" where
  "a_restarted_attester_does_not_redo_finished_slots m n K \<longleftrightarrow>
    (let log = appended [test_committed K 0 (test_ids K 1), test_committed K 1 (test_ids K 1)];
         (a, log) = attester_ran (Suc m) K mock_enclave_new log;
         log = snd (mem_append (test_committed K 2 (test_ids K 3)) log);
         (a, log) = attester_ran (Suc n) K mock_enclave_new log
     in me_seen (at_enclave a) = [2] \<and>
        attest_outcomes log = [OutcomeAttested 0, OutcomeAttested 1, OutcomeAttested 2])"

definition slots_are_attested_in_order_under_a_slow_enclave :: "nat \<Rightarrow> keccak \<Rightarrow> bool" where
  "slots_are_attested_in_order_under_a_slow_enclave n K \<longleftrightarrow>
    (let log = appended (map (\<lambda>s. test_committed K (word_of_nat s) (test_ids K (s + 1))) [0, 1, 2, 3, 4]);
         en = enclave_with_latency (from_millis 5) mock_enclave_new;
         (a, log) = attester_ran (Suc n) K en log
     in me_seen (at_enclave a) = [0, 1, 2, 3, 4] \<and>
        attest_outcomes log = map OutcomeAttested [0, 1, 2, 3, 4])"

lemma att_outcomes_simps [simp]:
  "List.map_filter f [] = []"
  "List.map_filter f (x # xs) = (case f x of None \<Rightarrow> List.map_filter f xs | Some y \<Rightarrow> y # List.map_filter f xs)"
  by (simp_all add: map_filter_simps)

text \<open>Recovery on a log without rulings starts at the beginning.\<close>

lemma recover_unruled:
  assumes "ruled_slots (ml_entries l) = []"
  shows "recover_attester mem_ops l = Ok (position_of 0)"
  using attester_resume_eq [of "ml_entries l" 0 "mem_head l"] assms
  by (simp add: recover_attester_def mem_read_from_eq position_of_0 slot_run_def)

lemma ran_unruled:
  assumes "ruled_slots es = []" "2 * length es < 2 ^ 64"
  shows "ml_entries (snd (attester_ran (Suc n) K en (appended es))) =
      es @ fst (verdicts K (mock_attest K) es en)"
    and "at_enclave (fst (attester_ran (Suc n) K en (appended es))) =
      snd (verdicts K (mock_attest K) es en)"
  using attester_ran_eq [OF recover_unruled, of "appended es" n K en] assms by simp_all

lemma show_zero [simp]: "show_u64 0 = ''0''"
proof -
  have "char_of (48 :: nat) = CHR ''0''" by code_simp
  then show ?thesis
    by (simp add: show_u64_def show_nat.simps [of 0] digit_char_def)
qed

text \<open>The verdict on a commit of the tests, at once.\<close>

lemma att_verdict_committed:
  "att_verdict K (mock_attest K) (test_committed K slot ids) en =
    (Some (if slot \<in> me_fail_slots en
       then AttestFailed slot (''enclave unavailable: mock failure on slot '' @ show_u64 slot)
       else SlotAttested slot (encode_quote slot (commit K slot ids) (me_measurement en))
         (mock_over K (array_bytes (commitment_array (commit K slot ids))))),
     en\<lparr>me_seen := me_seen en @ [slot]\<rparr>)"
  by (simp add: test_committed_def att_verdict_def attest_slot_def mock_attest_def Let_def)

lemma att_verdict_received: "att_verdict K attest (test_intent_received K n) en = (None, en)"
  by (simp add: test_intent_received_def att_verdict_def Let_def)

lemma att_verdict_tampered:
  assumes "commit K slot ids \<noteq> Commitment (array_repeat 0xff)"
  shows "att_verdict K (mock_attest K) (tampered slot ids) en =
    (Some (AttestFailed slot ''commitment mismatch''), en)"
  using assms by (simp add: tampered_def att_verdict_def attest_slot_def Let_def)

lemma not_ruled [simp]:
  "ruled_slot (test_committed K slot ids) = None" "ruled_slot (test_intent_received K n) = None"
  "ruled_slot (tampered slot ids) = None"
  by (simp_all add: test_committed_def test_intent_received_def tampered_def Let_def)

lemma outcome_of_other [simp]:
  "attest_outcome_of (test_committed K slot ids) = None" "attest_outcome_of (test_intent_received K n) = None"
  "attest_outcome_of (tampered slot ids) = None"
  by (simp_all add: test_committed_def test_intent_received_def tampered_def Let_def)

lemmas turn_eval =
  att_verdict_committed att_verdict_received attest_outcomes_def Let_def mock_enclave_new_def enclave_failing_on_def
  enclave_with_latency_def case_prod_beta

lemma a_backlog_present_before_the_start_is_drained_holds: "a_backlog_present_before_the_start_is_drained n K"
  by (simp add: a_backlog_present_before_the_start_is_drained_def ran_unruled turn_eval)

lemma an_attestation_carries_the_quote_and_signature_from_the_enclave_holds:
  "an_attestation_carries_the_quote_and_signature_from_the_enclave n K"
  by (simp add: an_attestation_carries_the_quote_and_signature_from_the_enclave_def ran_unruled turn_eval
      test_quotes_def) (simp add: test_committed_def)

lemma an_enclave_failure_is_recorded_with_its_reason_holds: "an_enclave_failure_is_recorded_with_its_reason n K"
  by (simp add: an_enclave_failure_is_recorded_with_its_reason_def ran_unruled turn_eval)

lemma entries_that_are_not_slots_advance_the_cursor_without_being_reread_holds:
  "entries_that_are_not_slots_advance_the_cursor_without_being_reread n K"
  by (simp add: entries_that_are_not_slots_advance_the_cursor_without_being_reread_def ran_unruled turn_eval)

lemma slots_are_attested_in_order_under_a_slow_enclave_holds:
  "slots_are_attested_in_order_under_a_slow_enclave n K"
  by (simp add: slots_are_attested_in_order_under_a_slow_enclave_def ran_unruled turn_eval)

lemma tampered_commitment_holds:
  "commit K 0 (test_ids K 2) \<noteq> Commitment (array_repeat 0xff) \<Longrightarrow>
    a_commitment_that_does_not_match_its_intents_never_reaches_the_enclave n K"
  by (simp add: a_commitment_that_does_not_match_its_intents_never_reaches_the_enclave_def ran_unruled
      att_verdict_tampered turn_eval)

text \<open>A turn with nothing to read changes nothing at all.\<close>

lemma att_turns_idle:
  assumes "length (ml_entries l) \<le> offset (at_cursor a)"
  shows "att_turns n K (a, l) = (a, l)"
proof -
  have "att_on_doorbell mem_ops K (mock_attest K) (a, l) = (Ok (), a, l)"
    using assms by (simp add: att_on_doorbell_def mem_read_from_eq)
  then show ?thesis by (induction n) simp_all
qed

lemma a_slot_committed_after_the_start_wakes_the_attester_holds:
  "a_slot_committed_after_the_start_wakes_the_attester m n K"
proof -
  let ?a = "\<lparr>at_enclave = mock_enclave_new, at_cursor = position_of 0\<rparr>"
  let ?l = "snd (mem_append (test_committed K 0 (test_ids K 1)) mem_log_new)"
  have ran: "attester_ran m K mock_enclave_new mem_log_new = (?a, mem_log_new)"
    using att_turns_idle [of mem_log_new ?a m K]
    by (simp add: attester_ran_def attester_start_def recover_unruled mem_log_new_def)
  have es: "ml_entries ?l = [test_committed K 0 (test_ids K 1)]"
    by (simp add: mem_append_eq mem_log_new_def)
  have "ml_entries (snd (att_turns (Suc n) K (?a, ?l))) =
      [test_committed K 0 (test_ids K 1)] @
      fst (verdicts K (mock_attest K) [test_committed K 0 (test_ids K 1)] mock_enclave_new)"
    using att_turns_Suc [of ?l ?a n K] es by (simp add: att_after_def case_prod_beta Let_def)
  then show ?thesis
    using ran
    by (simp add: a_slot_committed_after_the_start_wakes_the_attester_def turn_eval del: att_turns.simps)
qed

lemma a_restarted_attester_does_not_redo_finished_slots_holds:
  "a_restarted_attester_does_not_redo_finished_slots m n K"
proof -
  let ?c = "\<lambda>s k. test_committed K s (test_ids K k)"
  let ?log = "appended [?c 0 1, ?c 1 1]"
  obtain q g r h where one: "ml_entries (snd (attester_ran (Suc m) K mock_enclave_new ?log)) =
      [?c 0 1, ?c 1 1, SlotAttested 0 q g, SlotAttested 1 r h]"
    by (simp add: ran_unruled turn_eval)
  define l where "l = snd (mem_append (?c 2 3) (snd (attester_ran (Suc m) K mock_enclave_new ?log)))"
  have l: "ml_entries l = [?c 0 1, ?c 1 1, SlotAttested 0 q g, SlotAttested 1 r h, ?c 2 3]"
    using one by (simp add: l_def mem_append_eq)
  have "recover_attester mem_ops l = Ok (position_of 4)"
    by (simp add: recover_attester_def attester_resume_def mem_read_from_eq l) (simp add: test_committed_def)
  note ran = attester_ran_eq [OF this, of n K mock_enclave_new]
  have "ml_entries (snd (attester_ran (Suc n) K mock_enclave_new l)) =
      ml_entries l @ fst (verdicts K (mock_attest K) [?c 2 3] mock_enclave_new)"
    "at_enclave (fst (attester_ran (Suc n) K mock_enclave_new l)) =
      snd (verdicts K (mock_attest K) [?c 2 3] mock_enclave_new)"
    using ran by (simp_all add: l)
  then show ?thesis
    unfolding a_restarted_attester_does_not_redo_finished_slots_def Let_def case_prod_beta l_def [symmetric]
    by (simp add: turn_eval l)
qed

end
