(* ===== verification/Prove_Tests.thy ===== *)
theory Prove_Tests
  imports Attest_Tests Prove_Properties
begin

text \<open>
  The unit tests of \<^verbatim>\<open>src/src/prove/mod.rs\<close>: the mock backend, the prover's recovery, and its
  loop. A test that spawns the prover and waits for its outcomes runs it through a sequence of
  wake-ups, by the doorbell or by the flush timer; the test holds for every sequence with a doorbell
  in it, or, where it needs the timer, with the timer after a doorbell.
\<close>

section \<open>Fixtures\<close>

definition prove_committed :: "keccak \<Rightarrow> u64 \<Rightarrow> entry" where
  "prove_committed K slot =
    (let intents = test_ids K (unat slot + 1)
     in SlotCommitted slot intents position_ZERO (commit K slot intents) (TEST_NOW + slot))"

definition prove_attested :: "keccak \<Rightarrow> u64 \<Rightarrow> entry" where
  "prove_attested K slot = SlotAttested slot [] (mock_over K [])"

definition prove_attest_failed :: "u64 \<Rightarrow> entry" where
  "prove_attest_failed slot = AttestFailed slot ''enclave unavailable''"

definition test_proven :: "u64 \<Rightarrow> u64 \<Rightarrow> entry" where
  "test_proven from_slot to_slot =
     SlotsProven from_slot to_slot
       \<lparr>ph_backend = Mock, ph_proof = [], ph_public_inputs = [], ph_vkey_hash = array_repeat 0\<rparr>"

definition test_prove_failed :: "u64 \<Rightarrow> u64 \<Rightarrow> entry" where
  "test_prove_failed from_slot to_slot = ProveFailed from_slot to_slot ''backend down''"

definition test_slot :: "keccak \<Rightarrow> u64 \<Rightarrow> committed_slot" where
  "test_slot K n =
    (let intents = test_ids K (unat n + 1)
     in \<lparr>cs_slot = n, cs_intents = intents, cs_commitment = commit K n intents\<rparr>)"

datatype prove_outcome = OutcomeProven u64 u64 | OutcomeRefused u64 u64 string

fun prove_outcome_of :: "entry \<Rightarrow> prove_outcome option" where
  "prove_outcome_of (SlotsProven from_slot to_slot _) = Some (OutcomeProven from_slot to_slot)"
| "prove_outcome_of (ProveFailed from_slot to_slot reason) = Some (OutcomeRefused from_slot to_slot reason)"
| "prove_outcome_of _ = None"

definition prove_outcomes :: "mem_log \<Rightarrow> prove_outcome list" where
  "prove_outcomes log = List.map_filter prove_outcome_of (ml_entries log)"

lemma cs_slot_test_slot [simp]: "cs_slot (test_slot K n) = n"
  by (simp add: test_slot_def Let_def)

section \<open>The mock backend\<close>

definition fast :: mock_prover where
  "fast = prover_with_latency (from_millis 0) mock_prover_new"

text \<open>The latency of the test backend never overflows, whatever the batch.\<close>

lemma fast_fits [simp]: "duration_mul_fits (from_millis 0) n"
  by (simp add: duration_mul_fits_def from_millis_def)

definition a_proof_binds_the_commitments_it_covers_in_order :: "keccak \<Rightarrow> bool" where
  "a_proof_binds_the_commitments_it_covers_in_order K \<longleftrightarrow>
    (case mock_prove K [test_slot K 0, test_slot K 1] fast of
       Some (Ok h, _) \<Rightarrow>
         ph_proof h = array_bytes (hasher_finalize K
           (hasher_update (array_bytes (commitment_array (cs_commitment (test_slot K 1))))
             (hasher_update (array_bytes (commitment_array (cs_commitment (test_slot K 0)))) hasher_new))) \<and>
         ph_vkey_hash h = MOCK_VKEY_HASH \<and> ph_backend h = Mock
     | _ \<Rightarrow> False)"

definition reordering_a_batch_changes_the_proof :: "keccak \<Rightarrow> bool" where
  "reordering_a_batch_changes_the_proof K \<longleftrightarrow>
    (case (mock_prove K [test_slot K 0, test_slot K 1] fast, mock_prove K [test_slot K 1, test_slot K 0] fast) of
       (Some (Ok forwards, _), Some (Ok backwards, _)) \<Rightarrow> ph_proof forwards \<noteq> ph_proof backwards
     | _ \<Rightarrow> False)"

definition every_batch_is_recorded_with_its_range :: "keccak \<Rightarrow> bool" where
  "every_batch_is_recorded_with_its_range K \<longleftrightarrow>
    (case mock_prove K [test_slot K 0, test_slot K 1] fast of
       Some (Ok _, prover) \<Rightarrow>
         (case mock_prove K [test_slot K 2] prover of
            Some (Ok _, prover) \<Rightarrow> mp_batches prover = [(0, 1), (2, 2)]
          | _ \<Rightarrow> False)
     | _ \<Rightarrow> False)"

definition a_refused_batch_is_still_recorded_as_attempted :: "keccak \<Rightarrow> bool" where
  "a_refused_batch_is_still_recorded_as_attempted K \<longleftrightarrow>
    (case mock_prove K [test_slot K 0] (prover_failing_on [(0, 0)] fast) of
       Some (Err (BackendFailure _), prover) \<Rightarrow> mp_batches prover = [(0, 0)]
     | _ \<Rightarrow> False)"

definition proves :: "keccak \<Rightarrow> u64 list \<Rightarrow> mock_prover \<Rightarrow> bool" where
  "proves K slots m \<longleftrightarrow>
    (case mock_prove K (map (test_slot K) slots) m of Some (Ok _, _) \<Rightarrow> True | _ \<Rightarrow> False)"

definition a_batch_fails_when_it_overlaps_a_failing_range_at_all :: "keccak \<Rightarrow> bool" where
  "a_batch_fails_when_it_overlaps_a_failing_range_at_all K \<longleftrightarrow>
    (let prover = prover_failing_on [(2, 3)] fast
     in \<not> proves K [1, 2] prover \<and> \<not> proves K [3, 4] prover \<and> \<not> proves K [0, 5] prover \<and>
        proves K [0, 1] prover \<and> proves K [4, 5] prover)"

lemmas backend_eval =
  mock_prove_def fast_def prover_with_latency_def mock_prover_new_def prover_failing_on_def Let_def

lemma backend_tests:
  "a_proof_binds_the_commitments_it_covers_in_order K"
  "every_batch_is_recorded_with_its_range K"
  "a_refused_batch_is_still_recorded_as_attempted K"
  "a_batch_fails_when_it_overlaps_a_failing_range_at_all K"
  by (simp_all add: a_proof_binds_the_commitments_it_covers_in_order_def
      every_batch_is_recorded_with_its_range_def a_refused_batch_is_still_recorded_as_attempted_def
      a_batch_fails_when_it_overlaps_a_failing_range_at_all_def proves_def backend_eval mock_chain_def
      word_le_nat_alt)

lemma reordering_a_batch_changes_the_proof_holds:
  "mock_chain K [test_slot K 0, test_slot K 1] \<noteq> mock_chain K [test_slot K 1, test_slot K 0] \<Longrightarrow>
    reordering_a_batch_changes_the_proof K"
  by (simp add: reordering_a_batch_changes_the_proof_def backend_eval)

section \<open>Recovery\<close>

definition an_untouched_log_starts_at_the_first_slot :: "keccak \<Rightarrow> bool" where
  "an_untouched_log_starts_at_the_first_slot K \<longleftrightarrow> recover_prover mem_ops mem_log_new = Ok (position_ZERO, 0)"

definition unproven_commits_are_replayed_from_the_first_of_them :: "keccak \<Rightarrow> bool" where
  "unproven_commits_are_replayed_from_the_first_of_them K \<longleftrightarrow>
    (let log = appended [prove_committed K 0, prove_attested K 0, prove_committed K 1]
     in recover_prover mem_ops log = Ok (position_ZERO, 0))"

definition recovery_resumes_at_the_commit_after_the_proven_range :: "keccak \<Rightarrow> bool" where
  "recovery_resumes_at_the_commit_after_the_proven_range K \<longleftrightarrow>
    (let log = appended [prove_committed K 0, prove_committed K 1, prove_committed K 2, test_proven 0 1]
     in recover_prover mem_ops log = Ok (Position 2, 2))"

definition a_failed_proof_is_not_retried :: "keccak \<Rightarrow> bool" where
  "a_failed_proof_is_not_retried K \<longleftrightarrow>
    (let log = appended [prove_committed K 0, prove_committed K 1, test_prove_failed 0 1]
     in case recover_prover mem_ops log of
          Ok (cursor, next_slot) \<Rightarrow> next_slot = 2 \<and> cursor = mem_head log
        | Err _ \<Rightarrow> False)"

definition the_furthest_proven_slot_wins_whatever_order_it_was_written_in :: "keccak \<Rightarrow> bool" where
  "the_furthest_proven_slot_wins_whatever_order_it_was_written_in K \<longleftrightarrow>
    (let log = appended [prove_committed K 0, prove_committed K 1, prove_committed K 2, prove_committed K 3,
           test_proven 2 2, test_proven 0 1]
     in recover_prover mem_ops log = Ok (Position 3, 3))"

definition prover_nothing_newer_committed_resumes_at_the_head :: "keccak \<Rightarrow> bool" where
  "prover_nothing_newer_committed_resumes_at_the_head K \<longleftrightarrow>
    (let log = appended [prove_committed K 0, prove_attested K 0, test_proven 0 0]
     in recover_prover mem_ops log = Ok (mem_head log, 1))"

definition attestations_alone_do_not_move_the_resume_point :: "keccak \<Rightarrow> bool" where
  "attestations_alone_do_not_move_the_resume_point K \<longleftrightarrow>
    (let log = appended [prove_committed K 0, prove_attested K 0, prove_attest_failed 1]
     in recover_prover mem_ops log = Ok (position_ZERO, 0))"

lemmas prover_recover_eval =
  recover_prover_def prover_resume_def mem_read_from_eq mem_head_def prove_committed_def prove_attested_def
  prove_attest_failed_def test_proven_def test_prove_failed_def position_ZERO_def position_of_def offset_def
  Let_def

lemma prover_recovery_tests:
  "an_untouched_log_starts_at_the_first_slot K"
  "unproven_commits_are_replayed_from_the_first_of_them K"
  "recovery_resumes_at_the_commit_after_the_proven_range K"
  "a_failed_proof_is_not_retried K"
  "the_furthest_proven_slot_wins_whatever_order_it_was_written_in K"
  "prover_nothing_newer_committed_resumes_at_the_head K"
  "attestations_alone_do_not_move_the_resume_point K"
  by (simp_all add: an_untouched_log_starts_at_the_first_slot_def
      unproven_commits_are_replayed_from_the_first_of_them_def
      recovery_resumes_at_the_commit_after_the_proven_range_def a_failed_proof_is_not_retried_def
      the_furthest_proven_slot_wins_whatever_order_it_was_written_in_def
      prover_nothing_newer_committed_resumes_at_the_head_def
      attestations_alone_do_not_move_the_resume_point_def mem_log_new_def prover_recover_eval)

section \<open>The loop\<close>

datatype wake = Doorbell | FlushTimer

fun prover_wakes ::
    "keccak \<Rightarrow> wake list \<Rightarrow> mock_prover prover \<times> mem_log \<Rightarrow> (mock_prover, mem_log) prover_result" where
  "prover_wakes K [] s = Some (Ok (), s)"
| "prover_wakes K (Doorbell # ws) s =
     and_then (prover_on_doorbell mem_ops (mock_prove_ops K) s) (prover_wakes K ws)"
| "prover_wakes K (FlushTimer # ws) s =
     and_then (prover_on_timer mem_ops (mock_prove_ops K) s) (prover_wakes K ws)"

text \<open>A prover started on a log, through the given wake-ups; \<open>None\<close> would be a failed recovery or a panic.\<close>

definition prover_ran ::
    "wake list \<Rightarrow> keccak \<Rightarrow> mock_prover \<Rightarrow> batch_config \<Rightarrow> mem_log \<Rightarrow> (mock_prover, mem_log) prover_result" where
  "prover_ran ws K backend cfg log =
    (case prover_start mem_ops backend cfg log of
       Ok p \<Rightarrow> prover_wakes K ws (p, log)
     | Err _ \<Rightarrow> None)"

definition test_config :: "nat \<Rightarrow> u64 \<Rightarrow> batch_config" where
  "test_config batch_size flush_after_ms =
     \<lparr>bc_batch_size = batch_size, bc_flush_after = from_millis flush_after_ms\<rparr>"

text \<open>What the tests look at when the prover is stopped: the outcomes and the batches asked for.\<close>

definition observed ::
    "(mock_prover, mem_log) prover_result \<Rightarrow> (prove_outcome list \<times> (u64 \<times> u64) list) option" where
  "observed r =
    (case r of
       Some (Ok _, p, log) \<Rightarrow> Some (prove_outcomes log, mp_batches (pr_prover p))
     | _ \<Rightarrow> None)"

definition prover_error :: "(mock_prover, mem_log) prover_result \<Rightarrow> prove_error option" where
  "prover_error r = (case r of Some (Err e, _) \<Rightarrow> Some e | _ \<Rightarrow> None)"

definition a_full_batch_is_proven_as_one_contiguous_range :: "wake list \<Rightarrow> keccak \<Rightarrow> bool" where
  "a_full_batch_is_proven_as_one_contiguous_range ws K \<longleftrightarrow>
    (let log = appended [prove_committed K 0, prove_committed K 1, prove_attested K 0, prove_attested K 1]
     in observed (prover_ran ws K fast (test_config 2 10000) log) = Some ([OutcomeProven 0 1], [(0, 1)]))"

definition a_commitment_alone_is_not_enough_to_prove_a_slot :: "wake list \<Rightarrow> keccak \<Rightarrow> bool" where
  "a_commitment_alone_is_not_enough_to_prove_a_slot ws K \<longleftrightarrow>
    (let log = appended [prove_committed K 0, prove_committed K 1]
     in observed (prover_ran ws K fast (test_config 2 50) log) = Some ([], []))"

definition a_partial_batch_is_flushed_by_the_timer :: "wake list \<Rightarrow> keccak \<Rightarrow> bool" where
  "a_partial_batch_is_flushed_by_the_timer ws K \<longleftrightarrow>
    (let log = appended [prove_committed K 0, prove_attested K 0]
     in map_option fst (observed (prover_ran ws K fast (test_config 10 20) log)) = Some [OutcomeProven 0 0])"

definition a_failed_attestation_closes_the_batch_before_the_gap :: "wake list \<Rightarrow> keccak \<Rightarrow> bool" where
  "a_failed_attestation_closes_the_batch_before_the_gap ws K \<longleftrightarrow>
    (let log = appended [prove_committed K 0, prove_committed K 1, prove_committed K 2, prove_attested K 0,
           prove_attest_failed 1, prove_attested K 2]
     in observed (prover_ran ws K fast (test_config 10 10000) log) =
          Some ([OutcomeProven 0 0, OutcomeProven 2 2], [(0, 0), (2, 2)]))"

definition a_slot_that_failed_attestation_is_never_proven :: "wake list \<Rightarrow> keccak \<Rightarrow> bool" where
  "a_slot_that_failed_attestation_is_never_proven ws K \<longleftrightarrow>
    (let log = appended [prove_committed K 0, prove_attest_failed 0, prove_committed K 1, prove_attested K 1]
     in observed (prover_ran ws K fast (test_config 1 10000) log) = Some ([OutcomeProven 1 1], [(1, 1)]))"

definition a_backend_failure_is_recorded_against_the_range_it_refused :: "wake list \<Rightarrow> keccak \<Rightarrow> bool" where
  "a_backend_failure_is_recorded_against_the_range_it_refused ws K \<longleftrightarrow>
    (let log = appended [prove_committed K 0, prove_committed K 1, prove_attested K 0, prove_attested K 1];
         prover = prover_failing_on [(0, 1)] fast
     in map_option fst (observed (prover_ran ws K prover (test_config 2 10000) log)) =
          Some [OutcomeRefused 0 1 ''prover backend: mock failure on 0..=1''])"

definition four_attested :: "keccak \<Rightarrow> entry list" where
  "four_attested K = concat (map (\<lambda>slot. [prove_committed K slot, prove_attested K slot]) [0, 1, 2, 3])"

definition a_refused_batch_does_not_stall_the_slots_behind_it :: "wake list \<Rightarrow> keccak \<Rightarrow> bool" where
  "a_refused_batch_does_not_stall_the_slots_behind_it ws K \<longleftrightarrow>
    (let log = appended (four_attested K); prover = prover_failing_on [(0, 1)] fast
     in observed (prover_ran ws K prover (test_config 2 10000) log) =
          Some ([OutcomeRefused 0 1 ''prover backend: mock failure on 0..=1'', OutcomeProven 2 3],
            [(0, 1), (2, 3)]))"

definition an_attestation_ahead_of_the_next_slot_is_a_gap :: "wake list \<Rightarrow> keccak \<Rightarrow> bool" where
  "an_attestation_ahead_of_the_next_slot_is_a_gap ws K \<longleftrightarrow>
    (let log = appended [prove_committed K 0, prove_committed K 1, prove_attested K 1]
     in prover_error (prover_ran ws K fast (test_config 4 10000) log) = Some (SlotGap 0 1))"

definition an_attestation_for_a_slot_that_was_never_committed_is_an_error :: "wake list \<Rightarrow> keccak \<Rightarrow> bool" where
  "an_attestation_for_a_slot_that_was_never_committed_is_an_error ws K \<longleftrightarrow>
    (let log = appended [prove_committed K 0, prove_attested K 0, prove_attested K 1]
     in prover_error (prover_ran ws K fast (test_config 4 10000) log) = Some (MissingCommit 1))"

definition consecutive_batches_partition_the_slots :: "wake list \<Rightarrow> keccak \<Rightarrow> bool" where
  "consecutive_batches_partition_the_slots ws K \<longleftrightarrow>
     observed (prover_ran ws K fast (test_config 2 10000) (appended (four_attested K))) =
       Some ([OutcomeProven 0 1, OutcomeProven 2 3], [(0, 1), (2, 3)])"

text \<open>Between the wake-ups \<open>us\<close> and \<open>ws\<close> the test appends two slots, and so on.\<close>

definition slots_arriving_after_the_start_are_picked_up ::
    "wake list \<Rightarrow> wake list \<Rightarrow> wake list \<Rightarrow> keccak \<Rightarrow> bool" where
  "slots_arriving_after_the_start_are_picked_up us vs ws K \<longleftrightarrow>
    (let bell = (\<lambda>entries (p, log). (p, snd (mem_append_batch entries log)));
         r = prover_ran us K fast (test_config 2 10000) mem_log_new;
         r = and_then r (\<lambda>s. prover_wakes K vs (bell [prove_committed K 0, prove_attested K 0] s));
         r = and_then r (\<lambda>s. prover_wakes K ws (bell [prove_committed K 1, prove_attested K 1] s))
     in map_option fst (observed r) = Some [OutcomeProven 0 1])"

definition a_restarted_prover_does_not_reprove_a_finished_range ::
    "wake list \<Rightarrow> wake list \<Rightarrow> keccak \<Rightarrow> bool" where
  "a_restarted_prover_does_not_reprove_a_finished_range us ws K \<longleftrightarrow>
    (let log = appended [prove_committed K 0, prove_committed K 1, prove_attested K 0, prove_attested K 1]
     in case prover_ran us K fast (test_config 2 10000) log of
          Some (Ok _, _, log) \<Rightarrow>
            (let log = snd (mem_append_batch
                   [prove_committed K 2, prove_attested K 2, prove_committed K 3, prove_attested K 3] log)
             in observed (prover_ran ws K fast (test_config 2 10000) log) =
                  Some ([OutcomeProven 0 1, OutcomeProven 2 3], [(2, 3)]))
        | _ \<Rightarrow> False)"

section \<open>Wake-ups with nothing to read\<close>

definition quiet :: "mock_prover prover \<Rightarrow> mem_log \<Rightarrow> bool" where
  "quiet p l \<longleftrightarrow>
     (\<forall>e \<in> set (drop (offset (pr_cursor p)) (ml_entries l)). proved_upto e \<noteq> None) \<and>
     length (pr_pending p) < pr_batch_size p \<and> length (ml_entries l) < 2 ^ 64"

lemma doorbell_reads:
  "prover_on_doorbell mem_ops P (p, l) =
     prover_entries mem_ops P (drop (offset (pr_cursor p)) (ml_entries l))
       (p\<lparr>pr_cursor := if length (ml_entries l) \<le> offset (pr_cursor p) then pr_cursor p
            else position_of (length (ml_entries l))\<rparr>, l)"
  by (simp add: prover_on_doorbell_def mem_read_from_eq drop_positioned_from fold_cursor)

lemma prover_entries_quiet:
  assumes "\<forall>e \<in> set es. proved_upto e \<noteq> None" "length (pr_pending p) < pr_batch_size p"
  shows "prover_entries L P es (p, l) = Some (Ok (), p, l)"
  using assms
proof (induction es)
  case (Cons e es)
  then show ?case
    by (cases e) (auto simp: prover_entry_def prover_fill_def Let_def)
qed simp

lemma quiet_doorbell:
  assumes "quiet p l"
  obtains c where "prover_on_doorbell mem_ops P (p, l) = Some (Ok (), p\<lparr>pr_cursor := c\<rparr>, l)"
    "quiet (p\<lparr>pr_cursor := c\<rparr>) l"
proof
  let ?c = "if length (ml_entries l) \<le> offset (pr_cursor p) then pr_cursor p
            else position_of (length (ml_entries l))"
  show "prover_on_doorbell mem_ops P (p, l) = Some (Ok (), p\<lparr>pr_cursor := ?c\<rparr>, l)"
    unfolding doorbell_reads using assms by (intro prover_entries_quiet) (simp_all add: quiet_def)
  show "quiet (p\<lparr>pr_cursor := ?c\<rparr>) l"
    using assms by (simp add: quiet_def)
qed

text \<open>An idle prover stays idle.\<close>

lemma quiet_idle:
  assumes "quiet p l" "pr_pending p = []"
  shows "\<exists>c. prover_wakes K ws (p, l) = Some (Ok (), p\<lparr>pr_cursor := c\<rparr>, l)"
  using assms
proof (induction ws arbitrary: p)
  case Nil
  then show ?case by (intro exI [of _ "pr_cursor p"]) simp
next
  case (Cons w ws)
  show ?case
  proof (cases w)
    case Doorbell
    obtain c where "prover_on_doorbell mem_ops (mock_prove_ops K) (p, l) = Some (Ok (), p\<lparr>pr_cursor := c\<rparr>, l)"
      "quiet (p\<lparr>pr_cursor := c\<rparr>) l"
      using quiet_doorbell [OF Cons.prems(1)] .
    with Cons.IH [of "p\<lparr>pr_cursor := c\<rparr>"] Cons.prems(2) Doorbell show ?thesis by simp
  next
    case FlushTimer
    with Cons show ?thesis by (simp add: prover_on_timer_def)
  qed
qed

text \<open>A prover with a partial batch keeps it until the timer fires.\<close>

lemma flush_quiet:
  assumes "prover_flush mem_ops P (p, l) = Some (Ok (), p', l')" "quiet p l"
    and "length (ml_entries l) + 1 < 2 ^ 64"
  shows "quiet p' l' \<and> pr_pending p' = [] \<and>
    prover_flush mem_ops P (p\<lparr>pr_cursor := c\<rparr>, l) = Some (Ok (), p'\<lparr>pr_cursor := c\<rparr>, l')"
proof -
  from mem.prover_flush_outcome [OF TrueI assms(1)] obtain e st
    where e: "proof_entry P (pr_pending p) (pr_prover p) = Some (e, st)"
      and p': "p' = p\<lparr>pr_pending := [], pr_prover := st\<rparr>" and l': "ml_entries l' = ml_entries l @ [e]"
    by auto
  have "proved_upto e \<noteq> None"
    using e by (auto simp: proof_entry_def Let_def split: if_splits option.splits sum.splits)
  with assms(2,3) have "quiet p' l'"
    by (auto simp: quiet_def p' l' drop_Cons' split: if_splits)
  moreover have "prover_flush mem_ops P (p\<lparr>pr_cursor := c\<rparr>, l) = Some (Ok (), p'\<lparr>pr_cursor := c\<rparr>, l')"
    using assms(1) e by (simp add: prover_flush_def p' Let_def split: prod.splits sum.splits)
  ultimately show ?thesis by (simp add: p')
qed

lemma quiet_flush:
  assumes "quiet p l" "pr_pending p \<noteq> []" "FlushTimer \<in> set ws" "length (ml_entries l) + 1 < 2 ^ 64"
    and "prover_flush mem_ops (mock_prove_ops K) (p, l) = Some (Ok (), p', l')"
  shows "\<exists>c. prover_wakes K ws (p, l) = Some (Ok (), p'\<lparr>pr_cursor := c\<rparr>, l')"
  using assms
proof (induction ws arbitrary: p p')
  case Nil
  then show ?case by simp
next
  case (Cons w ws)
  show ?case
  proof (cases w)
    case Doorbell
    obtain c where "prover_on_doorbell mem_ops (mock_prove_ops K) (p, l) = Some (Ok (), p\<lparr>pr_cursor := c\<rparr>, l)"
      "quiet (p\<lparr>pr_cursor := c\<rparr>) l"
      using quiet_doorbell [OF Cons.prems(1)] .
    with Cons.IH [of "p\<lparr>pr_cursor := c\<rparr>" "p'\<lparr>pr_cursor := c\<rparr>"] Cons.prems Doorbell
      flush_quiet [OF Cons.prems(5,1,4), of c]
    show ?thesis by simp
  next
    case FlushTimer
    with Cons.prems(2,5) have "prover_wakes K (w # ws) (p, l) = prover_wakes K ws (p', l')"
      by (simp add: prover_on_timer_def)
    with flush_quiet [OF Cons.prems(5,1,4)] quiet_idle show ?thesis by simp
  qed
qed

text \<open>Before the first doorbell the timer has nothing to flush.\<close>

definition after_doorbell :: "wake list \<Rightarrow> wake list" where
  "after_doorbell ws = tl (dropWhile (\<lambda>w. w \<noteq> Doorbell) ws)"

lemma first_doorbell:
  "Doorbell \<in> set ws \<Longrightarrow> pr_pending p = [] \<Longrightarrow>
    prover_wakes K ws (p, l) =
      and_then (prover_on_doorbell mem_ops (mock_prove_ops K) (p, l)) (prover_wakes K (after_doorbell ws))"
proof (induction ws)
  case (Cons w ws)
  then show ?case
    by (cases w) (simp_all add: after_doorbell_def prover_on_timer_def)
qed simp

lemma observed_idle:
  assumes "Doorbell \<in> set ws" "pr_pending p = []" "quiet p' l'" "pr_pending p' = []"
    and "prover_on_doorbell mem_ops (mock_prove_ops K) (p, l) = Some (Ok (), p', l')"
  shows "\<exists>c. prover_wakes K ws (p, l) = Some (Ok (), p'\<lparr>pr_cursor := c\<rparr>, l')"
  using first_doorbell [OF assms(1,2)] quiet_idle [OF assms(3,4)] assms(5) by simp

lemma observed_flushed:
  assumes "Doorbell \<in> set ws" "FlushTimer \<in> set (after_doorbell ws)" "pr_pending p = []"
    and "prover_on_doorbell mem_ops (mock_prove_ops K) (p, l) = Some (Ok (), p1, l1)"
    and "quiet p1 l1" "pr_pending p1 \<noteq> []" "length (ml_entries l1) + 1 < 2 ^ 64"
    and "prover_flush mem_ops (mock_prove_ops K) (p1, l1) = Some (Ok (), p', l')"
  shows "\<exists>c. prover_wakes K ws (p, l) = Some (Ok (), p'\<lparr>pr_cursor := c\<rparr>, l')"
  using first_doorbell [OF assms(1,3)] quiet_flush [OF assms(5,6,2,7,8)] assms(4) by simp

section \<open>The tests of the loop\<close>

lemma prover_entry_tests:
  "prover_entry L P (prove_committed K s) (p, l) =
     prover_fill L P (p\<lparr>pr_awaiting := (pr_awaiting p)(s \<mapsto> test_slot K s)\<rparr>, l)"
  "prover_entry L P (prove_attested K s) (p, l) =
     (if s < pr_next_slot p then Some (Ok (), p, l)
      else if s \<noteq> pr_next_slot p then Some (Err (SlotGap (pr_next_slot p) s), p, l)
      else case pr_awaiting p s of
             None \<Rightarrow> Some (Err (MissingCommit s), p, l)
           | Some c \<Rightarrow>
               prover_fill L P (p\<lparr>pr_awaiting := (pr_awaiting p)(s := None),
                 pr_pending := pr_pending p @ [c], pr_next_slot := pr_next_slot p + 1\<rparr>, l))"
  "prover_entry L P (prove_attest_failed s) (p, l) =
      (if s < pr_next_slot p then Some (Ok (), p, l)
       else if s \<noteq> pr_next_slot p then Some (Err (SlotGap (pr_next_slot p) s), p, l)
       else
         let p = p\<lparr>pr_awaiting := (pr_awaiting p)(s := None), pr_next_slot := pr_next_slot p + 1\<rparr>
         in if pr_pending p \<noteq> [] then and_then (prover_flush L P (p, l)) (prover_fill L P)
            else prover_fill L P (p, l))"
  by (simp_all add: prover_entry_def prove_committed_def prove_attested_def prove_attest_failed_def
      test_slot_def Let_def)

text \<open>The prover a test starts, where recovery resumes it.\<close>

definition started :: "mock_prover \<Rightarrow> batch_config \<Rightarrow> position \<Rightarrow> u64 \<Rightarrow> mock_prover prover" where
  "started backend cfg cursor next_slot =
     \<lparr>pr_prover = backend, pr_awaiting = Map.empty, pr_pending = [], pr_batch_size = bc_batch_size cfg,
      pr_flush_after = bc_flush_after cfg, pr_cursor = cursor, pr_next_slot = next_slot\<rparr>"

lemma ran_started:
  assumes "recover_prover mem_ops l = Ok (c, n)"
  shows "prover_ran ws K backend cfg l = prover_wakes K ws (started backend cfg c n, l)"
  using assms by (simp add: prover_ran_def prover_start_def started_def)

text \<open>The instant backend answers every batch, and keeps its latency.\<close>

definition instant :: "(u64 \<times> u64) list \<Rightarrow> (u64 \<times> u64) list \<Rightarrow> mock_prover" where
  "instant ranges batches =
     \<lparr>mp_per_slot = from_millis 0, mp_fail_ranges = ranges, mp_batches = batches\<rparr>"

lemma instant_starts: "fast = instant [] []" "prover_failing_on ranges (instant rs bs) = instant ranges bs"
  by (simp_all add: instant_def fast_def mock_prover_new_def prover_with_latency_def prover_failing_on_def)

definition answer :: "keccak \<Rightarrow> (u64 \<times> u64) list \<Rightarrow> committed_slot list \<Rightarrow> entry" where
  "answer K ranges batch =
    (let f = cs_slot (hd batch); t = cs_slot (last batch)
     in if list_ex (\<lambda>(a, b). f \<le> b \<and> t \<ge> a) ranges
        then ProveFailed f t (prove_failure_to_string (BackendFailure
               (''mock failure on '' @ show_u64 f @ ''..='' @ show_u64 t)))
        else SlotsProven f t
               \<lparr>ph_backend = Mock, ph_proof = mock_chain K batch, ph_public_inputs = mock_statement batch,
                ph_vkey_hash = MOCK_VKEY_HASH\<rparr>)"

lemma prove_outcome_of_tests [simp]:
  "prove_outcome_of (prove_committed K s) = None"
  "prove_outcome_of (prove_attested K s) = None"
  "prove_outcome_of (prove_attest_failed s) = None"
  "prove_outcome_of (answer K rs b) =
    Some (if list_ex (\<lambda>(x, y). cs_slot (hd b) \<le> y \<and> cs_slot (last b) \<ge> x) rs
      then OutcomeRefused (cs_slot (hd b)) (cs_slot (last b))
        (''prover backend: mock failure on '' @ show_u64 (cs_slot (hd b)) @ ''..='' @ show_u64 (cs_slot (last b)))
      else OutcomeProven (cs_slot (hd b)) (cs_slot (last b)))"
  by (simp_all add: prove_committed_def prove_attested_def prove_attest_failed_def answer_def Let_def)

lemma proved_upto_answer [simp]: "proved_upto (answer K rs b) = Some (cs_slot (last b))"
  by (simp add: answer_def Let_def)

lemma instant_flush:
  assumes "pr_pending p = s # ss" "pr_prover p = instant rs bs"
  shows "prover_flush mem_ops (mock_prove_ops K) (p, l) =
    Some (Ok (), p\<lparr>pr_pending := [],
        pr_prover := instant rs (bs @ [(cs_slot s, cs_slot (last (s # ss)))])\<rparr>,
      snd (mem_append (answer K rs (s # ss)) l))"
  using assms
  by (simp add: prover_flush_def proof_entry_def mock_prove_ops_def mock_prove_def instant_def answer_def
      mem_append_eq Let_def)

lemma ml_entries_append [simp]: "ml_entries (snd (mem_append e l)) = ml_entries l @ [e]"
  by (simp add: mem_append_eq)

lemma offset_start [simp]: "offset (Position 0) = 0"
  by (simp add: offset_def)

lemmas loop_eval =
  doorbell_reads prover_entry_tests prover_fill_def instant_flush started_def test_config_def
  word_le_nat_alt

text \<open>What a test sees when the first doorbell left the prover idle, or with a batch the timer flushes.\<close>

lemma settled_at_once:
  assumes "Doorbell \<in> set ws" "recover_prover mem_ops log = Ok (c, n)"
    and "\<exists>p l. prover_on_doorbell mem_ops (mock_prove_ops K) (started backend cfg c n, log) = Some (Ok (), p, l) \<and>
      quiet p l \<and> pr_pending p = [] \<and> prove_outcomes l = os \<and> mp_batches (pr_prover p) = bs"
  shows "observed (prover_ran ws K backend cfg log) = Some (os, bs)"
proof -
  have "pr_pending (started backend cfg c n) = []" by (simp add: started_def)
  with assms(1,3) observed_idle show ?thesis
    by (fastforce simp: ran_started [OF assms(2)] observed_def)
qed

lemma settled_by_timer:
  assumes "Doorbell \<in> set ws" "FlushTimer \<in> set (after_doorbell ws)"
    and "recover_prover mem_ops log = Ok (c, n)"
    and "\<exists>p l p' l'.
      prover_on_doorbell mem_ops (mock_prove_ops K) (started backend cfg c n, log) = Some (Ok (), p, l) \<and>
      quiet p l \<and> pr_pending p \<noteq> [] \<and> length (ml_entries l) + 1 < 2 ^ 64 \<and>
      prover_flush mem_ops (mock_prove_ops K) (p, l) = Some (Ok (), p', l') \<and>
      prove_outcomes l' = os \<and> mp_batches (pr_prover p') = bs"
  shows "observed (prover_ran ws K backend cfg log) = Some (os, bs)"
proof -
  have "pr_pending (started backend cfg c n) = []" by (simp add: started_def)
  with assms(1,2,4) observed_flushed show ?thesis
    by (fastforce simp: ran_started [OF assms(3)] observed_def)
qed

lemma stopped_at_once:
  assumes "Doorbell \<in> set ws" "recover_prover mem_ops log = Ok (c, n)"
    and "prover_error (prover_on_doorbell mem_ops (mock_prove_ops K) (started backend cfg c n, log)) = Some e"
  shows "prover_error (prover_ran ws K backend cfg log) = Some e"
proof -
  have "pr_pending (started backend cfg c n) = []" by (simp add: started_def)
  with assms(1,3) show ?thesis
    by (auto simp: ran_started [OF assms(2)] first_doorbell prover_error_def
        split: option.splits sum.splits)
qed

lemma show_one: "show_u64 1 = ''1''"
proof -
  have "char_of (49 :: nat) = CHR ''1''" by code_simp
  then show ?thesis
    by (simp add: show_u64_def show_nat.simps [of "Suc 0"] digit_char_def)
qed

lemmas instant_eval = loop_eval quiet_def prove_outcomes_def instant_starts show_one

lemma instant_batches [simp]: "mp_batches (instant rs bs) = bs"
  by (simp add: instant_def)

lemma outcomes_seen: "observed r = Some (os, bs) \<Longrightarrow> map_option fst (observed r) = Some os"
  by simp

lemma settled_tests:
  assumes "Doorbell \<in> set ws"
  shows "a_full_batch_is_proven_as_one_contiguous_range ws K"
    and "a_commitment_alone_is_not_enough_to_prove_a_slot ws K"
    and "a_slot_that_failed_attestation_is_never_proven ws K"
    and "a_backend_failure_is_recorded_against_the_range_it_refused ws K"
    and "consecutive_batches_partition_the_slots ws K"
    and "a_refused_batch_does_not_stall_the_slots_behind_it ws K"
  unfolding a_full_batch_is_proven_as_one_contiguous_range_def
    a_commitment_alone_is_not_enough_to_prove_a_slot_def
    a_slot_that_failed_attestation_is_never_proven_def
    a_backend_failure_is_recorded_against_the_range_it_refused_def
    consecutive_batches_partition_the_slots_def four_attested_def
    a_refused_batch_does_not_stall_the_slots_behind_it_def Let_def
  subgoal by (rule settled_at_once [OF assms], simp add: prover_recover_eval, auto simp: instant_eval)
  subgoal by (rule settled_at_once [OF assms], simp add: prover_recover_eval, auto simp: instant_eval)
  subgoal by (rule settled_at_once [OF assms], simp add: prover_recover_eval, auto simp: instant_eval)
  subgoal by (rule outcomes_seen [OF settled_at_once [OF assms, where bs = "[(0, 1)]"]],
      simp add: prover_recover_eval, auto simp: instant_eval)
  subgoal by (rule settled_at_once [OF assms], simp add: prover_recover_eval, auto simp: instant_eval)
  subgoal by (rule settled_at_once [OF assms], simp add: prover_recover_eval, auto simp: instant_eval)
  done

lemma stopped_tests:
  assumes "Doorbell \<in> set ws"
  shows "an_attestation_ahead_of_the_next_slot_is_a_gap ws K"
    and "an_attestation_for_a_slot_that_was_never_committed_is_an_error ws K"
  unfolding an_attestation_ahead_of_the_next_slot_is_a_gap_def
    an_attestation_for_a_slot_that_was_never_committed_is_an_error_def Let_def
  subgoal by (rule stopped_at_once [OF assms], simp add: prover_recover_eval, simp add: instant_eval prover_error_def)
  subgoal by (rule stopped_at_once [OF assms], simp add: prover_recover_eval, simp add: instant_eval prover_error_def)
  done

lemma timer_tests:
  assumes "Doorbell \<in> set ws" "FlushTimer \<in> set (after_doorbell ws)"
  shows "a_partial_batch_is_flushed_by_the_timer ws K"
    and "a_failed_attestation_closes_the_batch_before_the_gap ws K"
  unfolding a_partial_batch_is_flushed_by_the_timer_def
    a_failed_attestation_closes_the_batch_before_the_gap_def Let_def
  subgoal by (rule outcomes_seen [OF settled_by_timer [OF assms, where bs = "[(0, 0)]"]],
      simp add: prover_recover_eval, auto simp: instant_eval)
  subgoal by (rule settled_by_timer [OF assms], simp add: prover_recover_eval, auto simp: instant_eval)
  done

text \<open>A doorbell with nothing new changes nothing.\<close>

lemma nothing_new:
  assumes "length (ml_entries l) \<le> offset (pr_cursor p)"
  shows "prover_on_doorbell mem_ops P (p, l) = Some (Ok (), p, l)"
  using assms by (simp add: doorbell_reads)

lemma nothing_new_wakes:
  assumes "length (ml_entries l) \<le> offset (pr_cursor p)"
  shows "prover_wakes K (replicate n Doorbell) (p, l) = Some (Ok (), p, l)"
  using assms by (induction n) (simp_all add: nothing_new)

lemma empty_log_wakes:
  "pr_pending p = [] \<Longrightarrow> prover_wakes K us (p, mem_log_new) = Some (Ok (), p, mem_log_new)"
proof (induction us)
  case (Cons u us)
  then show ?case
    by (cases u) (simp_all add: nothing_new mem_log_new_def prover_on_timer_def)
qed simp

text \<open>The prover may take any doorbells between the two appends, and one after them.\<close>

lemma slots_arriving_after_the_start_are_picked_up_holds:
  "slots_arriving_after_the_start_are_picked_up us (replicate n Doorbell) (Doorbell # ws) K"
proof -
  let ?p = "started fast (test_config 2 10000) (Position 0) 0"
  have start: "prover_ran us K fast (test_config 2 10000) mem_log_new = Some (Ok (), ?p, mem_log_new)"
    using ran_started [of mem_log_new "Position 0" 0] empty_log_wakes [of ?p]
    by (simp add: prover_recover_eval mem_log_new_def started_def)
  define l where "l = snd (mem_append_batch [prove_committed K 0, prove_attested K 0] mem_log_new)"
  have l: "ml_entries l = [prove_committed K 0, prove_attested K 0]"
    by (simp add: l_def mem_append_batch_def mem_append_eq mem_log_new_def Let_def)
  define l2 where "l2 = snd (mem_append_batch [prove_committed K 1, prove_attested K 1] l)"
  have l2: "ml_entries l2 =
      [prove_committed K 0, prove_attested K 0, prove_committed K 1, prove_attested K 1]"
    by (simp add: l2_def mem_append_batch_def Let_def l)
  define p1 where "p1 = ?p\<lparr>pr_cursor := position_of 2, pr_next_slot := 1, pr_pending := [test_slot K 0]\<rparr>"
  have bell: "prover_on_doorbell mem_ops (mock_prove_ops K) (?p, l) = Some (Ok (), p1, l)"
    by (auto simp: instant_eval l p1_def)
  have first: "\<exists>p \<in> {?p, p1}. prover_wakes K (replicate n Doorbell) (?p, l) = Some (Ok (), p, l)"
  proof (cases n)
    case (Suc m)
    have "prover_wakes K (replicate m Doorbell) (p1, l) = Some (Ok (), p1, l)"
      by (rule nothing_new_wakes) (simp add: l p1_def)
    then show ?thesis using bell Suc by simp
  qed simp
  have last: "\<exists>p' l'. prover_on_doorbell mem_ops (mock_prove_ops K) (p, l2) = Some (Ok (), p', l') \<and>
      quiet p' l' \<and> pr_pending p' = [] \<and> prove_outcomes l' = [OutcomeProven 0 1]"
    if "p \<in> {?p, p1}" for p
    using that by (auto simp: instant_eval l2 p1_def)
  from first obtain p where p: "p \<in> {?p, p1}"
    and vs: "prover_wakes K (replicate n Doorbell) (?p, l) = Some (Ok (), p, l)" by blast
  from last [OF p] obtain p' l' where
    "prover_on_doorbell mem_ops (mock_prove_ops K) (p, l2) = Some (Ok (), p', l')"
    and idle: "quiet p' l'" "pr_pending p' = []" and out: "prove_outcomes l' = [OutcomeProven 0 1]" by blast
  moreover from quiet_idle [OF idle] obtain c where
    "prover_wakes K ws (p', l') = Some (Ok (), p'\<lparr>pr_cursor := c\<rparr>, l')" by blast
  ultimately have "prover_wakes K (Doorbell # ws) (p, l2) = Some (Ok (), p'\<lparr>pr_cursor := c\<rparr>, l')"
    by simp
  with start vs out show ?thesis
    by (simp add: slots_arriving_after_the_start_are_picked_up_def Let_def l_def [symmetric]
        l2_def [symmetric] observed_def)
qed

lemma a_restarted_prover_does_not_reprove_a_finished_range_holds:
  assumes "Doorbell \<in> set us" "Doorbell \<in> set ws"
  shows "a_restarted_prover_does_not_reprove_a_finished_range us ws K"
proof -
  let ?log = "appended [prove_committed K 0, prove_committed K 1, prove_attested K 0, prove_attested K 1]"
  let ?p = "started fast (test_config 2 10000) (Position 0) 0"
  have start: "recover_prover mem_ops ?log = Ok (Position 0, 0)"
    by (simp add: prover_recover_eval)
  have "\<exists>p l. prover_on_doorbell mem_ops (mock_prove_ops K) (?p, ?log) = Some (Ok (), p, l) \<and>
      quiet p l \<and> pr_pending p = [] \<and> ml_entries l = ml_entries ?log @ [answer K [] [test_slot K 0, test_slot K 1]]"
    by (auto simp: instant_eval)
  then obtain p l where
    bell: "prover_on_doorbell mem_ops (mock_prove_ops K) (?p, ?log) = Some (Ok (), p, l)"
    and idle: "quiet p l" "pr_pending p = []"
    and l: "ml_entries l = ml_entries ?log @ [answer K [] [test_slot K 0, test_slot K 1]]"
    by blast
  have "pr_pending ?p = []" by (simp add: started_def)
  from observed_idle [OF assms(1) this idle bell] obtain c where
    run: "prover_ran us K fast (test_config 2 10000) ?log = Some (Ok (), p\<lparr>pr_cursor := c\<rparr>, l)"
    unfolding ran_started [OF start] by blast
  define more where "more = snd (mem_append_batch
    [prove_committed K 2, prove_attested K 2, prove_committed K 3, prove_attested K 3] l)"
  have more: "ml_entries more =
      [prove_committed K 0, prove_committed K 1, prove_attested K 0, prove_attested K 1,
       answer K [] [test_slot K 0, test_slot K 1],
       prove_committed K 2, prove_attested K 2, prove_committed K 3, prove_attested K 3]"
    by (simp add: more_def mem_append_batch_def Let_def l)
  have "recover_prover mem_ops more = Ok (position_of 5, 2)"
    by (simp add: prover_recover_eval answer_def more)
  then have "observed (prover_ran ws K fast (test_config 2 10000) more) =
      Some ([OutcomeProven 0 1, OutcomeProven 2 3], [(2, 3)])"
    by (rule settled_at_once [OF assms(2)]) (auto simp: instant_eval more)
  with run show ?thesis
    by (simp add: a_restarted_prover_does_not_reprove_a_finished_range_def more_def [symmetric] Let_def)
qed

end
