(* ===== verification/Unit_Tests.thy ===== *)
theory Unit_Tests
  imports Ordering_Tests Admission_Tests Redb_Tests Projection_Tests Receipt_Tests Prove_Tests
begin





















end
