(* ===== verification/Ordering_Attacks.thy ===== *)
theory Ordering_Attacks
  imports Ordering_Tests
begin

text \<open>
  What a hostile submitter can and cannot do to the order of a slot, and the tests of
  \<^verbatim>\<open>src/tests/adversarial.rs\<close> that drive it (its module \<open>reordering\<close>). The merge is deterministic. A
  submitter whose every intent outranks the rest of a market takes the whole front of it and leaves the
  order of the rest as it was; a market is untouched by whatever is submitted to another.
\<close>

section \<open>The merge is deterministic\<close>

lemma least_head_unique:
  assumes "least_head Q a p" "least_head Q b q"
  shows "a = b \<and> p = q"
proof -
  obtain as bs where "Q a = p # as" "Q b = q # bs"
    using assms by (auto simp: least_head_def)
  moreover from this have "(rank p, a) = (rank q, b)"
    using assms by (intro antisym) (auto simp: least_head_def)
  ultimately show ?thesis by auto
qed

lemma merged_unique: "merged Q xs \<Longrightarrow> merged Q ys \<Longrightarrow> xs = ys"
proof (induction arbitrary: ys rule: merged.induct)
  case (merged_Nil Q)
  then show ?case
    by (cases ys) (auto simp: least_head_def elim: merged_ConsE)
next
  case (merged_Cons Q a p xs)
  then obtain as where "Q a = p # as"
    by (auto simp: least_head_def)
  then have "\<exists>b. Q b \<noteq> []"
    by (intro exI [of _ a]) simp
  then obtain q zs where ys: "ys = q # zs"
    using merged_Cons.prems by (cases ys) (auto elim: merged_NilE)
  from merged_Cons.prems [unfolded ys] obtain b where "least_head Q b q" "merged (Q(b := tl (Q b))) zs"
    by (rule merged_ConsE)
  with least_head_unique [OF merged_Cons.hyps(1)] merged_Cons.IH ys show ?case by blast
qed

lemma order_domain_eq: "domain_order ps xs \<Longrightarrow> order_domain ps = map p_id xs"
  using order_domain_obtains [of ps] merged_unique unfolding domain_order_def by metis

section \<open>Taking the front of a market\<close>

text \<open>Every intent of \<open>as\<close> ranks before every intent of \<open>vs\<close>.\<close>

definition outranks :: "pending list \<Rightarrow> pending list \<Rightarrow> bool" where
  "outranks as vs \<longleftrightarrow> (\<forall>p \<in> set as. \<forall>q \<in> set vs. rank p < rank q)"

lemma merged_front:
  assumes "\<forall>b. b \<noteq> a \<longrightarrow> outranks (Q a) (Q b)" "merged (Q(a := [])) ys"
  shows "merged Q (Q a @ ys)"
  using assms
proof (induction "Q a" arbitrary: Q)
  case Nil
  then have "Q(a := []) = Q" by auto
  with Nil show ?case by simp
next
  case (Cons p q)
  let ?Q = "Q(a := tl (Q a))"
  have q: "?Q a = q" using Cons.hyps(2) by (metis fun_upd_same list.sel(3))
  have "\<forall>b. b \<noteq> a \<longrightarrow> outranks (?Q a) (?Q b)"
    using Cons.prems(1) by (simp add: outranks_def flip: Cons.hyps(2))
  then have "merged ?Q (q @ ys)"
    using Cons.hyps(1) [of ?Q] Cons.prems(2) q by simp
  moreover have "least_head Q a p"
    unfolding least_head_def
  proof (intro conjI allI impI)
    show "\<exists>q. Q a = p # q" using Cons.hyps(2) by metis
  next
    fix b p' q'
    assume b: "Q b = p' # q'"
    show "(rank p, a) \<le> (rank p', b)"
    proof (cases "b = a")
      case True
      with b Cons.hyps(2) show ?thesis by simp
    next
      case False
      with Cons.prems(1) have "outranks (Q a) (Q b)" by blast
      then have "rank p < rank p'"
        using b by (simp add: outranks_def flip: Cons.hyps(2))
      then show ?thesis by simp
    qed
  qed
  ultimately have "merged Q (p # q @ ys)" by (intro merged_Cons)
  then show ?case by (simp flip: Cons.hyps(2))
qed

lemma sort_key_Nil_iff [simp]: "sort_key f xs = [] \<longleftrightarrow> xs = []"
  by (metis length_0_conv length_sort)

lemma order_domain_front:
  assumes "\<forall>p \<in> set as. p_submitter p = a" "\<forall>q \<in> set vs. p_submitter q \<noteq> a" "outranks as vs"
  shows "order_domain (as @ vs) = map p_id (sort_key p_nonce as) @ order_domain vs"
proof -
  obtain ys where ys: "order_domain vs = map p_id ys" "domain_order vs ys"
    by (rule order_domain_obtains)
  let ?Q = "\<lambda>b. sort_key p_nonce (filter (\<lambda>p. p_submitter p = b) (as @ vs))"
  have as: "filter (\<lambda>p. p_submitter p = b) as = (if b = a then as else [])" for b
    using assms(1) by (auto simp: filter_id_conv filter_empty_conv)
  have vs: "filter (\<lambda>p. p_submitter p = a) vs = []"
    using assms(2) by (simp add: filter_empty_conv)
  have Qa: "?Q a = sort_key p_nonce as"
    by (simp add: as vs)
  have "?Q(a := []) = (\<lambda>b. sort_key p_nonce (filter (\<lambda>p. p_submitter p = b) vs))"
    by (auto simp: fun_eq_iff as vs)
  then have "merged (?Q(a := [])) ys"
    using ys(2) by (simp add: domain_order_def)
  moreover have "\<forall>b. b \<noteq> a \<longrightarrow> outranks (?Q a) (?Q b)"
    using assms(3) by (auto simp: outranks_def as vs)
  ultimately have "domain_order (as @ vs) (sort_key p_nonce as @ ys)"
    using merged_front [of a ?Q ys] by (simp add: domain_order_def Qa del: filter_append)
  with ys(1) order_domain_eq show ?thesis by simp
qed

lemma order_domain_single:
  "\<forall>p \<in> set as. p_submitter p = a \<Longrightarrow> order_domain as = map p_id (sort_key p_nonce as)"
  using order_domain_front [of as a "[]"]
  by (simp add: outranks_def order_domain_def order_domain_checked_def submitter_queues_def
      bt_map_values_def bt_group_def bt_new_def merge_loop.simps queue_heads_def bt_iter_def
      List.map_filter_simps iter_min_def)

section \<open>Markets apart\<close>

lemma order_slot_one_market:
  assumes "\<forall>p \<in> set ps. p_market p = m" "ps \<noteq> []"
  shows "order_slot ps = order_domain ps"
proof -
  have "p_market ` set ps = {m}"
    using assms by (cases ps) auto
  then show ?thesis
    using assms(1) by (simp add: order_slot_eq markets_def in_market_def filter_id_conv)
qed

lemma sorted_list_of_set_apart:
  fixes A B :: "'a::linorder set"
  assumes "finite A" "finite B" "\<forall>x \<in> A. \<forall>y \<in> B. x < y"
  shows "sorted_list_of_set (A \<union> B) = sorted_list_of_set A @ sorted_list_of_set B"
  using assms
  by (intro sorted_distinct_set_unique) (auto simp: sorted_append less_imp_le)

lemma order_slot_apart:
  assumes "\<forall>p \<in> set fs. \<forall>q \<in> set ps. p_market p < p_market q"
  shows "order_slot (ps @ fs) = order_slot fs @ order_slot ps"
proof -
  have "markets (ps @ fs) = markets fs @ markets ps"
    using assms sorted_list_of_set_apart [of "p_market ` set fs" "p_market ` set ps"]
    by (simp add: markets_def image_Un Un_commute)
  moreover have "in_market m (ps @ fs) = in_market m fs" if "m \<in> set (markets fs)" for m
    using assms that by (fastforce simp: in_market_def filter_empty_conv)
  moreover have "in_market m (ps @ fs) = in_market m ps" if "m \<in> set (markets ps)" for m
    using assms that by (fastforce simp: in_market_def filter_empty_conv)
  ultimately show ?thesis
    by (simp add: order_slot_eq cong: map_cong del: markets_simps)
qed

section \<open>Fixtures\<close>

fun place_of :: "intent_id list \<Rightarrow> intent_id \<Rightarrow> nat option" where
  "place_of [] i = None"
| "place_of (placed # order) i = (if placed = i then Some 0 else map_option Suc (place_of order i))"

text \<open>\<open>None\<close> is the panic on an intent that was not sequenced.\<close>

definition places_of :: "intent_id list \<Rightarrow> pending list \<Rightarrow> nat list option" where
  "places_of order ps = those (map (\<lambda>p. place_of order (p_id p)) ps)"

lemma testkit_pending_simps [simp]:
  "p_market (testkit_pending K m s n f t) = Market m ''USDC''"
  "p_submitter (testkit_pending K m s n f t) = Address (array_repeat s)"
  "p_nonce (testkit_pending K m s n f t) = n"
  "p_priority_fee (testkit_pending K m s n f t) = f"
  "p_received_at (testkit_pending K m s n f t) = t"
  by (simp_all add: testkit_pending_def Let_def)

lemma slot_key_testkit_pending [simp]:
  "slot_key (testkit_pending K m s n f t) = (Market m ''USDC'', Address (array_repeat s), n)"
  by (simp add: slot_key_def)

lemma place_of_append:
  "place_of (xs @ ys) i =
     (if i \<in> set xs then place_of xs i else map_option (\<lambda>k. length xs + k) (place_of ys i))"
proof (induction xs)
  case Nil
  then show ?case by (cases "place_of ys i") simp_all
next
  case (Cons x xs)
  then show ?case by (cases "place_of ys i") simp_all
qed

lemma place_of_nth: "distinct xs \<Longrightarrow> k < length xs \<Longrightarrow> place_of xs (xs ! k) = Some k"
  by (induction xs arbitrary: k) (auto simp: nth_Cons split: nat.splits)

lemma those_map_Some: "\<forall>x \<in> set xs. f x = Some (g x) \<Longrightarrow> those (map f xs) = Some (map g xs)"
  by (induction xs) simp_all

lemma place_of_run:
  assumes "distinct (xs @ zs)" "k < length zs"
  shows "place_of (xs @ zs @ ys) (zs ! k) = Some (length xs + k)"
proof -
  have "place_of ((xs @ zs) @ ys) (zs ! k) = place_of (xs @ zs) (zs ! k)"
    using assms(2) by (subst place_of_append) simp
  also have "\<dots> = place_of (xs @ zs) ((xs @ zs) ! (length xs + k))"
    by simp
  also have "\<dots> = Some (length xs + k)"
    using assms by (intro place_of_nth) simp_all
  finally show ?thesis by simp
qed

text \<open>A group that was laid out as one run is found at consecutive places.\<close>

lemma places_of_run:
  assumes "distinct (xs @ map p_id ps)"
  shows "places_of (xs @ map p_id ps @ ys) ps = Some [length xs..<length xs + length ps]"
proof -
  have "place_of (xs @ map p_id ps @ ys) (p_id (ps ! k)) = Some (length xs + k)" if "k < length ps" for k
    using place_of_run [OF assms, of k ys] that by simp
  then have "map (\<lambda>p. place_of (xs @ map p_id ps @ ys) (p_id p)) ps =
      map (\<lambda>k. Some (length xs + k)) [0..<length ps]"
    by (intro nth_equalityI) simp_all
  moreover have "those (map (\<lambda>k. Some (length xs + k)) [0..<length ps]) =
      Some (map (\<lambda>k. length xs + k) [0..<length ps])"
    by (rule those_map_Some) simp
  moreover have "map (\<lambda>k. length xs + k) [0..<length ps] = [length xs..<length xs + length ps]"
    using map_add_upt [of "length xs" "length ps"] by (simp only: add.commute)
  ultimately show ?thesis by (simp only: places_of_def)
qed

section \<open>Attacks on the order\<close>

definition eth_victim :: "keccak \<Rightarrow> nat \<Rightarrow> pending list" where
  "eth_victim K k = map (\<lambda>n. testkit_pending K ''ETH'' 1 n 0 (100 + n)) (map word_of_nat [1..<Suc k])"

definition flood :: "keccak \<Rightarrow> string \<Rightarrow> u64 \<Rightarrow> nat \<Rightarrow> pending list" where
  "flood K market t k = map (\<lambda>n. testkit_pending K market 2 n u64_MAX t) (map word_of_nat [1..<Suc k])"

text \<open>The test tries the seeds below 16.\<close>

definition flooding_a_market_cannot_reorder_a_victims_own_intents :: "keccak \<Rightarrow> u64 \<Rightarrow> bool" where
  "flooding_a_market_cannot_reorder_a_victims_own_intents K seed \<longleftrightarrow>
    (let victim = eth_victim K 4;
         attacker = flood K ''ETH'' 50 20;
         buffer = attacker @ victim;
         order = order_slot (shuffled buffer seed)
     in length order = 24 \<and>
        (case places_of order victim of None \<Rightarrow> False | Some places \<Rightarrow> successively (<) places) \<and>
        places_of (order_slot buffer) attacker = Some [0..<20])"

definition an_attacker_can_interleave_with_a_victims_nonces_but_never_reorder_them :: "keccak \<Rightarrow> bool" where
  "an_attacker_can_interleave_with_a_victims_nonces_but_never_reorder_them K \<longleftrightarrow>
    (let fst0 = testkit_pending K ''ETH'' 1 1 0 10;
         snd0 = testkit_pending K ''ETH'' 1 2 0 30;
         wedge = testkit_pending K ''ETH'' 2 1 0 20
     in order_slot [snd0, wedge, fst0] = [p_id fst0, p_id wedge, p_id snd0])"

definition grinding_an_intent_id_wins_the_tie_and_nothing_above_it :: "keccak \<Rightarrow> bool" where
  "grinding_an_intent_id_wins_the_tie_and_nothing_above_it K \<longleftrightarrow>
    (let victim = testkit_pending K ''ETH'' 1 1 10 100;
         ground = arg_min_list p_id
           (map (\<lambda>nonce. testkit_pending K ''ETH'' 2 nonce 10 100) (map word_of_nat [1..<257]));
         outbidding = victim\<lparr>p_priority_fee := p_priority_fee victim + 1\<rparr>;
         earlier = victim\<lparr>p_received_at := p_received_at victim - 1\<rparr>
     in p_id ground < p_id victim \<and>
        order_slot [victim, ground] = [p_id ground, p_id victim] \<and>
        order_slot [ground, outbidding] = [p_id outbidding, p_id ground] \<and>
        order_slot [ground, earlier] = [p_id earlier, p_id ground])"

definition a_flood_in_one_market_cannot_touch_the_order_of_another :: "keccak \<Rightarrow> bool" where
  "a_flood_in_one_market_cannot_touch_the_order_of_another K \<longleftrightarrow>
    (let victim = eth_victim K 3;
         quiet = order_slot victim;
         attacker = flood K ''BTC'' 1 50;
         under_attack = order_slot (victim @ attacker)
     in places_of under_attack attacker = Some [0..<50] \<and> drop 50 under_attack = quiet)"

text \<open>The nonces of a test ascend, so a queue is in the order it was written.\<close>

lemma words_ascend:
  assumes "k < 2 ^ 64"
  shows "sorted_wrt (<) (map (word_of_nat :: nat \<Rightarrow> u64) [1..<Suc k])"
proof -
  have "unat (word_of_nat m :: u64) = m" if "m \<in> set [1..<Suc k]" for m
    using that assms by (intro unat_of_nat64) auto
  then have "sorted_wrt (\<lambda>m n. (word_of_nat m :: u64) < word_of_nat n) [1..<Suc k]"
    by (intro sorted_wrt_mono_rel [OF _ sorted_wrt_upt]) (simp only: word_less_nat_alt)
  then show ?thesis
    by (simp only: sorted_wrt_map)
qed

lemma sort_key_map_word:
  fixes f :: "u64 \<Rightarrow> pending"
  assumes "k < 2 ^ 64" "\<And>n. p_nonce (f n) = n"
  shows "sort_key p_nonce (map f (map word_of_nat [1..<Suc k])) = map f (map word_of_nat [1..<Suc k])"
proof (rule sort_key_id_if_sorted)
  show "sorted (map p_nonce (map f (map word_of_nat [1..<Suc k])))"
    using strict_sorted_imp_sorted [OF words_ascend [OF assms(1)]] assms(2) by (simp add: comp_def del: upt_Suc)
qed

lemma distinct_map_word:
  fixes f :: "u64 \<Rightarrow> 'b"
  assumes "k < 2 ^ 64" "\<And>m n. f m = f n \<Longrightarrow> m = n"
  shows "distinct (map f (map word_of_nat [1..<Suc k]))"
proof -
  have "distinct (map (word_of_nat :: nat \<Rightarrow> u64) [1..<Suc k])"
    using words_ascend [OF assms(1)] by (simp only: strict_sorted_iff)
  then have "inj_on (word_of_nat :: nat \<Rightarrow> u64) {1..<Suc k}"
    by (simp add: distinct_map del: upt_Suc)
  moreover have "inj f" using assms(2) by (intro injI)
  ultimately show ?thesis
    using comp_inj_on [of word_of_nat "{1..<Suc k}" f] inj_on_subset [of f UNIV]
    by (simp add: distinct_map del: upt_Suc)
qed

lemma eth_victim_queue: "k < 2 ^ 64 \<Longrightarrow> sort_key p_nonce (eth_victim K k) = eth_victim K k"
  unfolding eth_victim_def by (rule sort_key_map_word) simp_all

lemma flood_queue: "k < 2 ^ 64 \<Longrightarrow> sort_key p_nonce (flood K m t k) = flood K m t k"
  unfolding flood_def by (rule sort_key_map_word) simp_all

lemma length_eth_victim [simp]: "length (eth_victim K k) = k"
  by (simp add: eth_victim_def)

lemma length_flood [simp]: "length (flood K m t k) = k"
  by (simp add: flood_def)

lemma flood_Nil_iff [simp]: "flood K m t k = [] \<longleftrightarrow> k = 0" "eth_victim K k = [] \<longleftrightarrow> k = 0"
  by (simp_all add: flood_def eth_victim_def)

lemma mem_eth_victim:
  "p \<in> set (eth_victim K k) \<Longrightarrow>
    p_market p = Market ''ETH'' ''USDC'' \<and> p_submitter p = Address (array_repeat 1) \<and> p_priority_fee p = 0"
  by (auto simp: eth_victim_def)

lemma mem_flood:
  "p \<in> set (flood K m t k) \<Longrightarrow>
    p_market p = Market m ''USDC'' \<and> p_submitter p = Address (array_repeat 2) \<and> p_priority_fee p = u64_MAX"
  by (auto simp: flood_def)

lemma outranks_fee:
  "\<forall>p \<in> set as. \<forall>q \<in> set vs. p_priority_fee q < p_priority_fee p \<Longrightarrow> outranks as vs"
  by (simp add: outranks_def rank_def less_Reverse_def)

text \<open>Whoever bids the most for every intent has the front of the market, whatever the rest is.\<close>

lemma order_slot_flooded:
  assumes "k < 2 ^ 64" "n < 2 ^ 64" "0 < n"
  shows "order_slot (flood K ''ETH'' t k @ eth_victim K n) =
    map p_id (flood K ''ETH'' t k) @ map p_id (eth_victim K n)"
proof -
  have "order_slot (flood K ''ETH'' t k @ eth_victim K n) = order_domain (flood K ''ETH'' t k @ eth_victim K n)"
  proof (rule order_slot_one_market)
    show "\<forall>p \<in> set (flood K ''ETH'' t k @ eth_victim K n). p_market p = Market ''ETH'' ''USDC''"
      by (auto simp: mem_flood mem_eth_victim)
    show "flood K ''ETH'' t k @ eth_victim K n \<noteq> []"
      using assms(3) by simp
  qed
  also have "\<dots> = map p_id (sort_key p_nonce (flood K ''ETH'' t k)) @ order_domain (eth_victim K n)"
  proof (rule order_domain_front [where a = "Address (array_repeat 2)"])
    show "outranks (flood K ''ETH'' t k) (eth_victim K n)"
      by (rule outranks_fee) (simp add: mem_flood mem_eth_victim word_gt_0)
  qed (simp_all add: mem_flood mem_eth_victim)
  also have "order_domain (eth_victim K n) = map p_id (sort_key p_nonce (eth_victim K n))"
    by (rule order_domain_single [where a = "Address (array_repeat 1)"]) (simp add: mem_eth_victim)
  finally show ?thesis
    using assms by (simp add: flood_queue eth_victim_queue)
qed

lemma flood_keys:
  assumes "k < 2 ^ 64" "n < 2 ^ 64"
  shows "distinct (map slot_key (flood K m t k @ eth_victim K n))"
proof -
  have "distinct (map slot_key (flood K m t k))" "distinct (map slot_key (eth_victim K n))"
    unfolding flood_def eth_victim_def map_map comp_assoc
    using assms distinct_map_word [of k "\<lambda>n. slot_key (testkit_pending K m 2 n u64_MAX t)"]
      distinct_map_word [of n "\<lambda>n. slot_key (testkit_pending K ''ETH'' 1 n 0 (100 + n))"]
    by (simp_all add: comp_def del: upt_Suc)
  moreover have "slot_key ` set (flood K m t k) \<inter> slot_key ` set (eth_victim K n) = {}"
    by (auto simp: slot_key_def mem_flood mem_eth_victim)
  ultimately show ?thesis by simp
qed

lemma flooding_a_market_cannot_reorder_a_victims_own_intents_holds:
  assumes "distinct (map p_id (flood K ''ETH'' 50 20 @ eth_victim K 4))"
  shows "flooding_a_market_cannot_reorder_a_victims_own_intents K seed"
proof -
  let ?as = "flood K ''ETH'' 50 20" and ?vs = "eth_victim K 4"
  have shuffle: "order_slot (shuffled (?as @ ?vs) seed) = order_slot (?as @ ?vs)"
    using flood_keys [of 20 4 K "''ETH''" 50]
    by (intro order_slot_perm [symmetric]) (simp_all add: shuffled_permutes)
  have order: "order_slot (?as @ ?vs) = map p_id ?as @ map p_id ?vs"
    by (rule order_slot_flooded) simp_all
  have "places_of (order_slot (?as @ ?vs)) ?as = Some [0..<20]"
    using places_of_run [of "[]" ?as "map p_id ?vs"] assms order by simp
  moreover have "places_of (order_slot (?as @ ?vs)) ?vs = Some [20..<24]"
    using places_of_run [of "map p_id ?as" ?vs "[]"] assms order by simp
  moreover have "successively (<) [20..<24::nat]"
    by (simp add: upt_rec)
  moreover have "length (shuffled (?as @ ?vs) seed) = 24"
    using mset_eq_length [OF shuffled_permutes [of "?as @ ?vs" seed]] by simp
  ultimately show ?thesis
    by (simp add: flooding_a_market_cannot_reorder_a_victims_own_intents_def Let_def shuffle
        length_order_slot del: upt_rec_numeral)
qed

lemma an_attacker_can_interleave_with_a_victims_nonces_but_never_reorder_them_holds:
  "an_attacker_can_interleave_with_a_victims_nonces_but_never_reorder_them K"
  unfolding an_attacker_can_interleave_with_a_victims_nonces_but_never_reorder_them_def
  by (simp add: slot_eval word_le_nat_alt)

lemma grinding_an_intent_id_wins_the_tie_and_nothing_above_it_holds:
  assumes "p_id (arg_min_list p_id
        (map (\<lambda>nonce. testkit_pending K ''ETH'' 2 nonce 10 100) (map word_of_nat [1..<257]))) <
      p_id (testkit_pending K ''ETH'' 1 1 10 100)"
  shows "grinding_an_intent_id_wins_the_tie_and_nothing_above_it K"
proof -
  let ?space = "map (\<lambda>nonce. testkit_pending K ''ETH'' 2 nonce 10 100) (map word_of_nat [1..<257])"
  have "?space \<noteq> []" by simp
  then have "arg_min_list p_id ?space \<in> set ?space"
    by (rule arg_min_list_in)
  then obtain nonce where ground: "arg_min_list p_id ?space = testkit_pending K ''ETH'' 2 nonce 10 100"
    by fastforce
  show ?thesis
    using assms
    unfolding grinding_an_intent_id_wins_the_tie_and_nothing_above_it_def Let_def ground
    by (simp add: slot_eval word_le_nat_alt less_imp_le not_le)
qed

lemma a_flood_in_one_market_cannot_touch_the_order_of_another_holds:
  assumes "distinct (map p_id (flood K ''BTC'' 1 50))"
  shows "a_flood_in_one_market_cannot_touch_the_order_of_another K"
proof -
  let ?as = "flood K ''BTC'' 1 50" and ?vs = "eth_victim K 3"
  have "Market ''BTC'' ''USDC'' < Market ''ETH'' ''USDC''"
    by (simp add: less_market_def)
  then have "order_slot (?vs @ ?as) = order_slot ?as @ order_slot ?vs"
    by (intro order_slot_apart) (simp add: mem_flood mem_eth_victim)
  moreover have "order_slot ?as = map p_id ?as"
  proof -
    have "order_slot ?as = order_domain ?as"
      by (rule order_slot_one_market [of _ "Market ''BTC'' ''USDC''"]) (simp_all add: mem_flood)
    also have "\<dots> = map p_id (sort_key p_nonce ?as)"
      by (rule order_domain_single [where a = "Address (array_repeat 2)"]) (simp add: mem_flood)
    finally show ?thesis by (simp add: flood_queue)
  qed
  ultimately show ?thesis
    using places_of_run [of "[]" ?as "order_slot ?vs"] assms
    by (simp add: a_flood_in_one_market_cannot_touch_the_order_of_another_def Let_def del: upt_rec_numeral)
qed

end
