(* ===== verification/Admission_Attacks.thy ===== *)
theory Admission_Attacks
  imports Admission_Tests Ordering_Attacks
begin

text \<open>
  What spam does to the gate, and the tests of \<^verbatim>\<open>src/tests/adversarial.rs\<close> that drive it (the module
  \<open>spam\<close> and the two tests of \<open>reordering\<close> that submit). A refusal at a given time stays a refusal whatever is
  admitted in between, so a refused flood can be dropped from any interleaving of submitters. Racing
  threads take one lock, so a race is a sequence of submissions; the tests hold of each such sequence.
\<close>

section \<open>Runs of submissions\<close>

text \<open>\<open>buffered\<close>: the intents the log admitted, as the sequencer would hold them.\<close>

definition buffered_of :: "entry \<Rightarrow> pending option" where
  "buffered_of e = (case e of IntentReceived i intent t \<Rightarrow> Some (pending_new i intent t) | _ \<Rightarrow> None)"

definition buffered :: "mem_log \<Rightarrow> pending list option" where
  "buffered log =
    (case mem_read_from position_ZERO log of
       Ok pes \<Rightarrow> Some (List.map_filter (\<lambda>pe. buffered_of (snd pe)) pes)
     | Err _ \<Rightarrow> None)"

lemma buffered_eq: "buffered log = Some (List.map_filter buffered_of (ml_entries log))"
proof -
  have "List.map_filter (\<lambda>pe. f (snd pe)) pes = List.map_filter f (map snd pes)" for f :: "entry \<Rightarrow> pending option"
    and pes :: "(position \<times> entry) list"
    by (induction pes) (simp_all add: List.map_filter_simps split: option.split)
  then show ?thesis
    by (simp add: buffered_def mem_read_from_eq position_ZERO_def offset_def)
qed

text \<open>Intents submitted at one time.\<close>

definition all_at :: "u64 \<Rightarrow> intent list \<Rightarrow> (intent \<times> u64) list" where
  "all_at t = map (\<lambda>intent. (intent, t))"

lemma submit_all_rejected:
  assumes "\<forall>(intent, t) \<in> set xs. admission_check a (intent_id_of K intent) intent t = Err (f intent t)"
  shows "submit_all K xs (a, l) = (map (\<lambda>(intent, t). Err (AdmitRejected (f intent t))) xs, a, l)"
  using assms
proof (induction xs)
  case (Cons x xs)
  obtain intent t where x: "x = (intent, t)" by (cases x)
  with Cons.prems have "admit_and_append mem_ops K intent t (a, l) = (Err (AdmitRejected (f intent t)), a, l)"
    by (simp add: admit_and_append_def Let_def)
  with Cons x show ?case by simp
qed simp

lemma admission_record_keeps_refusing:
  assumes "admission_check a i intent t \<noteq> Ok ()"
  shows "admission_check (admission_record j s n a) i intent t \<noteq> Ok ()"
  using assms
  by (auto simp: admission_check_Ok_iff nonce_advances_def admission_record_def Let_def split: if_splits option.splits)

text \<open>A refused flood changes nothing for the submissions it is interleaved with.\<close>

lemma submit_all_flooded:
  assumes "\<forall>(intent, t) \<in> set xs. intent \<notin> H \<longrightarrow> admission_check a (intent_id_of K intent) intent t \<noteq> Ok ()"
    and "submit_all K (filter (\<lambda>(intent, t). intent \<in> H) xs) (a, l) = (rs, s)" "list_all isOk rs"
  shows "\<exists>rs'. submit_all K xs (a, l) = (rs', s) \<and> list_all2 (\<lambda>(intent, t) r. isOk r \<longleftrightarrow> intent \<in> H) xs rs'"
  using assms
proof (induction xs arbitrary: a l rs)
  case (Cons x xs)
  obtain intent t where x: "x = (intent, t)" by (cases x)
  obtain r a1 l1 where step: "admit_and_append mem_ops K intent t (a, l) = (r, a1, l1)"
    by (metis prod_cases3)
  have a1: "a1 = (if isOk r then admission_record (intent_id_of K intent) (i_submitter intent) (i_nonce intent) a else a)"
    and l1: "\<not> isOk r \<Longrightarrow> l1 = l" and r: "admission_check a (intent_id_of K intent) intent t \<noteq> Ok () \<Longrightarrow> \<not> isOk r"
    using step by (auto simp: admit_and_append_def Let_def mem_append_eq split: sum.splits)
  have refused: "\<forall>(intent, t) \<in> set xs. intent \<notin> H \<longrightarrow> admission_check a1 (intent_id_of K intent) intent t \<noteq> Ok ()"
    using Cons.prems(1) admission_record_keeps_refusing a1 by (cases "isOk r") fastforce+
  show ?case
  proof (cases "intent \<in> H")
    case True
    obtain qs where "rs = r # qs" "submit_all K (filter (\<lambda>(intent, t). intent \<in> H) xs) (a1, l1) = (qs, s)"
      using Cons.prems(2) True step by (auto simp: x Let_def split: prod.splits)
    with Cons.IH [OF refused] Cons.prems(3) True step show ?thesis
      by (fastforce simp: x Let_def)
  next
    case False
    with Cons.prems(1) r have "\<not> isOk r" by (simp add: x)
    with a1 l1 have "a1 = a" "l1 = l" by simp_all
    with Cons.IH [where a = a and l = l and rs = rs] refused Cons.prems(2,3) False step \<open>\<not> isOk r\<close> show ?thesis
      by (fastforce simp: x Let_def)
  qed
qed auto

text \<open>Valid intents in time, with ids the gate has not seen and nonces that ascend, are all admitted.\<close>

definition fresh_ids :: "keccak \<Rightarrow> admission \<Rightarrow> intent list \<Rightarrow> bool" where
  "fresh_ids K a xs \<longleftrightarrow> distinct (map (intent_id_of K) xs) \<and> intent_id_of K ` set xs \<inter> adm_seen a = {}"

definition nonces_ascend :: "admission \<Rightarrow> intent list \<Rightarrow> bool" where
  "nonces_ascend a xs \<longleftrightarrow> (\<forall>x \<in> set xs. nonce_advances a x) \<and>
     sorted_wrt (\<lambda>x y. i_submitter x = i_submitter y \<longrightarrow> i_nonce x < i_nonce y) xs"

definition record_all :: "keccak \<Rightarrow> intent list \<Rightarrow> admission \<Rightarrow> admission" where
  "record_all K = fold (\<lambda>x. admission_record (intent_id_of K x) (i_submitter x) (i_nonce x))"

definition received_at_all :: "keccak \<Rightarrow> u64 \<Rightarrow> intent list \<Rightarrow> entry list" where
  "received_at_all K t = map (\<lambda>x. IntentReceived (intent_id_of K x) x t)"

lemma record_all_simps [simp]:
  "record_all K [] a = a"
  "record_all K (x # xs) a = record_all K xs (admission_record (intent_id_of K x) (i_submitter x) (i_nonce x) a)"
  "record_all K (xs @ ys) a = record_all K ys (record_all K xs a)"
  by (simp_all add: record_all_def)

lemma adm_guarantee_record_all [simp]: "adm_guarantee (record_all K xs a) = adm_guarantee a"
  by (induction xs arbitrary: a) simp_all

lemma record_simps [simp]:
  "adm_seen (admission_record i s n a) = insert i (adm_seen a)"
  "dom (adm_nonces (admission_record i s n a)) = insert s (dom (adm_nonces a))"
  "s \<noteq> s' \<Longrightarrow> adm_nonces (admission_record i s n a) s' = adm_nonces a s'"
  by (simp_all add: admission_record_def Let_def)

lemma adm_seen_record_all [simp]: "adm_seen (record_all K xs a) = adm_seen a \<union> intent_id_of K ` set xs"
  by (induction xs arbitrary: a) simp_all

lemma dom_record_all: "dom (adm_nonces (record_all K xs a)) = dom (adm_nonces a) \<union> i_submitter ` set xs"
  by (induction xs arbitrary: a) simp_all

lemma nonces_record_all_other:
  "\<forall>x \<in> set xs. i_submitter x \<noteq> s \<Longrightarrow> adm_nonces (record_all K xs a) s = adm_nonces a s"
  by (induction xs arbitrary: a) simp_all

lemma admission_check_record_all_refuses:
  "admission_check a i intent t \<noteq> Ok () \<Longrightarrow> admission_check (record_all K xs a) i intent t \<noteq> Ok ()"
proof (induction xs arbitrary: a)
  case (Cons x xs)
  from Cons.IH [OF admission_record_keeps_refusing [OF Cons.prems]] show ?case by simp
qed simp

lemma submit_all_admitted:
  assumes "\<forall>x \<in> set xs. intent_valid x \<and> window_met (adm_guarantee a) x t"
    and "fresh_ids K a xs" "nonces_ascend a xs"
  shows "\<exists>rs l'. submit_all K (all_at t xs) (a, l) = (rs, record_all K xs a, l') \<and> list_all isOk rs \<and>
    ml_entries l' = ml_entries l @ received_at_all K t xs"
  using assms
proof (induction xs arbitrary: a l)
  case Nil
  then show ?case by (simp add: all_at_def received_at_all_def)
next
  case (Cons x xs)
  let ?a = "admission_record (intent_id_of K x) (i_submitter x) (i_nonce x) a"
  have "admission_check a (intent_id_of K x) x t = Ok ()"
    using Cons.prems by (simp add: admission_check_Ok_iff fresh_ids_def nonces_ascend_def)
  then have step: "admit_and_append mem_ops K x t (a, l) =
      (Ok (intent_id_of K x, position_of (length (ml_entries l))), ?a,
       snd (mem_append (IntentReceived (intent_id_of K x) x t) l))"
    by (simp add: admit_and_append_def Let_def mem_append_eq)
  have "fresh_ids K ?a xs"
    using Cons.prems(2) by (auto simp: fresh_ids_def admission_record_def Let_def)
  moreover have "nonces_ascend ?a xs"
    using Cons.prems(3)
    by (auto simp: nonces_ascend_def nonce_advances_def admission_record_def Let_def split: if_splits option.splits)
  ultimately obtain rs l' where
    "submit_all K (all_at t xs) (?a, snd (mem_append (IntentReceived (intent_id_of K x) x t) l)) =
      (rs, record_all K xs ?a, l')" "list_all isOk rs"
    "ml_entries l' = ml_entries (snd (mem_append (IntentReceived (intent_id_of K x) x t) l)) @ received_at_all K t xs"
    using Cons.IH [of ?a "snd (mem_append (IntentReceived (intent_id_of K x) x t) l)"] Cons.prems(1)
    by (auto simp: Ball_def)
  then show ?case
    by (simp add: all_at_def step received_at_all_def mem_append_eq)
qed

lemma buffered_received_at_all:
  "List.map_filter buffered_of (received_at_all K t xs) = map (\<lambda>x. pending_new (intent_id_of K x) x t) xs"
  by (induction xs) (simp_all add: received_at_all_def buffered_of_def List.map_filter_simps)

section \<open>Replays\<close>

definition replaying_a_victims_intent_cannot_place_it_twice :: "keccak \<Rightarrow> bool" where
  "replaying_a_victims_intent_cannot_place_it_twice K \<longleftrightarrow>
    (let victim = dummy 1;
         (r, a, l) = admit_and_append mem_ops K victim TEST_NOW (fresh_gate, mem_log_new);
         attempts = map (\<lambda>attempt. (victim, TEST_NOW + attempt)) (map word_of_nat [0..<64]);
         (errs, a, l) = submit_all K attempts (a, l)
     in isOk r \<and> list_all (\<lambda>err. err = Err (AdmitRejected (Replay (intent_id_of K victim)))) errs \<and>
        map_option order_slot (buffered l) = Some [intent_id_of K victim])"

text \<open>The 1600 submissions of the eight spammers are the same, so every interleaving is.\<close>

definition a_racing_replay_flood_does_not_disturb_the_committed_order :: "keccak \<Rightarrow> bool" where
  "a_racing_replay_flood_does_not_disturb_the_committed_order K \<longleftrightarrow>
    (let victim = live_intent 200 1 TEST_NOW;
         bait = live_intent 1 1 TEST_NOW;
         (rs, a, l) = submit_all K (all_at TEST_NOW [bait, victim]) (fresh_gate, mem_log_new);
         (errs, a, l) = submit_all K (all_at TEST_NOW (replicate (8 * 200) bait)) (a, l)
     in list_all isOk rs \<and> list_all (\<lambda>err. \<not> isOk err) errs \<and>
        map_option order_slot (buffered l) =
          Some (order_slot [pending_new (intent_id_of K bait) bait TEST_NOW,
                            pending_new (intent_id_of K victim) victim TEST_NOW]))"

section \<open>Spam\<close>

text \<open>Every rejection kind, as a spammer would send it.\<close>

definition spam_WINDOW_MS :: u64 where "spam_WINDOW_MS = 1000"

definition spam :: "u8 \<Rightarrow> u64 \<Rightarrow> intent list" where
  "spam who now =
     [(live_intent who 1 now)\<lparr>i_size := 0\<rparr>,
      (live_intent who 2 now)\<lparr>i_max_slippage_bps := - 1\<rparr>,
      (live_intent who 3 now)\<lparr>i_deadline_ms := now - 1\<rparr>,
      (live_intent who 4 now)\<lparr>i_deadline_ms := now + spam_WINDOW_MS - 1\<rparr>]"

text \<open>The interleavings of the threads' submissions.\<close>

fun interleavings :: "'a list list \<Rightarrow> 'a list set" where
  "interleavings [] = {[]}"
| "interleavings (xs # xss) = (\<Union>ys \<in> interleavings xss. shuffles xs ys)"

definition flood_baits :: "(intent \<times> intent) list" where
  "flood_baits = map (\<lambda>who. (live_intent who 1 TEST_NOW, live_intent (who + 100) 1 TEST_NOW)) [0, 1, 2, 3, 4, 5, 6, 7]"

text \<open>Each spammer's admitted bait, and an address opened at the top of the nonce space.\<close>

definition flood_seeds :: "intent list" where
  "flood_seeds = concat (map (\<lambda>who. [live_intent who 1 TEST_NOW, live_intent (who + 100) u64_MAX TEST_NOW])
     [0, 1, 2, 3, 4, 5, 6, 7])"

definition honest_flow :: "intent list" where
  "honest_flow = map (\<lambda>n. live_intent 200 n TEST_NOW) (map word_of_nat [1..<201])"

fun spammer :: "intent \<times> intent \<Rightarrow> intent list" where
  "spammer (replay, stale) = concat (replicate 100 (replay # stale # spam 250 TEST_NOW))"

definition a_flood_of_rejections_never_reaches_the_log :: "keccak \<Rightarrow> intent list \<Rightarrow> bool" where
  "a_flood_of_rejections_never_reaches_the_log K schedule \<longleftrightarrow>
    (let (rs, a, l) = submit_all K (all_at TEST_NOW flood_seeds) (fresh_gate, mem_log_new);
         seeded = length (ml_entries l);
         (rs', a, l) = submit_all K (all_at TEST_NOW schedule) (a, l)
     in list_all isOk rs \<and> list_all2 (\<lambda>intent r. isOk r \<longleftrightarrow> intent \<in> set honest_flow) schedule rs' \<and>
        (case buffered l of
           None \<Rightarrow> False
         | Some ps \<Rightarrow> length ps = seeded + 200 \<and>
             (\<forall>intent \<in> set honest_flow. count_list (map p_id ps) (intent_id_of K intent) = 1)))"

definition spam_leaves_no_trace_in_the_gates_state :: "keccak \<Rightarrow> bool" where
  "spam_leaves_no_trace_in_the_gates_state K \<longleftrightarrow>
    (let honest = live_intent 200 1 TEST_NOW;
         (r, a, l) = admit_and_append mem_ops K honest TEST_NOW (fresh_gate, mem_log_new);
         flood = concat (map (\<lambda>round. all_at (TEST_NOW + round) (honest # spam 9 TEST_NOW)) (map word_of_nat [0..<250]));
         (errs, a, l) = submit_all K flood (a, l)
     in isOk r \<and> list_all (\<lambda>err. \<not> isOk err) errs \<and> admission_tracked a = (1, 1) \<and> mem_head l = Position 1)"

definition every_admitted_intent_is_remembered_for_good :: "keccak \<Rightarrow> bool" where
  "every_admitted_intent_is_remembered_for_good K \<longleftrightarrow>
    (let flood = map (\<lambda>n. live_intent 7 n TEST_NOW) (map word_of_nat [1..<501]);
         (rs, a, l) = submit_all K (all_at TEST_NOW flood) (fresh_gate, mem_log_new);
         much_later = TEST_NOW + spam_WINDOW_MS * 1000;
         (r, a', l') = admit_and_append mem_ops K (live_intent 7 501 much_later) much_later (a, l)
     in list_all isOk rs \<and> admission_tracked a = (500, 1) \<and> isOk r \<and> admission_tracked a' = (501, 1))"

definition forged_as :: "address \<Rightarrow> u64 \<Rightarrow> u64 \<Rightarrow> intent" where
  "forged_as victim nonce fee = (dummy 0)\<lparr>i_submitter := victim, i_nonce := nonce, i_priority_fee := fee\<rparr>"

definition anyone_can_burn_another_accounts_nonce_space :: "keccak \<Rightarrow> bool" where
  "anyone_can_burn_another_accounts_nonce_space K \<longleftrightarrow>
    (let victim = i_submitter (dummy 1);
         (r, a, l) = admit_and_append mem_ops K (forged_as victim u64_MAX 0) TEST_NOW (fresh_gate, mem_log_new);
         (errs, a, l) = submit_all K (all_at (TEST_NOW + 1)
           (map (\<lambda>nonce. forged_as victim nonce 7) [0, 1, 42, u64_MAX])) (a, l)
     in isOk r \<and> errs = map (\<lambda>nonce. Err (AdmitRejected (StaleNonce nonce u64_MAX))) [0, 1, 42, u64_MAX])"

text \<open>The schedule is the order in which the threads took the lock, by the fee of each.\<close>

definition only_one_of_a_racing_nonce_burn_is_admitted :: "keccak \<Rightarrow> u64 list \<Rightarrow> bool" where
  "only_one_of_a_racing_nonce_burn_is_admitted K schedule \<longleftrightarrow>
    (let victim = i_submitter (dummy 1);
         (rs, a, l) = submit_all K (all_at TEST_NOW (map (forged_as victim u64_MAX) schedule)) (fresh_gate, mem_log_new)
     in length (filter isOk rs) = 1 \<and> mem_head l = Position 1)"

definition a_maximum_bid_is_free_and_takes_every_position :: "keccak \<Rightarrow> bool" where
  "a_maximum_bid_is_free_and_takes_every_position K \<longleftrightarrow>
    (let victims = map (\<lambda>n. live_intent 200 n TEST_NOW) [1, 2, 3, 4];
         attacker = map (\<lambda>n. (live_intent 9 n TEST_NOW)\<lparr>i_priority_fee := u64_MAX\<rparr>) [1, 2, 3, 4];
         (rs, a, l) = submit_all K (all_at TEST_NOW (victims @ attacker)) (fresh_gate, mem_log_new)
     in list_all isOk rs \<and>
        map_option (\<lambda>ps. take 4 (order_slot ps)) (buffered l) = Some (map (intent_id_of K) attacker))"

section \<open>The tests hold\<close>

lemma fresh_gate_simps [simp]:
  "adm_guarantee fresh_gate = admission_guarantee" "adm_seen fresh_gate = {}" "adm_nonces fresh_gate = Map.empty"
  by (simp_all add: fresh_gate_def admission_new_def)

lemma live_intent_simps [simp]:
  "i_submitter (live_intent s n t) = Address (array_repeat s)" "i_nonce (live_intent s n t) = n"
  "i_priority_fee (live_intent s n t) = n" "i_market (live_intent s n t) = Market ''ETH'' ''USDC''"
  by (simp_all add: live_intent_def)

lemma live_intent_promised [simp]:
  "intent_valid (live_intent s n t)" "window_met admission_guarantee (live_intent s n TEST_NOW) TEST_NOW"
  by (simp_all add: live_intent_def intent_valid_def window_met_def MAX_SLIPPAGE_BPS_def TEST_NOW_def)

lemma ml_entries_new [simp]: "ml_entries mem_log_new = []"
  by (simp add: mem_log_new_def)

lemma all_at_simps [simp]:
  "all_at t [] = []" "all_at t (x # xs) = (x, t) # all_at t xs" "all_at t (xs @ ys) = all_at t xs @ all_at t ys"
  by (simp_all add: all_at_def)

lemma dummy_promised:
  assumes "attempt < (64 :: u64)"
  shows "intent_valid (dummy 1)" "window_met admission_guarantee (dummy 1) (TEST_NOW + attempt)"
proof -
  have "unat attempt < 64"
    using assms by (simp add: word_less_nat_alt)
  then show "window_met admission_guarantee (dummy 1) (TEST_NOW + attempt)"
    by (simp add: window_met_def word_less_nat_alt word_le_nat_alt TEST_NOW_def unat_word_ariths)
qed (simp add: intent_valid_def MAX_SLIPPAGE_BPS_def)

lemma seen_is_replay:
  assumes "intent_valid x" "window_met (adm_guarantee a) x t" "i \<in> adm_seen a"
  shows "admission_check a i x t = Err (Replay i)"
  using assms by (auto simp: admission_check_def intent_valid_def window_met_def Let_def)

lemma replaying_a_victims_intent_cannot_place_it_twice_holds:
  "replaying_a_victims_intent_cannot_place_it_twice K"
proof -
  let ?i = "intent_id_of K (dummy 1)"
  let ?a = "admission_record ?i (i_submitter (dummy 1)) (i_nonce (dummy 1)) fresh_gate"
  let ?attempts = "map (\<lambda>attempt. (dummy 1, TEST_NOW + attempt)) (map word_of_nat [0..<64])"
  define l where "l = snd (mem_append (IntentReceived ?i (dummy 1) TEST_NOW) mem_log_new)"
  have "admission_check fresh_gate ?i (dummy 1) TEST_NOW = Ok ()"
    using dummy_promised [of 0] by (simp add: admission_check_Ok_iff nonce_advances_def)
  then have first: "admit_and_append mem_ops K (dummy 1) TEST_NOW (fresh_gate, mem_log_new) = (Ok (?i, Position 0), ?a, l)"
    by (simp add: admit_and_append_def Let_def mem_append_eq l_def position_of_def)
  have "admission_check ?a ?i (dummy 1) (TEST_NOW + word_of_nat k) = Err (Replay ?i)" if "k < 64" for k
    using that dummy_promised [of "word_of_nat k"]
    by (intro seen_is_replay) (simp_all add: word_less_nat_alt unat_of_nat64)
  then have "submit_all K ?attempts (?a, l) =
      (map (\<lambda>(intent, t). Err (AdmitRejected (Replay ?i))) ?attempts, ?a, l)"
    by (intro submit_all_rejected) auto
  moreover have "buffered l = Some [pending_new ?i (dummy 1) TEST_NOW]"
    by (simp add: buffered_eq l_def mem_append_eq buffered_of_def List.map_filter_simps)
  moreover have "order_slot [pending_new ?i (dummy 1) TEST_NOW] = [?i]"
    by (simp add: slot_eval)
  ultimately show ?thesis
    unfolding replaying_a_victims_intent_cannot_place_it_twice_def Let_def first
    by (simp add: list_all_iff)
qed

lemma not_isOk: "\<not> isOk r \<longleftrightarrow> (\<exists>e. r = Err e)"
  by (cases r) simp_all

lemma a_racing_replay_flood_does_not_disturb_the_committed_order_holds:
  assumes "intent_id_of K (live_intent 1 1 TEST_NOW) \<noteq> intent_id_of K (live_intent 200 1 TEST_NOW)"
  shows "a_racing_replay_flood_does_not_disturb_the_committed_order K"
proof -
  let ?bait = "live_intent 1 1 TEST_NOW" and ?victim = "live_intent 200 1 TEST_NOW"
  let ?a = "record_all K [?bait, ?victim] fresh_gate"
  obtain rs l where run: "submit_all K (all_at TEST_NOW [?bait, ?victim]) (fresh_gate, mem_log_new) = (rs, ?a, l)"
      "list_all isOk rs" "ml_entries l = received_at_all K TEST_NOW [?bait, ?victim]"
    using submit_all_admitted [of "[?bait, ?victim]" fresh_gate TEST_NOW K mem_log_new] assms
    by (auto simp: fresh_ids_def nonces_ascend_def nonce_advances_def)
  have "admission_check ?a (intent_id_of K ?bait) ?bait TEST_NOW = Err (Replay (intent_id_of K ?bait))"
    by (rule seen_is_replay) simp_all
  then have flood: "submit_all K (all_at TEST_NOW (replicate n ?bait)) (?a, l) =
      (map (\<lambda>(intent, t). Err (AdmitRejected (Replay (intent_id_of K intent)))) (all_at TEST_NOW (replicate n ?bait)), ?a, l)" for n
    by (intro submit_all_rejected) (simp add: all_at_def)
  have "buffered l = Some [pending_new (intent_id_of K ?bait) ?bait TEST_NOW, pending_new (intent_id_of K ?victim) ?victim TEST_NOW]"
    using buffered_received_at_all [of K TEST_NOW "[?bait, ?victim]"] by (simp add: buffered_eq run(3))
  with run(2) show ?thesis
    unfolding a_racing_replay_flood_does_not_disturb_the_committed_order_def Let_def run(1) prod.case flood
    by (simp add: list_all_iff split_beta)
qed

lemma nonce_recorded:
  "x \<in> set xs \<Longrightarrow> \<exists>n. adm_nonces (record_all K xs a) (i_submitter x) = Some n \<and> i_nonce x \<le> n"
proof (induction xs rule: rev_induct)
  case (snoc y ys)
  show ?case
  proof (cases "x = y")
    case True
    then show ?thesis
      by (simp add: admission_record_def Let_def)
  next
    case False
    with snoc obtain n where "adm_nonces (record_all K ys a) (i_submitter x) = Some n" "i_nonce x \<le> n"
      by auto
    then show ?thesis
      by (cases "i_submitter y = i_submitter x") (auto simp: admission_record_def Let_def max_def)
  qed
qed simp

lemma seen_is_refused: "x \<in> set xs \<Longrightarrow> admission_check (record_all K xs a) (intent_id_of K x) y t \<noteq> Ok ()"
  by (simp add: admission_check_Ok_iff)

lemma stale_is_refused:
  assumes "x \<in> set xs" "i_submitter y = i_submitter x" "i_nonce y \<le> i_nonce x"
  shows "admission_check (record_all K xs a) i y t \<noteq> Ok ()"
proof -
  obtain n where n: "adm_nonces (record_all K xs a) (i_submitter x) = Some n" "i_nonce x \<le> n"
    using nonce_recorded [OF assms(1)] by blast
  moreover have "\<not> n < i_nonce y"
    using n(2) assms(3) by simp
  ultimately show ?thesis
    by (simp add: admission_check_Ok_iff nonce_advances_def assms(2))
qed

lemma u16_MAX_eq: "(- 1 :: u16) = 65535"
  by simp

lemma spam_is_refused:
  assumes "x \<in> set (spam who TEST_NOW)" "adm_guarantee a = admission_guarantee" "round < 250"
  shows "admission_check a i x (TEST_NOW + round) \<noteq> Ok ()"
proof -
  have "unat round < 250"
    using assms(3) by (simp add: word_less_nat_alt)
  then have "\<not> intent_valid x \<or> \<not> window_met admission_guarantee x (TEST_NOW + round)"
    using assms(1)
    by (auto simp: spam_def intent_valid_def window_met_def live_intent_def MAX_SLIPPAGE_BPS_def
        spam_WINDOW_MS_def TEST_NOW_def word_less_nat_alt word_le_nat_alt unat_word_ariths u16_MAX_eq)
  with assms(2) show ?thesis
    by (auto simp: admission_check_Ok_iff)
qed

lemma filter_interleavings: "zs \<in> interleavings xss \<Longrightarrow> filter P zs \<in> interleavings (map (filter P) xss)"
proof (induction xss arbitrary: zs)
  case (Cons xs xss)
  then obtain ys where ys: "ys \<in> interleavings xss" "zs \<in> shuffles xs ys"
    by auto
  then have "filter P zs \<in> shuffles (filter P xs) (filter P ys)"
    by (auto simp flip: filter_shuffles)
  with Cons.IH [OF ys(1)] show ?case by auto
qed simp

lemma interleavings_Nil: "\<forall>ys \<in> set xss. ys = [] \<Longrightarrow> interleavings xss = {[]}"
  by (induction xss) simp_all

lemma set_interleavings: "zs \<in> interleavings xss \<Longrightarrow> set zs = \<Union> (set ` set xss)"
  by (induction xss arbitrary: zs) (auto simp: set_shuffles)

lemma set_spammer: "set (spammer (replay, stale)) = {replay, stale} \<union> set (spam 250 TEST_NOW)"
  by (simp add: insert_commute)

lemma honest_not_spam:
  assumes "x \<in> set (spammer b)" "b \<in> set flood_baits"
  shows "x \<notin> set honest_flow"
proof -
  obtain r s where b: "b = (r, s)" by (cases b)
  have "i_submitter x \<noteq> Address (array_repeat 200)"
    using assms unfolding b set_spammer
    by (auto simp: flood_baits_def spam_def)
  then show ?thesis
    by (auto simp: honest_flow_def)
qed

lemma honest_schedule:
  assumes "schedule \<in> interleavings (honest_flow # map spammer flood_baits)"
  shows "filter (\<lambda>x. x \<in> set honest_flow) schedule = honest_flow"
proof -
  have "filter (\<lambda>x. x \<in> set honest_flow) honest_flow = honest_flow"
    by (simp add: filter_id_conv)
  moreover have "filter (\<lambda>x. x \<in> set honest_flow) (spammer b) = []" if "b \<in> set flood_baits" for b
    using honest_not_spam [OF _ that] by (simp add: filter_empty_conv)
  then have "interleavings (map (filter (\<lambda>x. x \<in> set honest_flow)) (map spammer flood_baits)) = {[]}"
    by (intro interleavings_Nil) auto
  ultimately show ?thesis
    using filter_interleavings [OF assms, of "\<lambda>x. x \<in> set honest_flow"] by simp
qed

lemma count_list_once: "distinct xs \<Longrightarrow> x \<in> set xs \<Longrightarrow> count_list xs x = 1"
  by (induction xs) auto

lemma honest_ascends:
  "k < 2 ^ 64 \<Longrightarrow> sorted_wrt (\<lambda>x y. i_submitter x = i_submitter y \<longrightarrow> i_nonce x < i_nonce y)
    (map (\<lambda>n. live_intent s n t) (map word_of_nat [1..<Suc k]))"
  using words_ascend [of k] by (simp only: sorted_wrt_map live_intent_simps simp_thms)

lemma flood_seeds_admitted:
  assumes "distinct (map (intent_id_of K) flood_seeds)"
  shows "\<exists>rs l. submit_all K (all_at TEST_NOW flood_seeds) (fresh_gate, mem_log_new) =
      (rs, record_all K flood_seeds fresh_gate, l) \<and> list_all isOk rs \<and>
    ml_entries l = received_at_all K TEST_NOW flood_seeds"
proof -
  have "sorted_wrt (\<lambda>x y. i_submitter x = i_submitter y \<longrightarrow> i_nonce x < i_nonce y) flood_seeds"
    by (simp add: flood_seeds_def)
  then have "nonces_ascend fresh_gate flood_seeds"
    by (simp add: nonces_ascend_def nonce_advances_def)
  moreover have "fresh_ids K fresh_gate flood_seeds"
    using assms by (simp add: fresh_ids_def)
  moreover have "\<forall>x \<in> set flood_seeds. intent_valid x \<and> window_met (adm_guarantee fresh_gate) x TEST_NOW"
    by (simp add: flood_seeds_def)
  ultimately show ?thesis
    using submit_all_admitted [of flood_seeds fresh_gate TEST_NOW K mem_log_new] by simp
qed

lemma baits_refused:
  assumes "x \<in> set (spammer b)" "b \<in> set flood_baits"
  shows "admission_check (record_all K flood_seeds fresh_gate) (intent_id_of K x) x TEST_NOW \<noteq> Ok ()"
proof -
  obtain who where who: "b = (live_intent who 1 TEST_NOW, live_intent (who + 100) 1 TEST_NOW)"
    "who \<in> set [0, 1, 2, 3, 4, 5, 6, 7]"
    using assms(2) unfolding flood_baits_def set_map by (rule imageE)
  have "set [live_intent who 1 TEST_NOW, live_intent (who + 100) u64_MAX TEST_NOW] \<subseteq> set flood_seeds"
    unfolding flood_seeds_def set_concat set_map by (rule UN_upper, rule rev_image_eqI [OF who(2)], rule refl)
  then have seeds: "live_intent who 1 TEST_NOW \<in> set flood_seeds" "live_intent (who + 100) u64_MAX TEST_NOW \<in> set flood_seeds"
    by simp_all
  from assms(1) [unfolded who(1) set_spammer]
  consider "x = live_intent who 1 TEST_NOW" | "x = live_intent (who + 100) 1 TEST_NOW" | "x \<in> set (spam 250 TEST_NOW)"
    by blast
  then show ?thesis
  proof cases
    case 1
    with seen_is_refused [OF seeds(1)] show ?thesis by simp
  next
    case 2
    with stale_is_refused [OF seeds(2), of x] show ?thesis by simp
  next
    case 3
    with spam_is_refused [of x 250 "record_all K flood_seeds fresh_gate" 0] show ?thesis by simp
  qed
qed

lemma a_flood_of_rejections_never_reaches_the_log_holds:
  assumes "distinct (map (intent_id_of K) (flood_seeds @ honest_flow))"
    and "schedule \<in> interleavings (honest_flow # map spammer flood_baits)"
  shows "a_flood_of_rejections_never_reaches_the_log K schedule"
proof -
  let ?a = "record_all K flood_seeds fresh_gate"
  let ?run = "\<lambda>xs. submit_all K (all_at TEST_NOW xs)"
  obtain rs l where seeded: "?run flood_seeds (fresh_gate, mem_log_new) = (rs, ?a, l)" "list_all isOk rs"
    "ml_entries l = received_at_all K TEST_NOW flood_seeds"
  proof -
    have "distinct (map (intent_id_of K) flood_seeds)" using assms(1) by simp
    from flood_seeds_admitted [OF this] that show thesis by blast
  qed
  have "\<forall>y \<in> set flood_seeds. i_submitter y \<noteq> Address (array_repeat 200)"
    by (simp add: flood_seeds_def)
  then have "adm_nonces ?a (Address (array_repeat 200)) = None"
    by (simp add: nonces_record_all_other)
  then have "nonces_ascend ?a honest_flow"
    using honest_ascends [of 200 200 TEST_NOW]
    by (simp add: nonces_ascend_def nonce_advances_def honest_flow_def del: upt_rec_numeral)
  moreover have "fresh_ids K ?a honest_flow"
    using assms(1) by (auto simp: fresh_ids_def)
  ultimately obtain qs l' where honest: "?run honest_flow (?a, l) = (qs, record_all K honest_flow ?a, l')"
    "list_all isOk qs" "ml_entries l' = ml_entries l @ received_at_all K TEST_NOW honest_flow"
    using submit_all_admitted [of honest_flow ?a TEST_NOW K l] by (auto simp: honest_flow_def)
  have refused: "\<forall>(x, t) \<in> set (all_at TEST_NOW schedule). x \<notin> set honest_flow \<longrightarrow>
      admission_check ?a (intent_id_of K x) x t \<noteq> Ok ()"
    using baits_refused set_interleavings [OF assms(2)] by (auto simp: all_at_def)
  have "filter (\<lambda>(x, t). x \<in> set honest_flow) (all_at TEST_NOW schedule) = all_at TEST_NOW honest_flow"
    using honest_schedule [OF assms(2)] by (simp add: all_at_def filter_map comp_def)
  with honest(1) have "submit_all K (filter (\<lambda>(x, t). x \<in> set honest_flow) (all_at TEST_NOW schedule)) (?a, l) =
      (qs, record_all K honest_flow ?a, l')"
    by (simp only:)
  from submit_all_flooded [OF refused this honest(2)]
  obtain rs' where flooded: "?run schedule (?a, l) = (rs', record_all K honest_flow ?a, l')"
    "list_all2 (\<lambda>(x, t) r. isOk r \<longleftrightarrow> x \<in> set honest_flow) (all_at TEST_NOW schedule) rs'"
    by blast
  let ?ps = "map (\<lambda>x. pending_new (intent_id_of K x) x TEST_NOW) (flood_seeds @ honest_flow)"
  have "ml_entries l' = received_at_all K TEST_NOW (flood_seeds @ honest_flow)"
    by (simp add: honest(3) seeded(3) received_at_all_def)
  then have ps: "buffered l' = Some ?ps"
    by (simp only: buffered_eq buffered_received_at_all)
  have ids: "map p_id ?ps = map (intent_id_of K) (flood_seeds @ honest_flow)"
    by simp
  have "count_list (map p_id ?ps) (intent_id_of K x) = 1" if "x \<in> set honest_flow" for x
    unfolding ids using that by (intro count_list_once assms(1)) simp
  moreover have "length ?ps = length (ml_entries l) + 200"
    by (simp add: seeded(3) received_at_all_def honest_flow_def del: upt_rec_numeral)
  ultimately show ?thesis
    using seeded(2) flooded(2)
    unfolding a_flood_of_rejections_never_reaches_the_log_def Let_def seeded(1) flooded(1) prod.case ps
    by (simp add: all_at_def list_all2_map1)
qed

lemma admit_first:
  assumes "intent_valid x" "window_met admission_guarantee x t"
  shows "admit_and_append mem_ops K x t (fresh_gate, mem_log_new) =
    (Ok (intent_id_of K x, Position 0), record_all K [x] fresh_gate,
     snd (mem_append (IntentReceived (intent_id_of K x) x t) mem_log_new))"
proof -
  have "admission_check fresh_gate (intent_id_of K x) x t = Ok ()"
    using assms by (simp add: admission_check_Ok_iff nonce_advances_def)
  then show ?thesis
    by (simp add: admit_and_append_def Let_def mem_append_eq position_of_def)
qed

lemma head_after_first: "mem_head (snd (mem_append e mem_log_new)) = Position 1"
  by (simp add: mem_append_eq mem_head_def position_of_def)

lemma none_Ok: "filter isOk rs = [] \<Longrightarrow> list_all (\<lambda>err. \<not> isOk err) rs"
  by (simp add: filter_empty_conv list_all_iff)

lemma spam_leaves_no_trace_in_the_gates_state_holds: "spam_leaves_no_trace_in_the_gates_state K"
proof -
  let ?x = "live_intent 200 1 TEST_NOW"
  let ?a = "record_all K [?x] fresh_gate"
  let ?flood = "concat (map (\<lambda>round. all_at (TEST_NOW + round) (?x # spam 9 TEST_NOW)) (map word_of_nat [0..<250]))"
  define l where "l = snd (mem_append (IntentReceived (intent_id_of K ?x) ?x TEST_NOW) mem_log_new)"
  have "admission_check ?a (intent_id_of K y) y t \<noteq> Ok ()" if "(y, t) \<in> set ?flood" for y t
  proof -
    from that obtain k where k: "k < (250 :: nat)" "t = TEST_NOW + word_of_nat k" "y = ?x \<or> y \<in> set (spam 9 TEST_NOW)"
      unfolding set_concat set_map by (auto simp: all_at_def)
    define round :: u64 where "round = word_of_nat k"
    with k have round: "round < 250" "t = TEST_NOW + round" "y = ?x \<or> y \<in> set (spam 9 TEST_NOW)"
      by (simp_all add: word_less_nat_alt unat_of_nat64)
    from round(3) show ?thesis
    proof
      assume "y = ?x"
      with seen_is_refused [of ?x "[?x]"] show ?thesis by simp
    next
      assume "y \<in> set (spam 9 TEST_NOW)"
      with spam_is_refused [of y 9 ?a round] round(1,2) show ?thesis by simp
    qed
  qed
  then obtain rs where "submit_all K ?flood (?a, l) = (rs, ?a, l)" "filter isOk rs = []"
    using submit_all_refused [of ?flood ?a K l] by blast
  moreover have "admission_tracked ?a = (1, 1)"
    using dom_record_all [of K "[?x]" fresh_gate] by (simp add: admission_tracked_def)
  moreover have "mem_head l = Position 1"
    by (simp add: l_def head_after_first)
  ultimately show ?thesis
    using admit_first [of ?x TEST_NOW K]
    by (simp add: spam_leaves_no_trace_in_the_gates_state_def Let_def none_Ok l_def del: upt_rec_numeral record_all_simps)
qed

lemma stale_nonce:
  assumes "intent_valid x" "window_met (adm_guarantee a) x t" "i \<notin> adm_seen a"
    and "adm_nonces a (i_submitter x) = Some n" "i_nonce x \<le> n"
  shows "admission_check a i x t = Err (StaleNonce (i_nonce x) n)"
  using assms by (auto simp: admission_check_def intent_valid_def window_met_def Let_def)

lemma forged_as_simps [simp]:
  "i_submitter (forged_as s n f) = s" "i_nonce (forged_as s n f) = n"
  "intent_valid (forged_as s n f)" "window_met admission_guarantee (forged_as s n f) TEST_NOW"
  "window_met admission_guarantee (forged_as s n f) (TEST_NOW + 1)"
  by (simp_all add: forged_as_def intent_valid_def window_met_def MAX_SLIPPAGE_BPS_def TEST_NOW_def)

lemma anyone_can_burn_another_accounts_nonce_space_holds:
  assumes "intent_id_of K (forged_as s u64_MAX 0) \<notin> set (map (\<lambda>nonce. intent_id_of K (forged_as s nonce 7)) [0, 1, 42, u64_MAX])"
    and "s = Address (array_repeat 1)"
  shows "anyone_can_burn_another_accounts_nonce_space K"
proof -
  let ?x = "forged_as s u64_MAX 0"
  let ?a = "record_all K [?x] fresh_gate" and ?ys = "map (\<lambda>nonce. forged_as s nonce 7) [0, 1, 42, u64_MAX]"
  define l where "l = snd (mem_append (IntentReceived (intent_id_of K ?x) ?x TEST_NOW) mem_log_new)"
  have "admission_check ?a (intent_id_of K (forged_as s nonce 7)) (forged_as s nonce 7) (TEST_NOW + 1) =
      Err (StaleNonce (i_nonce (forged_as s nonce 7)) u64_MAX)"
    if "intent_id_of K (forged_as s nonce 7) \<noteq> intent_id_of K ?x" for nonce
    using that by (intro stale_nonce) (simp_all add: admission_record_def Let_def)
  then have "\<forall>(y, t) \<in> set (all_at (TEST_NOW + 1) ?ys).
      admission_check ?a (intent_id_of K y) y t = Err (StaleNonce (i_nonce y) u64_MAX)"
    using assms(1) by (simp add: all_at_def eq_commute)
  then have "submit_all K (all_at (TEST_NOW + 1) ?ys) (?a, l) =
      (map (\<lambda>(y, t). Err (AdmitRejected (StaleNonce (i_nonce y) u64_MAX))) (all_at (TEST_NOW + 1) ?ys), ?a, l)"
    by (rule submit_all_rejected)
  then show ?thesis
    using admit_first [of ?x TEST_NOW K] assms(2)
    by (simp add: anyone_can_burn_another_accounts_nonce_space_def Let_def l_def del: record_all_simps submit_all.simps)
qed

lemma only_one_of_a_racing_nonce_burn_is_admitted_holds:
  assumes "schedule \<noteq> []"
  shows "only_one_of_a_racing_nonce_burn_is_admitted K schedule"
proof -
  obtain fee fees where schedule: "schedule = fee # fees"
    using assms by (cases schedule) auto
  let ?s = "Address (array_repeat 1)"
  let ?x = "forged_as ?s u64_MAX fee"
  let ?a = "record_all K [?x] fresh_gate" and ?ys = "map (forged_as ?s u64_MAX) fees"
  define l where "l = snd (mem_append (IntentReceived (intent_id_of K ?x) ?x TEST_NOW) mem_log_new)"
  have "\<forall>(y, t) \<in> set (all_at TEST_NOW ?ys). admission_check ?a (intent_id_of K y) y t \<noteq> Ok ()"
    using stale_is_refused [of ?x "[?x]"] by (auto simp: all_at_def)
  then obtain rs where "submit_all K (all_at TEST_NOW ?ys) (?a, l) = (rs, ?a, l)" "filter isOk rs = []"
    using submit_all_refused [of "all_at TEST_NOW ?ys" ?a K l] by blast
  then show ?thesis
    using admit_first [of ?x TEST_NOW K]
    by (simp add: only_one_of_a_racing_nonce_burn_is_admitted_def schedule Let_def l_def head_after_first
        del: record_all_simps)
qed

lemma nonce_recorded_from:
  "adm_nonces (record_all K xs a) s = Some n \<Longrightarrow>
    adm_nonces a s = Some n \<or> (\<exists>x \<in> set xs. i_submitter x = s \<and> i_nonce x = n)"
proof (induction xs arbitrary: a)
  case (Cons x xs)
  then show ?case
    by (fastforce simp: admission_record_def Let_def max_def split: if_splits option.splits)
qed simp

definition remembered :: "intent list" where
  "remembered = map (\<lambda>n. live_intent 7 n TEST_NOW) (map word_of_nat [1..<501])"

lemma remembered_admitted:
  assumes "distinct (map (intent_id_of K) remembered)"
  shows "\<exists>rs l. submit_all K (all_at TEST_NOW remembered) (fresh_gate, mem_log_new) =
      (rs, record_all K remembered fresh_gate, l) \<and> list_all isOk rs"
proof -
  have "nonces_ascend fresh_gate remembered"
    using honest_ascends [of 500 7 TEST_NOW]
    by (simp add: nonces_ascend_def nonce_advances_def remembered_def del: upt_rec_numeral)
  moreover have "fresh_ids K fresh_gate remembered"
    using assms by (simp add: fresh_ids_def)
  ultimately show ?thesis
    using submit_all_admitted [of remembered fresh_gate TEST_NOW K mem_log_new]
    by (auto simp: remembered_def)
qed

lemma every_admitted_intent_is_remembered_for_good_holds:
  assumes "distinct (map (intent_id_of K) (remembered @ [live_intent 7 501 (TEST_NOW + spam_WINDOW_MS * 1000)]))"
  shows "every_admitted_intent_is_remembered_for_good K"
proof -
  let ?t = "TEST_NOW + spam_WINDOW_MS * 1000"
  let ?x = "live_intent 7 501 ?t" and ?a = "record_all K remembered fresh_gate"
  have "distinct (map (intent_id_of K) remembered)" using assms by simp
  from remembered_admitted [OF this] obtain rs l where
    run: "submit_all K (all_at TEST_NOW remembered) (fresh_gate, mem_log_new) = (rs, ?a, l)" "list_all isOk rs"
    by blast
  have dom: "dom (adm_nonces ?a) = {Address (array_repeat 7)}"
    by (simp add: dom_record_all remembered_def image_image image_constant_conv)
  have card: "card (adm_seen ?a) = 500"
    using distinct_card [of "map (intent_id_of K) remembered"] assms
    by (simp add: remembered_def image_image del: upt_rec_numeral)
  have "nonce_advances ?a ?x"
    unfolding nonce_advances_def
  proof (intro allI impI)
    fix n
    assume "adm_nonces ?a (i_submitter ?x) = Some n"
    from nonce_recorded_from [OF this] obtain k where k: "n = word_of_nat k" "k < (501 :: nat)"
      by (auto simp: remembered_def)
    then show "n < i_nonce ?x"
      by (simp add: word_less_nat_alt unat_of_nat64)
  qed
  moreover have "intent_id_of K ?x \<notin> adm_seen ?a"
    using assms by auto
  moreover have "window_met admission_guarantee ?x ?t"
    by (simp add: window_met_def live_intent_def spam_WINDOW_MS_def TEST_NOW_def)
  ultimately have "admission_check ?a (intent_id_of K ?x) ?x ?t = Ok ()"
    by (simp add: admission_check_Ok_iff)
  then have last: "admit_and_append mem_ops K ?x ?t (?a, l) =
      (Ok (intent_id_of K ?x, position_of (length (ml_entries l))),
       admission_record (intent_id_of K ?x) (Address (array_repeat 7)) 501 ?a,
       snd (mem_append (IntentReceived (intent_id_of K ?x) ?x ?t) l))"
    by (simp add: admit_and_append_def Let_def mem_append_eq)
  have "finite (adm_seen ?a)" by simp
  then have tracked: "admission_tracked ?a = (500, 1)"
    "admission_tracked (admission_record (intent_id_of K ?x) (Address (array_repeat 7)) 501 ?a) = (501, 1)"
    using card dom \<open>intent_id_of K ?x \<notin> adm_seen ?a\<close> by (simp_all only: admission_tracked_def record_simps card_insert_disjoint) simp_all
  show ?thesis
    unfolding every_admitted_intent_is_remembered_for_good_def Let_def remembered_def [symmetric] run(1) prod.case last tracked
    using run(2) by simp
qed

definition max_bids :: "intent list" where
  "max_bids = map (\<lambda>n. (live_intent 9 n TEST_NOW)\<lparr>i_priority_fee := u64_MAX\<rparr>) [1, 2, 3, 4]"

definition bid_victims :: "intent list" where
  "bid_victims = map (\<lambda>n. live_intent 200 n TEST_NOW) [1, 2, 3, 4]"

lemma u64_MAX_eq: "u64_MAX = 18446744073709551615"
  by simp

lemma a_maximum_bid_is_free_and_takes_every_position_holds:
  assumes "distinct (map (intent_id_of K) (bid_victims @ max_bids))"
  shows "a_maximum_bid_is_free_and_takes_every_position K"
proof -
  let ?p = "\<lambda>x. pending_new (intent_id_of K x) x TEST_NOW"
  obtain rs l where run: "submit_all K (all_at TEST_NOW (bid_victims @ max_bids)) (fresh_gate, mem_log_new) =
      (rs, record_all K (bid_victims @ max_bids) fresh_gate, l)" "list_all isOk rs"
    "ml_entries l = received_at_all K TEST_NOW (bid_victims @ max_bids)"
  proof -
    have "nonces_ascend fresh_gate (bid_victims @ max_bids)"
      by (simp add: nonces_ascend_def nonce_advances_def bid_victims_def max_bids_def)
    moreover have "\<forall>x \<in> set (bid_victims @ max_bids). intent_valid x \<and> window_met (adm_guarantee fresh_gate) x TEST_NOW"
      by (simp add: bid_victims_def max_bids_def intent_valid_def window_met_def live_intent_def MAX_SLIPPAGE_BPS_def TEST_NOW_def)
    moreover have "fresh_ids K fresh_gate (bid_victims @ max_bids)"
      using assms unfolding fresh_ids_def by simp
    ultimately show thesis
      using submit_all_admitted [of "bid_victims @ max_bids" fresh_gate TEST_NOW K mem_log_new] that
      by (metis append_Nil ml_entries_new)
  qed
  let ?vs = "map ?p bid_victims" and ?as = "map ?p max_bids"
  have "buffered l = Some (?vs @ ?as)"
    unfolding buffered_eq run(3) buffered_received_at_all by simp
  moreover have "order_slot (?vs @ ?as) = order_slot (?as @ ?vs)"
    by (rule order_slot_perm) (simp_all add: slot_key_def bid_victims_def max_bids_def)
  moreover have "order_slot (?as @ ?vs) = order_domain (?as @ ?vs)"
    by (rule order_slot_one_market [of _ "Market ''ETH'' ''USDC''"]) (simp_all add: bid_victims_def max_bids_def)
  moreover have "order_domain (?as @ ?vs) = map p_id (sort_key p_nonce ?as) @ order_domain ?vs"
  proof (rule order_domain_front [where a = "Address (array_repeat 9)"])
    show "outranks ?as ?vs"
      by (rule outranks_fee) (simp add: bid_victims_def max_bids_def word_less_nat_alt u64_MAX_eq)
  qed (simp_all add: bid_victims_def max_bids_def)
  moreover have "sort_key p_nonce ?as = ?as"
    by (rule sort_key_id_if_sorted) (simp add: max_bids_def word_le_nat_alt)
  ultimately have "map_option (\<lambda>ps. take 4 (order_slot ps)) (buffered l) = Some (map (intent_id_of K) max_bids)"
    by (simp add: max_bids_def)
  then show ?thesis
    unfolding a_maximum_bid_is_free_and_takes_every_position_def Let_def bid_victims_def [symmetric]
      max_bids_def [symmetric] run(1) prod.case
    using run(2) by simp
qed

end
