(* ===== verification/Receipt_Attacks.thy ===== *)
theory Receipt_Attacks
  imports Attest_Tests Projection_Properties
begin

text \<open>
  What a hostile sequencer can and cannot do to the holder of a receipt, and the tests of
  \<^verbatim>\<open>src/tests/adversarial.rs\<close> that drive it (the modules \<open>sequencer_misbehaviour\<close> and \<open>censorship\<close>). The
  log here is any list of entries, whoever wrote it. The enclave attests whatever order it is handed; but
  an intent that was received and left alone shows as overdue, and only a logged slot or a logged expiry
  can make its receipt say anything else.
\<close>

section \<open>Attestation and the ordering policy\<close>

text \<open>The enclave vouches for the commitment, not for the policy: any order of any intents is attested.\<close>

theorem any_order_is_attested:
  assumes "slot \<notin> me_fail_slots en"
  shows "\<exists>q en'. mock_attest K slot intents (commit K slot intents) en = (Ok q, en') \<and>
    verify_preconf K (mock_verifier K (me_measurement en))
      \<lparr>pc_slot = slot, pc_commitment = commit K slot intents, pc_quote = q_quote q, pc_signature = q_sig q\<rparr>
      intents = Ok ()"
  using assms by (simp add: mock_attest_def verify_preconf_Ok_iff mock_verifier_def Let_def)

definition attack_enclave :: mock_enclave where
  "attack_enclave = enclave_with_latency (from_millis 0) mock_enclave_new"

definition attacked_buffer :: "keccak \<Rightarrow> pending list" where
  "attacked_buffer K =
     [testkit_pending K ''ETH'' 1 1 0 10, testkit_pending K ''ETH'' 2 1 500 11, testkit_pending K ''ETH'' 3 1 50 12]"

definition an_attested_preconf_says_nothing_about_the_ordering_policy :: "keccak \<Rightarrow> bool" where
  "an_attested_preconf_says_nothing_about_the_ordering_policy K \<longleftrightarrow>
    (let policy = order_slot (attacked_buffer K);
         malicious = rev policy;
         c = commit K 0 malicious
     in policy \<noteq> malicious \<and>
        (case mock_attest K 0 malicious c attack_enclave of
           (Err _, en) \<Rightarrow> False
         | (Ok q, en) \<Rightarrow>
             verify_preconf K (mock_verifier_default K) (test_claim 0 c (q_quote q) (q_sig q)) malicious = Ok ()) \<and>
        commit K 0 policy \<noteq> c)"

definition a_reordered_slot_cannot_be_passed_off_under_an_honest_quote :: "keccak \<Rightarrow> bool" where
  "a_reordered_slot_cannot_be_passed_off_under_an_honest_quote K \<longleftrightarrow>
    (let intents = map (\<lambda>n. intent_id_of K (dummy n)) [0, 1, 2, 3];
         commitment = commit K 3 intents
     in case mock_attest K 3 intents commitment attack_enclave of
          (Err _, en) \<Rightarrow> False
        | (Ok q, en) \<Rightarrow>
            let c = test_claim 3 commitment (q_quote q) (q_sig q)
            in verify_preconf K (mock_verifier_default K) c intents = Ok () \<and>
               list_all (\<lambda>(i, j). verify_preconf K (mock_verifier_default K) c (swap i j intents) = Err ContentsMismatch)
                 [(0, 1), (0, 3), (2, 3)])"

definition one_slot_can_carry_two_verifiable_and_contradictory_preconfs :: "keccak \<Rightarrow> bool" where
  "one_slot_can_carry_two_verifiable_and_contradictory_preconfs K \<longleftrightarrow>
    (let one = map (\<lambda>n. intent_id_of K (dummy n)) [0, 1, 2];
         other = map (\<lambda>n. intent_id_of K (dummy n)) [10, 11, 12];
         c_one = commit K 0 one;
         c_other = commit K 0 other;
         (q_one, en) = mock_attest K 0 one c_one attack_enclave;
         (q_other, en) = mock_attest K 0 other c_other en
     in c_one \<noteq> c_other \<and>
        list_all (\<lambda>(intents, c, q).
            case q of Err _ \<Rightarrow> False
            | Ok q \<Rightarrow> verify_preconf K (mock_verifier_default K) (test_claim 0 c (q_quote q) (q_sig q)) intents = Ok ())
          [(one, c_one, q_one), (other, c_other, q_other)])"

text \<open>Each compares two hashes of its own; the inequations are its hypotheses.\<close>

lemma an_attested_preconf_says_nothing_about_the_ordering_policy_holds:
  assumes "commit K 0 (order_slot (attacked_buffer K)) \<noteq> commit K 0 (rev (order_slot (attacked_buffer K)))"
  shows "an_attested_preconf_says_nothing_about_the_ordering_policy K"
  using assms
  by (auto simp: an_attested_preconf_says_nothing_about_the_ordering_policy_def Let_def attack_enclave_def
      enclave_with_latency_def verify_eval)

lemma a_reordered_slot_cannot_be_passed_off_under_an_honest_quote_holds:
  assumes "intents = map (\<lambda>n. intent_id_of K (dummy n)) [0, 1, 2, 3]"
    and "\<forall>(i, j) \<in> set [(0, 1), (0, 3), (2, 3)]. commit K 3 (swap i j intents) \<noteq> commit K 3 intents"
  shows "a_reordered_slot_cannot_be_passed_off_under_an_honest_quote K"
  using assms
  unfolding a_reordered_slot_cannot_be_passed_off_under_an_honest_quote_def Let_def
  by (simp add: attack_enclave_def enclave_with_latency_def verify_eval)

lemma one_slot_can_carry_two_verifiable_and_contradictory_preconfs_holds:
  assumes "commit K 0 (map (\<lambda>n. intent_id_of K (dummy n)) [0, 1, 2]) \<noteq>
    commit K 0 (map (\<lambda>n. intent_id_of K (dummy n)) [10, 11, 12])"
  shows "one_slot_can_carry_two_verifiable_and_contradictory_preconfs K"
  using assms
  by (simp add: one_slot_can_carry_two_verifiable_and_contradictory_preconfs_def Let_def attack_enclave_def
      enclave_with_latency_def verify_eval)

section \<open>Censorship\<close>

lemma receipt_state_logged:
  assumes "intent_logged es i row" "\<And>s. ir_slot row = Some s \<Longrightarrow> slot_rows es s \<noteq> None" "deadline < now_ms"
  shows "case receipt_state deadline now_ms row (Option.bind (ir_slot row) (slot_rows es)) of
      guarantee_state.Pending \<Rightarrow> False
    | Overdue \<Rightarrow> ir_expired row = None \<and> ir_slot row = None
    | Met slot _ \<Rightarrow> \<exists>ids p c t. SlotCommitted slot ids p c t \<in> set es \<and> i \<in> set ids
    | Missed d t \<Rightarrow> IntentExpired i d t \<in> set es"
proof (cases "ir_expired row")
  case (Some dt)
  with assms(1) show ?thesis
    by (cases dt) (simp add: receipt_state_def intent_logged_def)
next
  case None
  show ?thesis
  proof (cases "ir_slot row")
    case (Some s)
    then obtain sr where "slot_rows es s = Some sr"
      using assms(2) by blast
    moreover from assms(1) Some obtain ids p c t where "SlotCommitted s ids p c t \<in> set es" "i \<in> set ids"
      by (auto simp: intent_logged_def)
    then have "\<exists>ids p c t. SlotCommitted s ids p c t \<in> set es \<and> i \<in> set ids"
      by blast
    ultimately show ?thesis
      using None Some by (simp add: receipt_state_def)
  qed (use None assms(3) in \<open>simp add: receipt_state_def\<close>)
qed

lemma TEST_GUARANTEE_window: "deadline_for TEST_GUARANTEE TEST_NOW = TEST_NOW + 1000"
proof -
  have "window_size TEST_GUARANTEE = 1000"
    by (rule word_unat_eq_iff [THEN iffD2])
      (simp add: unat_window_size TEST_GUARANTEE_def as_millis_from_millis)
  then show ?thesis by (simp add: deadline_for_def)
qed

lemma TEST_GUARANTEE_late: "deadline_for TEST_GUARANTEE TEST_NOW < deadline_for TEST_GUARANTEE TEST_NOW + 1"
  unfolding TEST_GUARANTEE_window by (simp add: TEST_NOW_def)

text \<open>
  C9: Censorship is visible. Past an intent's deadline its receipt cannot say the guarantee is pending,
  whatever entries a hostile sequencer wrote or withheld. It is overdue, with no position and no
  evidence, unless the log holds a slot with the intent or an expiry of it; if the log holds neither,
  it is overdue.
\<close>

theorem censorship_is_visible:
  assumes "IntentReceived i intent t \<in> set es" "distinct (received_ids es)" "deadline_for g t < now_ms"
  shows "\<exists>r. receipt_of hex (project g es) i now_ms = Some r \<and>
    (case ig_state (rc_guarantee r) of
       guarantee_state.Pending \<Rightarrow> False
     | Overdue \<Rightarrow> rc_lifecycle r = Received \<and> rc_sequence r = None \<and> rc_preconf r = None \<and> rc_proof r = None
     | Met slot _ \<Rightarrow> \<exists>ids p c at. SlotCommitted slot ids p c at \<in> set es \<and> i \<in> set ids
     | Missed d at \<Rightarrow> IntentExpired i d at \<in> set es) \<and>
    (i \<in> set (committed_ids es) \<or> i \<in> set (expired_ids es) \<or> ig_state (rc_guarantee r) = Overdue)"
proof -
  have "i \<in> set (received_ids es)"
    using assms(1) by (force simp: received_ids_def simp flip: mem_received)
  then obtain r where r: "receipt_of hex (project g es) i now_ms = Some r"
    using receipt_of_None [of hex g es i now_ms] by blast
  from receipt_of_Some [OF r] obtain row where row: "pj_intents (project g es) i = Some row"
    "lifecycle_of (project g es) row = Some (rc_lifecycle r)"
    "rc_sequence r = receipt_sequence row (Option.bind (ir_slot row) (slot_rows es))"
    "rc_preconf r = receipt_preconf hex row (Option.bind (ir_slot row) (slot_rows es))"
    "rc_proof r = receipt_proof hex (Option.bind (ir_slot row) (slot_rows es))"
    "ig_state (rc_guarantee r) = receipt_state (deadline_for g (ir_received_at_ms row)) now_ms row
       (Option.bind (ir_slot row) (slot_rows es))"
    by metis
  note log = project_intents_logged [OF row(1)]
  then obtain n intent' where "n < length es" "es ! n = IntentReceived i intent' (ir_received_at_ms row)"
    by (auto simp: intent_logged_def)
  then have "IntentReceived i intent' (ir_received_at_ms row) \<in> set es"
    by (metis nth_mem)
  with received_once [OF assms(2) assms(1)] assms(3) have late: "deadline_for g (ir_received_at_ms row) < now_ms"
    by blast
  have state: "case ig_state (rc_guarantee r) of
      guarantee_state.Pending \<Rightarrow> False
    | Overdue \<Rightarrow> ir_expired row = None \<and> ir_slot row = None
    | Met slot _ \<Rightarrow> \<exists>ids p c at. SlotCommitted slot ids p c at \<in> set es \<and> i \<in> set ids
    | Missed d at \<Rightarrow> IntentExpired i d at \<in> set es"
    unfolding row(6) using project_slot_known [OF row(1)] by (intro receipt_state_logged [OF log _ late]) blast
  show ?thesis
  proof (cases "ig_state (rc_guarantee r)")
    case Overdue
    with state have "ir_expired row = None" "ir_slot row = None" by simp_all
    with row(2-5) have "rc_lifecycle r = Received" "rc_sequence r = None" "rc_preconf r = None" "rc_proof r = None"
      by (auto simp: lifecycle_of_def receipt_sequence_def receipt_preconf_def receipt_proof_def)
    with r Overdue show ?thesis by simp
  next
    case (Met slot at)
    with state obtain ids p c at' where "SlotCommitted slot ids p c at' \<in> set es" "i \<in> set ids"
      by auto
    with r Met state in_committed_ids [OF this] show ?thesis by auto
  next
    case (Missed d at)
    with state in_expired_ids r show ?thesis by fastforce
  qed (use state in simp)
qed

theorem censorship_is_visible_witness:
  "\<exists>r. receipt_of (\<lambda>_. []) (project TEST_GUARANTEE
      [IntentReceived (IntentId (array_repeat 1)) (dummy 1) TEST_NOW, SlotCommitted 0 [] (Position 1) (Commitment (array_repeat 0)) 7])
      (IntentId (array_repeat 1)) (deadline_for TEST_GUARANTEE TEST_NOW + 1) = Some r \<and>
    ig_state (rc_guarantee r) = Overdue"
proof -
  let ?es = "[IntentReceived (IntentId (array_repeat 1)) (dummy 1) TEST_NOW,
    SlotCommitted 0 [] (Position 1) (Commitment (array_repeat 0)) 7]"
  have "IntentReceived (IntentId (array_repeat 1)) (dummy 1) TEST_NOW \<in> set ?es" "distinct (received_ids ?es)"
    by (simp_all add: received_ids_def)
  from censorship_is_visible [OF this TEST_GUARANTEE_late, of "\<lambda>_. []"] show ?thesis
    by (auto simp: committed_ids_def expired_ids_def List.map_filter_simps)
qed

section \<open>The tests of censorship\<close>

text \<open>
  \<open>admitted\<close> and \<open>closed_empty\<close>: entries a test appends; \<open>projected\<close> is the read model once its
  cursor has reached the head.
\<close>

definition attack_admitted :: "keccak \<Rightarrow> intent \<Rightarrow> u64 \<Rightarrow> entry" where
  "attack_admitted K intent received_at = IntentReceived (intent_id_of K intent) intent received_at"

definition closed_empty :: "keccak \<Rightarrow> u64 \<Rightarrow> u64 \<Rightarrow> entry" where
  "closed_empty K slot at_ms = SlotCommitted slot [] position_ZERO (commit K slot []) at_ms"

definition projected :: "mem_log \<Rightarrow> projections" where
  "projected log = projector_on_doorbell mem_ops log (projections_new TEST_GUARANTEE)"

definition a_censored_intent_shows_up_as_overdue_not_missed :: "keccak \<Rightarrow> (bytes \<Rightarrow> string) \<Rightarrow> bool" where
  "a_censored_intent_shows_up_as_overdue_not_missed K hex \<longleftrightarrow>
    (let log = appended (attack_admitted K (dummy 1) TEST_NOW #
           map (\<lambda>slot. closed_empty K slot (TEST_NOW + slot)) [0, 1, 2]);
         past_the_window = deadline_for TEST_GUARANTEE TEST_NOW + 1
     in case receipt_of hex (projected log) (intent_id_of K (dummy 1)) past_the_window of
          None \<Rightarrow> False
        | Some r \<Rightarrow> rc_lifecycle r = Received \<and> rc_sequence r = None \<and> ig_state (rc_guarantee r) = Overdue)"

definition an_adjudicated_miss_is_terminal_and_names_its_deadline :: "keccak \<Rightarrow> (bytes \<Rightarrow> string) \<Rightarrow> bool" where
  "an_adjudicated_miss_is_terminal_and_names_its_deadline K hex \<longleftrightarrow>
    (let i = intent_id_of K (dummy 1);
         deadline_ms = deadline_for TEST_GUARANTEE TEST_NOW;
         log = appended [attack_admitted K (dummy 1) TEST_NOW,
           IntentExpired i deadline_ms (deadline_ms + 5), closed_empty K 0 (deadline_ms + 5)]
     in case receipt_of hex (projected log) i (deadline_ms + 6) of
          None \<Rightarrow> False
        | Some r \<Rightarrow> rc_lifecycle r = lifecycle.Expired \<and>
            ig_state (rc_guarantee r) = Missed deadline_ms (deadline_ms + 5))"

lemma projected_appended: "length es < 2 ^ 64 \<Longrightarrow> projected (appended es) = project TEST_GUARANTEE es"
  using mem.projector_outcome [of "appended es" 0 TEST_GUARANTEE]
  by (simp add: projected_def mem_read_from_eq)

lemmas projected_eval =
  projected_appended project_def attack_admitted_def closed_empty_def projection_apply_def projections_new_def
  receipt_of_def lifecycle_of_def receipt_sequence_def receipt_state_def modify_apply Let_def

lemma censorship_tests_hold:
  "a_censored_intent_shows_up_as_overdue_not_missed K hex"
  "an_adjudicated_miss_is_terminal_and_names_its_deadline K hex"
  by (simp_all add: a_censored_intent_shows_up_as_overdue_not_missed_def TEST_GUARANTEE_late
      an_adjudicated_miss_is_terminal_and_names_its_deadline_def projected_eval)

end
