(* ===== verification/Task_Tests.thy ===== *)
theory Task_Tests
  imports Prove_Tests Receipt_Attacks Sequencer_Properties
begin

text \<open>
  The tests of \<^verbatim>\<open>src/tests/pipeline.rs\<close> that run one or two tasks on a log: the prover, the attester, and
  the sequencer with the projector. The runtime of a test has one thread, so what a test appends before it
  first waits is on the log when the tasks start.
\<close>

section \<open>A slot that failed attestation\<close>

definition e2e_committed :: "keccak \<Rightarrow> u64 \<Rightarrow> u64 \<Rightarrow> entry" where
  "e2e_committed K t slot =
    (let intents = [intent_id_of K (dummy slot)]
     in SlotCommitted slot intents position_ZERO (commit K slot intents) t)"

definition e2e_attested :: "keccak \<Rightarrow> u64 \<Rightarrow> entry" where
  "e2e_attested K slot = SlotAttested slot [] (mock_over K [ucast slot])"

text \<open>\<open>t\<close> is the clock, and \<open>ws\<close> the wake-ups of the prover.\<close>

definition attest_failure_is_excluded_from_proof_ranges :: "u64 \<Rightarrow> wake list \<Rightarrow> keccak \<Rightarrow> bool" where
  "attest_failure_is_excluded_from_proof_ranges t ws K \<longleftrightarrow>
    (let log = appended (map (e2e_committed K t) [0, 1, 2] @
           [e2e_attested K 0, AttestFailed 1 ''mock'', e2e_attested K 2]);
         backend = prover_with_latency (from_millis 1) mock_prover_new
     in map_option snd (observed (prover_ran ws K backend (test_config 10 20) log)) = Some [(0, 0), (2, 2)])"

definition e2e_slot :: "keccak \<Rightarrow> u64 \<Rightarrow> committed_slot" where
  "e2e_slot K slot =
    (let intents = [intent_id_of K (dummy slot)]
     in \<lparr>cs_slot = slot, cs_intents = intents, cs_commitment = commit K slot intents\<rparr>)"

lemma cs_slot_e2e [simp]: "cs_slot (e2e_slot K n) = n"
  by (simp add: e2e_slot_def Let_def)

lemma e2e_entries:
  "prover_entry L P (e2e_committed K t s) (p, l) =
     prover_fill L P (p\<lparr>pr_awaiting := (pr_awaiting p)(s \<mapsto> e2e_slot K s)\<rparr>, l)"
  "prover_entry L P (e2e_attested K s) = prover_entry L P (prove_attested K s)"
  "prover_entry L P (AttestFailed s reason) = prover_entry L P (prove_attest_failed s)"
  by (simp_all add: prover_entry_def e2e_committed_def e2e_attested_def e2e_slot_def prove_attested_def
      prove_attest_failed_def Let_def fun_eq_iff)

definition slow :: "(u64 \<times> u64) list \<Rightarrow> mock_prover" where
  "slow bs = \<lparr>mp_per_slot = from_millis 1, mp_fail_ranges = [], mp_batches = bs\<rparr>"

lemma slow_batches [simp]: "mp_batches (slow bs) = bs"
  by (simp add: slow_def)

lemma slow_starts: "prover_with_latency (from_millis 1) mock_prover_new = slow []"
  by (simp add: slow_def mock_prover_new_def prover_with_latency_def)

text \<open>A batch of one slot, as the mock backend proves it.\<close>

definition proven_alone :: "keccak \<Rightarrow> committed_slot \<Rightarrow> entry" where
  "proven_alone K s = SlotsProven (cs_slot s) (cs_slot s)
     \<lparr>ph_backend = Mock, ph_proof = mock_chain K [s], ph_public_inputs = mock_statement [s], ph_vkey_hash = MOCK_VKEY_HASH\<rparr>"

lemma slow_flush:
  assumes "pr_pending p = [s]" "pr_prover p = slow bs"
  shows "prover_flush mem_ops (mock_prove_ops K) (p, l) =
    Some (Ok (), p\<lparr>pr_pending := [], pr_prover := slow (bs @ [(cs_slot s, cs_slot s)])\<rparr>,
      snd (mem_append (proven_alone K s) l))"
proof -
  have "duration_mul_fits (from_millis 1) 1"
    by (simp add: duration_mul_fits_def from_millis_def)
  with assms show ?thesis
    by (simp add: prover_flush_def proof_entry_def mock_prove_ops_def mock_prove_def slow_def proven_alone_def
        mem_append_eq Let_def)
qed

lemma proven_alone_simps [simp]:
  "proved_upto (proven_alone K s) = Some (cs_slot s)"
  "prove_outcome_of (proven_alone K s) = Some (OutcomeProven (cs_slot s) (cs_slot s))"
  "prove_outcome_of (e2e_committed K t n) = None" "prove_outcome_of (e2e_attested K n) = None"
  by (simp_all add: proven_alone_def e2e_committed_def e2e_attested_def Let_def)

lemma attest_failure_is_excluded_from_proof_ranges_holds:
  assumes "Doorbell \<in> set ws" "FlushTimer \<in> set (after_doorbell ws)"
  shows "attest_failure_is_excluded_from_proof_ranges t ws K"
proof -
  let ?log = "appended (map (e2e_committed K t) [0, 1, 2] @ [e2e_attested K 0, AttestFailed 1 ''mock'', e2e_attested K 2])"
  have "recover_prover mem_ops ?log = Ok (Position 0, 0)"
    by (simp add: prover_recover_eval e2e_committed_def e2e_attested_def)
  then have "observed (prover_ran ws K (slow []) (test_config 10 20) ?log) =
      Some ([OutcomeProven 0 0, OutcomeProven 2 2], [(0, 0), (2, 2)])"
    by (rule settled_by_timer [OF assms])
      (simp add: doorbell_reads e2e_entries prover_entry_tests prover_fill_def slow_flush started_def test_config_def
        quiet_def prove_outcomes_def word_le_nat_alt)
  then show ?thesis
    by (simp add: attest_failure_is_excluded_from_proof_ranges_def slow_starts)
qed

section \<open>One ruling per slot\<close>

definition the_attester_rules_on_each_slot_exactly_once :: "u64 \<Rightarrow> nat \<Rightarrow> keccak \<Rightarrow> bool" where
  "the_attester_rules_on_each_slot_exactly_once t n K \<longleftrightarrow>
    (let log = appended (concat (map (\<lambda>slot.
           [e2e_committed K t slot, IntentReceived (intent_id_of K (dummy (100 + slot))) (dummy (100 + slot)) t])
           [0, 1, 2, 3]));
         (a, log) = attester_ran (Suc n) K mock_enclave_new log
     in me_seen (at_enclave a) = [0, 1, 2, 3] \<and>
        List.map_filter (\<lambda>e. case e of SlotAttested slot _ _ \<Rightarrow> Some slot | _ \<Rightarrow> None) (ml_entries log) = [0, 1, 2, 3])"

lemma the_attester_rules_on_each_slot_exactly_once_holds:
  "the_attester_rules_on_each_slot_exactly_once t n K"
  by (simp add: the_attester_rules_on_each_slot_exactly_once_def e2e_committed_def ran_unruled
      att_verdict_def attest_slot_def mock_attest_def mock_enclave_new_def Let_def case_prod_beta)

section \<open>A missed window\<close>

text \<open>A turn of the sequencer's loop: it reads the log, or closes a slot at some reading of the clock.\<close>

datatype seq_turn = ReadLog | CloseSlot u64

fun seq_turns :: "keccak \<Rightarrow> seq_turn list \<Rightarrow> sequencer \<times> mem_log \<Rightarrow> (sequencer \<times> mem_log) option" where
  "seq_turns K [] s = Some s"
| "seq_turns K (ReadLog # turns) (q, l) =
    (case seq_on_doorbell mem_ops l q of Ok q \<Rightarrow> seq_turns K turns (q, l) | Err _ \<Rightarrow> None)"
| "seq_turns K (CloseSlot closed_at # turns) (q, l) =
    (case seq_on_tick mem_ops K closed_at (q, l) of (Ok q, l) \<Rightarrow> seq_turns K turns (q, l) | (Err _, l) \<Rightarrow> None)"

definition missed_guarantee :: guarantee_config where
  "missed_guarantee = \<lparr>g_slot_duration = from_millis 5, g_max_slots = 1\<rparr>"

text \<open>The test reads the clock at \<open>t\<close> before the turns and at \<open>now_ms\<close> after them.\<close>

definition a_missed_window_expires_the_intent ::
    "u64 \<Rightarrow> u64 \<Rightarrow> seq_turn list \<Rightarrow> (bytes \<Rightarrow> string) \<Rightarrow> keccak \<Rightarrow> bool" where
  "a_missed_window_expires_the_intent t now_ms turns hex K \<longleftrightarrow>
    (let i = intent_id_of K (dummy 1);
         log = appended [IntentReceived i (dummy 1) (t - 10000)]
     in case seq_start mem_ops missed_guarantee log of
          Err _ \<Rightarrow> False
        | Ok q \<Rightarrow>
            (case seq_turns K turns (q, log) of
               None \<Rightarrow> False
             | Some (q, log) \<Rightarrow>
                 (case receipt_of hex (projector_on_doorbell mem_ops log (projections_new missed_guarantee)) i now_ms of
                    None \<Rightarrow> False
                  | Some r \<Rightarrow>
                      rc_lifecycle r = lifecycle.Expired \<and>
                      (case ig_state (rc_guarantee r) of Missed _ _ \<Rightarrow> True | _ \<Rightarrow> False) \<and>
                      rc_sequence r = None \<and> rc_preconf r = None) \<and>
                 i \<notin> set (committed_ids (ml_entries log))))"

text \<open>The schedules that give the sequencer a chance: it reads, and later closes a slot.\<close>

fun closes_after_reading :: "seq_turn list \<Rightarrow> bool" where
  "closes_after_reading [] = False"
| "closes_after_reading (ReadLog # turns) = (\<exists>c. CloseSlot c \<in> set turns)"
| "closes_after_reading (CloseSlot c # turns) = closes_after_reading turns"

lemma missed_deadline:
  assumes "10000 \<le> t" "t \<le> c"
  shows "deadline_for missed_guarantee (t - 10000) < c"
proof -
  have "window_size missed_guarantee = 5"
    by (rule word_unat_eq_iff [THEN iffD2])
      (simp add: unat_window_size missed_guarantee_def as_millis_from_millis)
  then have "deadline_for missed_guarantee (t - 10000) = t - 9995"
    by (simp add: deadline_for_def)
  moreover have "unat (t - 9995) = unat t - 9995" "10000 \<le> unat t" "unat t \<le> unat c"
    using assms by (simp_all add: unat_sub word_le_nat_alt)
  ultimately show ?thesis
    by (simp add: word_less_nat_alt)
qed

text \<open>What the turns leave: the intent unread, read, or expired.\<close>

definition missed_inv :: "intent_id \<Rightarrow> u64 \<Rightarrow> sequencer \<Rightarrow> entry list \<Rightarrow> bool" where
  "missed_inv i received_at q fs \<longleftrightarrow>
     sq_guarantee q = missed_guarantee \<and> committed_ids fs = [] \<and> received fs = [] \<and>
     (\<exists>c. sq_cursor q = position_of c \<and> c \<le> Suc (length fs) \<and>
       (if c = 0 then sq_buffer q = []
        else sq_buffer q = [pending_new i (dummy 1) received_at] \<or>
          sq_buffer q = [] \<and> (\<exists>d at. IntentExpired i d at \<in> set fs)))"

lemma missed_read:
  assumes "missed_inv i t q fs" "ml_entries l = IntentReceived i (dummy 1) t # fs" "length (ml_entries l) < 2 ^ 64"
  shows "\<exists>q'. seq_on_doorbell mem_ops l q = Ok q' \<and> missed_inv i t q' fs \<and> sq_cursor q' \<noteq> position_of 0"
proof -
  from assms(1) obtain c where c: "sq_cursor q = position_of c" "c \<le> Suc (length fs)"
    "if c = 0 then sq_buffer q = []
     else sq_buffer q = [pending_new i (dummy 1) t] \<or> sq_buffer q = [] \<and> (\<exists>d at. IntentExpired i d at \<in> set fs)"
    by (auto simp: missed_inv_def)
  have "offset (sq_cursor q) = c"
    using c(1,2) assms(2,3) by (simp add: offset_position_of)
  then have read: "seq_on_doorbell mem_ops l q =
      Ok (q\<lparr>sq_buffer := sq_buffer q @ pendings (drop c (ml_entries l)),
            sq_cursor := position_of (length (ml_entries l))\<rparr>)"
    using mem.seq_doorbell_eq [OF TrueI, of q l] c(2) assms(2) by (simp add: mem_read_from_eq)
  have "received fs = []" using assms(1) by (simp add: missed_inv_def)
  then have "received (drop k fs) = []" for k
    by (metis append_is_Nil_conv append_take_drop_id received_simps(3))
  then have tail: "pendings (drop k fs) = []" for k
    by (simp add: pendings_def)
  have "position_of (Suc (length fs)) \<noteq> position_of 0"
    using assms(2,3) offset_position_of [of "Suc (length fs)"] offset_position_of [of 0] by (auto dest: arg_cong [where f = offset])
  moreover have "missed_inv i t (q\<lparr>sq_buffer := sq_buffer q @ pendings (drop c (ml_entries l)),
      sq_cursor := position_of (length (ml_entries l))\<rparr>) fs"
    using assms(1) c(3) tail assms(2)
    by (cases c) (auto simp: missed_inv_def pendings_def intro!: exI [of _ "Suc (length fs)"])
  ultimately show ?thesis
    using read assms(2) by auto
qed

lemma missed_tick:
  assumes "missed_inv i t q fs" "deadline_for missed_guarantee t < closed_at"
  shows "missed_inv i t (seq_ticked q) (fs @ tick_entries K closed_at q) \<and> sq_cursor (seq_ticked q) = sq_cursor q \<and>
    (sq_cursor q \<noteq> position_of 0 \<longrightarrow> (\<exists>d at. IntentExpired i d at \<in> set (fs @ tick_entries K closed_at q)))"
proof -
  from assms(1) obtain c where c: "sq_cursor q = position_of c" "c \<le> Suc (length fs)"
    "if c = 0 then sq_buffer q = []
     else sq_buffer q = [pending_new i (dummy 1) t] \<or> sq_buffer q = [] \<and> (\<exists>d at. IntentExpired i d at \<in> set fs)"
    and g: "sq_guarantee q = missed_guarantee"
    by (auto simp: missed_inv_def)
  have expired: "\<exists>d at. IntentExpired i d at \<in> set (fs @ tick_entries K closed_at q)" if "c \<noteq> 0"
    using c(3) that assms(2) g by (fastforce simp: tick_entries_def tick_expired_mem)
  have "tick_intents closed_at q = []"
    using c(3) assms(2) g tick_intents_mem [of _ closed_at q]
    by (cases "tick_intents closed_at q") (fastforce split: if_splits)+
  then have "committed_ids (tick_entries K closed_at q) = []"
    by (simp add: tick_entries_def tick_slot_def committed_ids_tick_expired committed_ids_single)
  moreover have "received (tick_entries K closed_at q) = []"
    by (auto simp: tick_entries_def tick_slot_def tick_expired_def received_def map_filter_def filter_empty_conv)
  ultimately show ?thesis
    using assms(1) c expired by (auto simp: missed_inv_def seq_ticked_def intro!: exI [of _ c])
qed

lemma missed_turns:
  assumes "missed_inv i t q fs" "ml_entries l = IntentReceived i (dummy 1) t # fs"
    and "length (ml_entries l) + 2 * length turns < 2 ^ 64"
    and "\<forall>c. CloseSlot c \<in> set turns \<longrightarrow> deadline_for missed_guarantee t < c"
  shows "\<exists>q' l' fs'. seq_turns K turns (q, l) = Some (q', l') \<and> ml_entries l' = IntentReceived i (dummy 1) t # fs' \<and>
    length (ml_entries l') < 2 ^ 64 \<and> missed_inv i t q' fs' \<and>
    (closes_after_reading turns \<or> (sq_cursor q \<noteq> position_of 0 \<and> (\<exists>c. CloseSlot c \<in> set turns)) \<or>
       (\<exists>d at. IntentExpired i d at \<in> set fs) \<longrightarrow>
     (\<exists>d at. IntentExpired i d at \<in> set fs'))"
  using assms
proof (induction turns arbitrary: q l fs)
  case (Cons turn turns)
  show ?case
  proof (cases turn)
    case ReadLog
    obtain q1 where q1: "seq_on_doorbell mem_ops l q = Ok q1" "missed_inv i t q1 fs" "sq_cursor q1 \<noteq> position_of 0"
      using missed_read [OF Cons.prems(1,2)] Cons.prems(3) by auto
    from Cons.IH [OF q1(2) Cons.prems(2)] Cons.prems(3,4) q1(1,3) show ?thesis
      by (fastforce simp: ReadLog)
  next
    case (CloseSlot c)
    obtain l1 where l1: "seq_on_tick mem_ops K c (q, l) = (Ok (seq_ticked q), l1)"
      "ml_entries l1 = ml_entries l @ tick_entries K c q"
      using mem_tick [of K c q l] by (cases "seq_on_tick mem_ops K c (q, l)") auto
    have "deadline_for missed_guarantee t < c" using Cons.prems(4) CloseSlot by simp
    note tick = missed_tick [OF Cons.prems(1) this, of K]
    have "length (sq_buffer q) \<le> 1"
      using Cons.prems(1) by (auto simp: missed_inv_def split: if_splits)
    then have len: "length (tick_entries K c q) \<le> 2"
      by (simp add: tick_entries_def tick_expired_def partition_expired_eq)
        (meson le_trans length_filter_le)
    have "length (ml_entries l1) + 2 * length turns < 2 ^ 64"
      using Cons.prems(3) len l1(2) by simp
    moreover have "ml_entries l1 = IntentReceived i (dummy 1) t # (fs @ tick_entries K c q)"
      using l1(2) Cons.prems(2) by simp
    moreover have "\<forall>c. CloseSlot c \<in> set turns \<longrightarrow> deadline_for missed_guarantee t < c"
      using Cons.prems(4) by simp
    ultimately obtain q' l' fs' where IH: "seq_turns K turns (seq_ticked q, l1) = Some (q', l')"
      "ml_entries l' = IntentReceived i (dummy 1) t # fs'" "length (ml_entries l') < 2 ^ 64" "missed_inv i t q' fs'"
      "closes_after_reading turns \<or> (sq_cursor (seq_ticked q) \<noteq> position_of 0 \<and> (\<exists>c. CloseSlot c \<in> set turns)) \<or>
         (\<exists>d at. IntentExpired i d at \<in> set (fs @ tick_entries K c q)) \<longrightarrow> (\<exists>d at. IntentExpired i d at \<in> set fs')"
      using Cons.IH [of "seq_ticked q" "fs @ tick_entries K c q" l1] tick by blast
    have "\<exists>d at. IntentExpired i d at \<in> set fs'"
      if "closes_after_reading (turn # turns) \<or> (sq_cursor q \<noteq> position_of 0 \<and> (\<exists>c. CloseSlot c \<in> set (turn # turns))) \<or>
        (\<exists>d at. IntentExpired i d at \<in> set fs)"
      using that
    proof (elim disjE)
      assume "closes_after_reading (turn # turns)"
      with IH(5) CloseSlot show ?thesis by simp
    next
      assume "sq_cursor q \<noteq> position_of 0 \<and> (\<exists>c. CloseSlot c \<in> set (turn # turns))"
      with IH(5) tick show ?thesis by blast
    next
      assume "\<exists>d at. IntentExpired i d at \<in> set fs"
      with IH(5) show ?thesis by auto
    qed
    with IH(1-4) l1(1) show ?thesis
      by (auto simp: CloseSlot)
  qed
qed auto

lemma expired_row:
  assumes "i \<in> set (received_ids es)" "IntentExpired i d at \<in> set fs"
  shows "\<exists>row. pj_intents (project g (es @ fs)) i = Some row \<and> ir_expired row \<noteq> None"
proof -
  from assms(2) obtain us vs where fs: "fs = us @ IntentExpired i d at # vs"
    by (meson split_list)
  have "i \<in> set (received_ids (es @ us))"
    using assms(1) by (simp add: received_ids_def)
  then obtain row where "pj_intents (project g (es @ us)) i = Some row"
    using project_intents_None [of g "es @ us" i] by auto
  then have "pj_intents (project g ((es @ us) @ [IntentExpired i d at])) i = Some (row\<lparr>ir_expired := Some (d, at)\<rparr>)"
    unfolding project_snoc apply_intents by (simp add: intent_step_def)
  from expired_stays [OF this, of vs] show ?thesis
    by (simp add: fs)
qed

text \<open>A receipt of an intent that expired and was in no slot.\<close>

lemma expired_receipt:
  assumes "pj_intents (project g es) i = Some row" "ir_expired row \<noteq> None" "i \<notin> set (committed_ids es)"
  shows "\<exists>r. receipt_of hex (project g es) i now_ms = Some r \<and> rc_lifecycle r = lifecycle.Expired \<and>
    (\<exists>d at. ig_state (rc_guarantee r) = Missed d at) \<and> rc_sequence r = None \<and> rc_preconf r = None"
proof -
  have "ir_slot row = None"
    using project_intents_logged [OF assms(1)] assms(3) in_committed_ids
    by (fastforce simp: intent_logged_def)
  moreover obtain d at where "ir_expired row = Some (d, at)"
    using assms(2) by auto
  ultimately show ?thesis
    using assms(1)
    by (simp add: receipt_of_def lifecycle_of_def Let_def receipt_sequence_def receipt_state_def receipt_preconf_def)
qed

lemma a_missed_window_expires_the_intent_holds:
  assumes "10000 \<le> t" "\<forall>c. CloseSlot c \<in> set turns \<longrightarrow> t \<le> c" "closes_after_reading turns"
    and "1 + 2 * length turns < 2 ^ 64"
  shows "a_missed_window_expires_the_intent t now_ms turns hex K"
proof -
  let ?i = "intent_id_of K (dummy 1)"
  let ?e = "IntentReceived ?i (dummy 1) (t - 10000)"
  let ?q = "\<lparr>sq_buffer = [], sq_guarantee = missed_guarantee, sq_cursor = position_ZERO, sq_next_slot = 0\<rparr>"
  have start: "seq_start mem_ops missed_guarantee (appended [?e]) = Ok ?q"
    by (simp add: seq_start_def mem_seq_recover seq_progress_def position_ZERO_def less_position_def position_of_def)
  have "missed_inv ?i (t - 10000) ?q []"
    by (auto simp: missed_inv_def position_ZERO_def position_of_def intro!: exI [of _ 0])
  moreover have "\<forall>c. CloseSlot c \<in> set turns \<longrightarrow> deadline_for missed_guarantee (t - 10000) < c"
    using assms(1,2) missed_deadline by blast
  ultimately obtain q l fs d at where run: "seq_turns K turns (?q, appended [?e]) = Some (q, l)"
    "ml_entries l = [?e] @ fs" "length (ml_entries l) < 2 ^ 64" "missed_inv ?i (t - 10000) q fs"
    "IntentExpired ?i d at \<in> set fs"
    using missed_turns [of ?i "t - 10000" ?q "[]" "appended [?e]" turns K] assms(3,4) by auto
  have "committed_ids (ml_entries l) = []"
    using run(4) by (simp add: run(2) missed_inv_def) (simp add: committed_ids_def)
  then have none: "?i \<notin> set (committed_ids (ml_entries l))" by simp
  have "?i \<in> set (received_ids [?e])"
    by (simp add: received_ids_def)
  from expired_row [OF this run(5), of missed_guarantee, folded run(2)]
  obtain row where "pj_intents (project missed_guarantee (ml_entries l)) ?i = Some row" "ir_expired row \<noteq> None"
    by blast
  from expired_receipt [OF this none] obtain r d at where
    r: "receipt_of hex (project missed_guarantee (ml_entries l)) ?i now_ms = Some r" "rc_lifecycle r = lifecycle.Expired"
      "ig_state (rc_guarantee r) = Missed d at" "rc_sequence r = None" "rc_preconf r = None"
    by blast
  have "projector_on_doorbell mem_ops l (projections_new missed_guarantee) = project missed_guarantee (ml_entries l)"
    using mem.projector_outcome [OF TrueI run(3), of 0 missed_guarantee] by (simp add: mem_read_from_eq)
  with r none show ?thesis
    by (simp add: a_missed_window_expires_the_intent_def start run(1))
qed

end
