(* ===== verification/Integration_Tests.thy ===== *)
theory Integration_Tests
  imports Admission_Attacks Task_Tests
begin

text \<open>
  The tests under \<^verbatim>\<open>src/tests\<close> as one suite: what hostile submitters and a hostile sequencer achieve,
  and the tests that run one or two tasks. Four tests compare hashes of their own and are lemmas of their
  theories under the inequations they need (\<open>grinding_an_intent_id_wins_the_tie_and_nothing_above_it_holds\<close>,
  \<open>an_attested_preconf_says_nothing_about_the_ordering_policy_holds\<close>,
  \<open>a_reordered_slot_cannot_be_passed_off_under_an_honest_quote_holds\<close>,
  \<open>one_slot_can_carry_two_verifiable_and_contradictory_preconfs_holds\<close>). The three tests that wait for the
  whole pipeline are in \<open>Pipeline_Tests\<close>.
\<close>






section \<open>A hash and a schedule\<close>

text \<open>The id of a test intent keeps its submitter, its nonce and the low byte of its fee.\<close>

definition short_market :: "intent \<Rightarrow> bool" where
  "short_market i \<longleftrightarrow> length (market_base (i_market i)) = 3 \<and> market_quote (i_market i) = ''USDC''"



definition testkit_intent :: "string \<Rightarrow> u8 \<Rightarrow> u64 \<Rightarrow> u64 \<Rightarrow> u64 \<Rightarrow> intent" where
  "testkit_intent m s n f t = (testkit_dummy 0)\<lparr>i_submitter := Address (array_repeat s), i_nonce := n,
     i_priority_fee := f, i_market := Market m ''USDC'', i_timestamp_ms := testkit_TEST_NOW + t\<rparr>"


lemma test_key_simps [simp]:
  "test_key (testkit_intent m s n f t) = (Address (array_repeat s), n, to_le_bytes f ! 0)"
  "test_key (live_intent s n t) = (Address (array_repeat s), n, to_le_bytes n ! 0)"
  "test_key (forged_as a n f) = (a, n, to_le_bytes f ! 0)"
  "short_market (testkit_intent m s n f t) \<longleftrightarrow> length m = 3" "short_market (live_intent s n t)"
  "short_market (forged_as a n f)"
  by (simp_all add: test_key_def testkit_intent_def live_intent_def forged_as_def short_market_def)








end
