(* ===== verification/Final_Receipt.thy ===== *)
theory Final_Receipt
  imports Pipeline_Run Pipeline_Restart Testkit
begin

text \<open>
  What a client can rely on once its receipt is final, in the running pipeline: every part of the
  receipt is there, they are about one slot, and they agree.
\<close>

section \<open>A final receipt is coherent\<close>

text \<open>The agreement of the parts of a receipt; \<open>m\<close> is the measurement of the enclave's build.\<close>

definition coherent :: "keccak \<Rightarrow> measurement \<Rightarrow> (bytes \<Rightarrow> string) \<Rightarrow> receipt \<Rightarrow> bool" where
  "coherent K m hex r \<longleftrightarrow>
    (case (rc_sequence r, rc_preconf r, rc_proof r, ig_state (rc_guarantee r)) of
       (Some sp, Some pf, Some pr, Met slot at) \<Rightarrow>
         slot = sp_slot sp \<and> at \<le> ig_deadline_ms (rc_guarantee r) \<and>
         pf_slot pf = sp_slot sp \<and> pf_commitment pf = sp_slot_commitment sp \<and>
         pf_quote pf = hex (encode_quote (sp_slot sp) (sp_slot_commitment sp) m) \<and>
         pf_signature pf = mock_over K (array_bytes (commitment_array (sp_slot_commitment sp))) \<and>
         pf_from_slot pr \<le> sp_slot sp \<and> sp_slot sp \<le> pf_to_slot pr \<and>
         pf_backend pr = ''mock'' \<and> pf_vkey_hash pr = hex (array_bytes MOCK_VKEY_HASH)
     | _ \<Rightarrow> False)"

lemma proven_handle:
  assumes "proofs_fine K b es" "SlotsProven from_slot to_slot h \<in> set es"
  shows "ph_backend h = Mock \<and> ph_vkey_hash h = MOCK_VKEY_HASH"
proof -
  have "proof_fine (mock_prove_ops K) b es (SlotsProven from_slot to_slot h)"
    using assms by (auto simp: proofs_fine_def)
  then obtain batch where "\<forall>st. mock_verify K h batch st = Ok ()"
    by (auto simp: proof_fine_def discharged_def mock_prove_ops_def)
  then show ?thesis
    by (auto simp: mock_verify_def split: if_splits)
qed

text \<open>A preconfirmation in the log is the quote and signature over the commitment of its slot.\<close>

lemma attested_evidence:
  assumes "attestations_fine K m es" "distinct (committed_slots es)"
    and "SlotAttested s q g \<in> set es" "SlotCommitted s ids p c t \<in> set es"
  shows "q = encode_quote s c m \<and> g = mock_over K (array_bytes (commitment_array c))"
proof -
  from assms(1,3) obtain intents p' c' t' where com: "SlotCommitted s intents p' c' t' \<in> set es"
    and ok: "verify_preconf K (mock_verifier K m) \<lparr>pc_slot = s, pc_commitment = c', pc_quote = q, pc_signature = g\<rparr> intents = Ok ()"
    unfolding attestations_fine_def by blast
  have "c' = c"
    using committed_once [OF assms(2,4) com] by simp
  with ok show ?thesis
    by (simp add: verify_preconf_Ok_iff mock_verifier_def)
qed

text \<open>The row of a proven intent holds its slot and all the evidence.\<close>

lemma final_row:
  assumes "pj_intents (project g es) i = Some row" "lifecycle_of (project g es) row = Some FinalProven"
  obtains s k sr pc rg where "ir_slot row = Some s" "ir_index_in_slot row = Some k" "ir_expired row = None"
    "slot_rows es s = Some sr" "sr_preconf sr = Some pc" "sr_proof sr = Some rg"
proof -
  from assms(2) obtain s sr where s: "ir_expired row = None" "ir_slot row = Some s" "slot_rows es s = Some sr"
    and "sr_stage sr = StageProven"
    by (cases "ir_expired row")
      (auto simp: lifecycle_of_def project_slots split: if_splits option.splits slot_stage.splits)
  moreover from this slot_rows_evidence [OF s(3)] obtain pc rg where "sr_preconf sr = Some pc" "sr_proof sr = Some rg"
    by (auto simp: evidence_ok_def)
  moreover have "ir_index_in_slot row \<noteq> None"
    using project_intents_logged [OF assms(1)] s(2) by (simp add: intent_logged_def)
  ultimately show thesis using that by auto
qed

lemma final_coherent:
  assumes inv: "pipe_inv K g m b s"
    and r: "receipt_of hex (pl_proj s) i now_ms = Some r" "rc_lifecycle r = FinalProven"
  shows "coherent K m hex r"
proof -
  let ?es = "pl_entries s"
  obtain k where proj: "pl_proj s = project g (take k ?es)"
    and att: "attestations_fine K m ?es" and prv: "proofs_fine K b ?es"
    and seq: "\<forall>e \<in> set ?es. seq_entry_fine K g ?es e" and gate: "admitted_ok K g ?es"
    using inv by (auto simp: pipe_inv_def att_inv_def seq_inv_def gate_synced_def)
  let ?fs = "take k ?es"
  have sub: "e \<in> set ?es" if "e \<in> set ?fs" for e
    using that set_take_subset by fastforce
  note dist = pipe_inv_distinct_slots [OF inv]
  from r obtain row where row: "pj_intents (project g ?fs) i = Some row"
    "lifecycle_of (project g ?fs) row = Some FinalProven"
    by (auto simp: proj receipt_of_def Let_def split: bind_splits)
  from final_row [OF this] obtain slot j sr pc rg where s: "ir_slot row = Some slot" "ir_index_in_slot row = Some j"
    "ir_expired row = None" "slot_rows ?fs slot = Some sr" "sr_preconf sr = Some pc" "sr_proof sr = Some rg"
    by blast
  from slot_rows_logged [OF s(4)] obtain ids p where com: "SlotCommitted slot ids p (sr_commitment sr) (sr_committed_at_ms sr) \<in> set ?es"
    and attd: "SlotAttested slot (pr_quote pc) (pr_signature pc) \<in> set ?es"
    and prvd: "SlotsProven (rg_from_slot rg) (rg_to_slot rg) (rg_handle rg) \<in> set ?es"
    and range: "rg_from_slot rg \<le> slot" "slot \<le> rg_to_slot rg"
    using s(5,6) sub by (auto simp: row_logged_def)
  from project_intents_logged [OF row(1)] s(1) obtain n intent ids' p' c' t' where
    rec: "n < length ?fs" "?fs ! n = IntentReceived i intent (ir_received_at_ms row)"
    and com': "SlotCommitted slot ids' p' c' t' \<in> set ?fs" "i \<in> set ids'"
    by (auto simp: intent_logged_def)
  have "IntentReceived i intent (ir_received_at_ms row) \<in> set ?es"
    using rec sub nth_mem by metis
  moreover have "i \<in> set ids"
    using committed_once [OF dist com sub [OF com'(1)]] com'(2) by simp
  with seq com obtain intent' t where "IntentReceived i intent' t \<in> set ?es" "sr_committed_at_ms sr \<le> deadline_for g t"
    by (fastforce simp: seq_entry_fine_def)
  ultimately have "sr_committed_at_ms sr \<le> deadline_for g (ir_received_at_ms row)"
    using received_once gate unfolding admitted_ok_def by metis
  with r s range attested_evidence [OF att dist attd com] proven_handle [OF prv prvd] row show ?thesis
    by (auto simp: coherent_def proj receipt_of_def Let_def project_slots receipt_sequence_def receipt_state_def
        receipt_preconf_def receipt_proof_def split: bind_splits)
qed

text \<open>
  C8: A final receipt is complete and coherent. In every reachable state, a receipt whose status is
  final has a place, a preconfirmation, a proof and a met guarantee, and they agree: the guarantee was met by
  the intent's own slot, closed by the deadline the receipt states; the preconfirmation is of that slot
  and its commitment, with the quote of the enclave's build and the signature over that commitment; and
  the proof's range holds the slot and names the backend and its verifying key.
\<close>

theorem final_receipt_coherent:
  assumes "reachable K (pipeline_start g en backend cfg) s" "mock_latency_ok backend" "0 < bc_batch_size cfg"
    and "receipt_of hex (pl_proj s) i now_ms = Some r" "rc_lifecycle r = FinalProven"
  shows "coherent K (me_measurement en) hex r"
  by (rule final_coherent [OF reachable_inv [OF assms(1-3)] assms(4,5)])

theorem final_receipt_coherent_witness:
  "\<exists>s r. reachable run_K run_start s \<and> receipt_of (\<lambda>_. []) (pl_proj s) run_id TEST_NOW = Some r \<and>
     rc_lifecycle r = FinalProven \<and> coherent run_K MOCK_MEASUREMENT (\<lambda>_. []) r"
proof -
  obtain s h where s: "reachable run_K run_start s"
    "pl_entries s = [run_received, run_committed, run_attested, SlotsProven 0 0 h]"
    "pl_proj s = project guarantee_default (pl_entries s)"
    using run_final by blast
  have "\<exists>r. receipt_of (\<lambda>_. []) (pl_proj s) run_id TEST_NOW = Some r \<and> rc_lifecycle r = FinalProven"
    by (simp add: s(2,3) project_def run_received_def run_committed_def run_attested_def
        projection_apply_def projections_new_def modify_def receipt_of_def lifecycle_of_def
        receipt_preconf_def attest_row_def prove_row_def inclusive_range_def Let_def)
  then obtain r where r: "receipt_of (\<lambda>_. []) (pl_proj s) run_id TEST_NOW = Some r" "rc_lifecycle r = FinalProven"
    by blast
  from final_receipt_coherent [OF s(1) [unfolded run_start_def] run_hypotheses r] s(1) r show ?thesis
    by (auto simp: mock_enclave_new_def)
qed

end
