(* ===== verification/Pipeline_Tests.thy ===== *)
theory Pipeline_Tests
  imports Final_Receipt
begin

text \<open>
  The tests of \<^verbatim>\<open>src/tests/pipeline.rs\<close> that wait for the whole pipeline. Each submits one intent and polls
  its receipt until it is final; the assertions are definitions over that receipt, and hold whatever
  the tasks' interleaving and whatever read models and clocks the polls see. That the receipt becomes
  final at all is the theorem \<open>intents_settle\<close> and the run of \<open>Pipeline_Run\<close>.
\<close>

section \<open>The harness's records\<close>

text \<open>An attestation or a proof in the log leaves its trace in the mock that produced it.\<close>

definition calls_recorded :: "pipeline \<Rightarrow> bool" where
  "calls_recorded s \<longleftrightarrow>
     (harness_seen s = [] \<longrightarrow> (\<forall>slot q g. SlotAttested slot q g \<notin> set (pl_entries s))) \<and>
     (harness_batches s = [] \<longrightarrow> (\<forall>a b h. SlotsProven a b h \<notin> set (pl_entries s)))"

lemma mock_prove_recorded: "mock_prove K slots st = Some (r, st') \<Longrightarrow> mp_batches st' \<noteq> []"
  by (auto simp: mock_prove_def Let_def split: if_splits)

lemma flush_recorded:
  "prover_flush L (mock_prove_ops K) (p, l) = Some (r, p', l') \<Longrightarrow> mp_batches (pr_prover p') \<noteq> []"
  by (auto simp: prover_flush_def proof_entry_def mock_prove_ops_def Let_def dest: mock_prove_recorded
      split: if_splits option.splits prod.splits sum.splits)

text \<open>The prover leaves its backend and the log alone, or the backend holds the call.\<close>

definition idle_or_recorded :: "'l \<Rightarrow> mock_prover \<Rightarrow> (mock_prover, 'l) prover_result \<Rightarrow> bool" where
  "idle_or_recorded l st res \<longleftrightarrow>
     (\<forall>r p' l'. res = Some (r, p', l') \<longrightarrow>
        (l' = l \<and> pr_prover p' = st) \<or> mp_batches (pr_prover p') \<noteq> [])"

lemma flush_idle_or_recorded: "idle_or_recorded l st (prover_flush L (mock_prove_ops K) (p, l'))"
  by (auto simp: idle_or_recorded_def dest: flush_recorded)

lemma fill_idle_or_recorded: "idle_or_recorded l (pr_prover p) (prover_fill L (mock_prove_ops K) (p, l))"
  by (auto simp: prover_fill_def idle_or_recorded_def dest: flush_recorded)

lemma fill_keeps_record:
  "prover_fill L (mock_prove_ops K) (p, l) = Some (r, p', l') \<Longrightarrow> mp_batches (pr_prover p) \<noteq> [] \<Longrightarrow>
     mp_batches (pr_prover p') \<noteq> []"
  using fill_idle_or_recorded [of l p L K] by (auto simp: idle_or_recorded_def)

lemma flush_fill_recorded:
  "idle_or_recorded l st (and_then (prover_flush L (mock_prove_ops K) (p, l)) (prover_fill L (mock_prove_ops K)))"
  by (auto simp: idle_or_recorded_def and_then_def split: option.splits sum.splits
      dest: flush_recorded fill_keeps_record)

lemma entry_recorded: "idle_or_recorded l (pr_prover p) (prover_entry L (mock_prove_ops K) e (p, l))"
proof -
  have fill: "idle_or_recorded l (pr_prover p) (prover_fill L (mock_prove_ops K) (p', l))"
    if "pr_prover p' = pr_prover p" for p'
    using fill_idle_or_recorded [of l p' L K] that by simp
  have idle: "idle_or_recorded l (pr_prover p) (Some (r, p, l))" for r
    by (simp add: idle_or_recorded_def)
  show ?thesis
    by (cases e) (auto simp: prover_entry_def Let_def intro!: fill idle flush_fill_recorded split: option.split)
qed

lemma timer_recorded: "idle_or_recorded l (pr_prover p) (prover_on_timer L (mock_prove_ops K) (p, l))"
  by (auto simp: prover_on_timer_def idle_or_recorded_def dest: flush_recorded)

lemma attest_recorded:
  "SlotAttested slot q g \<in> set (fst (verdicts K (mock_attest K) [e] en)) \<Longrightarrow>
     me_seen (snd (verdicts K (mock_attest K) [e] en)) \<noteq> []"
  "me_seen en \<noteq> [] \<Longrightarrow> me_seen (snd (verdicts K (mock_attest K) [e] en)) \<noteq> []"
  "SlotsProven x y h \<notin> set (fst (verdicts K (mock_attest K) [e] en))"
  by (cases e; auto simp: att_verdict_def attest_slot_def mock_attest_def Let_def split: if_splits prod.splits)+

lemma calls_recorded_step:
  assumes "pipe_step K s s'" "calls_recorded s" "pipe_inv K g m b s"
  shows "calls_recorded s'"
  using assms
proof cases
  case (step_submit intent now_ms r a l)
  from mem.admit_outcome [OF TrueI step_submit(2)]
  have "\<forall>e \<in> set (ml_entries l). e \<in> set (pl_entries s) \<or> received_of e \<noteq> None"
    by (cases r) fastforce+
  with step_submit assms(2) show ?thesis
    by (fastforce simp: calls_recorded_def harness_seen_def harness_batches_def)
next
  case (step_seq_append e es p l)
  with assms(3) have "is_seq_entry e" by (simp add: pipe_inv_def)
  with step_seq_append assms(2) show ?thesis
    by (cases e) (auto simp: calls_recorded_def harness_seen_def harness_batches_def is_seq_entry_def mem_append_eq)
next
  case (step_att_rule pe pes a l)
  obtain pos e where pe: "pe = (pos, e)" by (cases pe)
  let ?vs = "verdicts K (mock_attest K) [e] (at_enclave (pl_att s))"
  from step_att_rule pe have "att_process mem_ops K (mock_attest K) (pos, e) (pl_att s, pl_log s) = (Ok (), a, l)"
    by simp
  from mem.att_process_outcome [OF TrueI this]
  have a: "at_enclave a = snd ?vs" and l: "ml_entries l = pl_entries s @ fst ?vs"
    by simp_all
  with step_att_rule assms(2) a l attest_recorded show ?thesis
    by (auto simp: calls_recorded_def harness_seen_def harness_batches_def)
next
  case (step_prv_entry e es p l)
  from prv_entry_ok [OF assms(3) step_prv_entry(2)] step_prv_entry(3)
  have "SlotAttested slot q h \<in> set (ml_entries l) \<longleftrightarrow> SlotAttested slot q h \<in> set (pl_entries s)" for slot q h
    using proof_entry_kind by fastforce
  with step_prv_entry entry_recorded [of "pl_log s" "pl_prv s" mem_ops K e] assms(2) show ?thesis
    by (auto simp: calls_recorded_def harness_seen_def harness_batches_def idle_or_recorded_def)
next
  case (step_prv_timer p l)
  from prv_timer_ok [OF assms(3) step_prv_timer(2)] step_prv_timer(3)
  have "SlotAttested slot q h \<in> set (ml_entries l) \<longleftrightarrow> SlotAttested slot q h \<in> set (pl_entries s)" for slot q h
    using proof_entry_kind by fastforce
  with step_prv_timer timer_recorded [of "pl_log s" "pl_prv s" mem_ops K] assms(2) show ?thesis
    by (auto simp: calls_recorded_def harness_seen_def harness_batches_def idle_or_recorded_def)
qed (auto simp: calls_recorded_def harness_seen_def harness_batches_def)

text \<open>The log only grows.\<close>

lemma pipe_step_log:
  assumes "pipe_step K s s'" "pipe_inv K g m b s"
  shows "\<exists>fs. pl_entries s' = pl_entries s @ fs"
  using assms(1)
proof cases
  case (step_submit intent now_ms r a l)
  with mem.admit_outcome [OF TrueI step_submit(2)] show ?thesis
    by (cases r) fastforce+
next
  case (step_att_rule pe pes a l)
  obtain pos e where "pe = (pos, e)" by (cases pe)
  with step_att_rule mem.att_process_outcome [OF TrueI, of K "mock_attest K" pos e] show ?thesis
    by fastforce
next
  case (step_prv_entry e es p l)
  with prv_entry_ok [OF assms(2)] show ?thesis by fastforce
next
  case (step_prv_timer p l)
  with prv_timer_ok [OF assms(2)] show ?thesis by fastforce
qed (auto simp: mem_append_eq)

section \<open>The spawned pipeline\<close>

lemma spawn_hypotheses:
  "mock_latency_ok (prover_with_latency (from_millis 1) mock_prover_new)"
  "0 < bc_batch_size \<lparr>bc_batch_size = 2, bc_flush_after = from_millis 20\<rparr>"
proof -
  have "unat n * 1000000 div 1000000000 < 2 ^ 64" for n :: u32
  proof (rule le_less_trans [OF div_le_dividend])
    have "unat n < 2 ^ 32" using unsigned_less [of n] by simp
    then show "unat n * 1000000 < 2 ^ 64" by simp
  qed
  then show "mock_latency_ok (prover_with_latency (from_millis 1) mock_prover_new)"
    by (simp add: mock_latency_ok_def prover_with_latency_def duration_mul_fits_def
        unat_from_millis_nanos mult.commute) (simp add: from_millis_def)
qed simp

text \<open>What holds in each of its states, and from each to any later one.\<close>

definition spawned :: "keccak \<Rightarrow> pipeline \<Rightarrow> bool" where
  "spawned K s \<longleftrightarrow> (pipe_step K)\<^sup>*\<^sup>* spawn_pipeline s"

definition spawn_inv :: "keccak \<Rightarrow> pipeline \<Rightarrow> bool" where
  "spawn_inv K s \<longleftrightarrow> pipe_inv K TEST_GUARANTEE MOCK_MEASUREMENT 2 s \<and> calls_recorded s"

lemma spawn_inv_start: "spawn_inv K spawn_pipeline"
  using pipe_inv_start [OF spawn_hypotheses, of K TEST_GUARANTEE mock_enclave_new]
  by (simp add: spawn_inv_def spawn_pipeline_def mock_enclave_new_def calls_recorded_def)
    (simp add: pipeline_start_def mem_log_new_def)

lemma spawn_inv_steps:
  assumes "(pipe_step K)\<^sup>*\<^sup>* s s'" "spawn_inv K s"
  shows "spawn_inv K s' \<and> (\<exists>fs. pl_entries s' = pl_entries s @ fs)"
  using assms
proof (induction rule: rtranclp_induct)
  case (step s1 s2)
  then have inv: "pipe_inv K TEST_GUARANTEE MOCK_MEASUREMENT 2 s1" "calls_recorded s1"
    by (simp_all add: spawn_inv_def)
  from pipe_inv_step [OF step.hyps(2) inv(1)] calls_recorded_step [OF step.hyps(2) inv(2,1)]
    pipe_step_log [OF step.hyps(2) inv(1)] step.IH [OF step.prems]
  show ?case by (auto simp: spawn_inv_def)
qed simp

lemma spawned_inv: "spawned K s \<Longrightarrow> spawn_inv K s"
  unfolding spawned_def using spawn_inv_steps spawn_inv_start by blast

text \<open>
  A read model that a poll can see when the pipeline is in state \<open>h\<close> at the end, and the intent is the
  only one in its log.
\<close>

definition polled :: "keccak \<Rightarrow> pipeline \<Rightarrow> intent \<Rightarrow> u64 \<Rightarrow> projections \<Rightarrow> bool" where
  "polled K h intent received_at p \<longleftrightarrow>
     (\<exists>s. spawned K s \<and> (pipe_step K)\<^sup>*\<^sup>* s h \<and> pl_proj s = p) \<and>
     received (pl_entries h) = [(intent_id_of K intent, intent, received_at)]"

lemma await_proven_polled:
  "await_proven hex polls i = Some r \<Longrightarrow>
    \<exists>(p, now_ms) \<in> set polls. receipt_of hex p i now_ms = Some r \<and> rc_lifecycle r = FinalProven"
  by (induction hex polls i rule: await_proven.induct) (auto split: option.splits if_splits)

text \<open>The receipt of the only intent: it is coherent, and its slot holds nothing else.\<close>

lemma received_append: "received (es @ fs) = received es @ received fs"
  by (simp add: received_def map_filter_append)

lemma sole_receipt:
  assumes inv: "pipe_inv K g m b s"
    and only: "\<forall>(j, x, u) \<in> set (received (pl_entries s)). j = i \<and> u = t"
    and r: "receipt_of hex (pl_proj s) i now_ms = Some r" "rc_lifecycle r = FinalProven"
  shows "\<exists>sp. rc_sequence r = Some sp \<and> sp_index sp = 0 \<and> sp_slot_commitment sp = commit K (sp_slot sp) [i] \<and>
    ig_received_at_ms (rc_guarantee r) = t \<and> ig_deadline_ms (rc_guarantee r) = deadline_for g t"
proof -
  let ?es = "pl_entries s"
  obtain k where proj: "pl_proj s = project g (take k ?es)" and seq: "\<forall>e \<in> set ?es. seq_entry_fine K g ?es e"
    using inv by (auto simp: pipe_inv_def seq_inv_def)
  let ?fs = "take k ?es"
  from pipe_inv_distinct_slots [OF inv] have dist: "distinct (committed_slots ?fs)"
    by (metis append_take_drop_id committed_slots_def map_filter_append distinct_append)
  from receipt_of_Some [OF r(1) [unfolded proj]] r(2) obtain row where row: "pj_intents (project g ?fs) i = Some row"
    "lifecycle_of (project g ?fs) row = Some FinalProven"
    and sq: "rc_sequence r = receipt_sequence row (Option.bind (ir_slot row) (slot_rows ?fs))"
    by metis
  note logged = project_intents_logged [OF row(1)]
  from final_receipt_complete [OF row, of hex] sq obtain sp where sp: "rc_sequence r = Some sp"
    by auto
  from receipt_sequence_logged [OF dist logged sp [unfolded sq]] obtain ids p u j
    where taken: "SlotCommitted (sp_slot sp) ids p (sp_slot_commitment sp) u \<in> set ?fs"
      and j: "j < length ids" "ids ! j = i" "sp_index sp = word_of_nat j"
    by blast
  from in_set_takeD [OF taken] have com: "SlotCommitted (sp_slot sp) ids p (sp_slot_commitment sp) u \<in> set ?es" .
  have "set ids \<subseteq> {i}"
    using pipe_inv_placed_once(2) [OF inv] only in_committed_ids [OF com] by (fastforce simp: received_ids_def)
  moreover have "distinct ids"
    using pipe_inv_placed_once(1) [OF inv] com by (auto dest!: split_list simp: committed_ids_def)
  ultimately have ids: "ids = [i]"
    using j(1) by (cases ids rule: remdups_adj.cases) auto
  from logged obtain n intent where "n < length ?fs" "?fs ! n = IntentReceived i intent (ir_received_at_ms row)"
    by (auto simp: intent_logged_def)
  then have "IntentReceived i intent (ir_received_at_ms row) \<in> set ?es"
    by (metis in_set_takeD nth_mem)
  with only have "ir_received_at_ms row = t"
    by (auto simp flip: mem_received)
  moreover have "sp_slot_commitment sp = commit K (sp_slot sp) [i]"
    using seq com ids by (auto simp: seq_entry_fine_def)
  ultimately show ?thesis
    using sp ids j r(1) row(1) by (auto simp: proj receipt_of_def Let_def split: bind_splits)
qed

section \<open>The tests\<close>

definition intent_reaches_proven :: "pipeline \<Rightarrow> receipt \<Rightarrow> bool" where
  "intent_reaches_proven h receipt \<longleftrightarrow>
     rc_lifecycle receipt = FinalProven \<and> harness_seen h \<noteq> [] \<and> harness_batches h \<noteq> []"

definition receipt_carries_position_guarantee_and_evidence ::
    "keccak \<Rightarrow> (bytes \<Rightarrow> string) \<Rightarrow> u64 \<Rightarrow> receipt \<Rightarrow> bool" where
  "receipt_carries_position_guarantee_and_evidence K hex received_at receipt \<longleftrightarrow>
    (case rc_sequence receipt of
       None \<Rightarrow> False
     | Some sq \<Rightarrow>
         sp_index sq = 0 \<and> ig_received_at_ms (rc_guarantee receipt) = received_at \<and>
         ig_deadline_ms (rc_guarantee receipt) = deadline_for TEST_GUARANTEE received_at \<and>
         (case ig_state (rc_guarantee receipt) of Met slot _ \<Rightarrow> slot = sp_slot sq | _ \<Rightarrow> False) \<and>
         (case rc_preconf receipt of
            None \<Rightarrow> False
          | Some preconf \<Rightarrow>
              pf_slot preconf = sp_slot sq \<and> pf_commitment preconf = sp_slot_commitment sq \<and>
              pf_signature preconf = mock_over K (array_bytes (commitment_array (sp_slot_commitment sq)))) \<and>
         (case rc_proof receipt of
            None \<Rightarrow> False
          | Some proof \<Rightarrow>
              pf_from_slot proof \<le> sp_slot sq \<and> sp_slot sq \<le> pf_to_slot proof \<and>
              pf_vkey_hash proof = hex (replicate 32 0xAA)))"

text \<open>\<open>unhex\<close> is \<open>hex::decode\<close>.\<close>

definition a_receipt_preconf_verifies_offline ::
    "keccak \<Rightarrow> (string \<Rightarrow> bytes option) \<Rightarrow> intent_id \<Rightarrow> receipt \<Rightarrow> bool" where
  "a_receipt_preconf_verifies_offline K unhex i receipt \<longleftrightarrow>
    (case (rc_sequence receipt, rc_preconf receipt) of
       (Some sq, Some preconf) \<Rightarrow>
         (case unhex (pf_quote preconf) of
            None \<Rightarrow> False
          | Some quote \<Rightarrow>
              let claim = \<lparr>pc_slot = sp_slot sq, pc_commitment = sp_slot_commitment sq,
                    pc_quote = quote, pc_signature = pf_signature preconf\<rparr>;
                  V = mock_verifier_default K
              in verify_preconf K V claim [i] = Ok () \<and>
                 verify_preconf K V claim [intent_id_of K (dummy 12)] = Err ContentsMismatch)
     | _ \<Rightarrow> False)"

text \<open>
  They hold on the receipt the polls wait for. The last one needs the two slots to differ in their
  commitment, which is the hash's part.
\<close>

lemma awaited_sole:
  assumes "\<forall>(p, now_ms) \<in> set polls. polled K h intent received_at p"
    and "await_proven hex polls (intent_id_of K intent) = Some receipt"
  obtains s now_ms where "spawn_inv K s" "(pipe_step K)\<^sup>*\<^sup>* s h"
    "\<forall>(j, x, u) \<in> set (received (pl_entries s)). j = intent_id_of K intent \<and> u = received_at"
    "receipt_of hex (pl_proj s) (intent_id_of K intent) now_ms = Some receipt"
    "rc_lifecycle receipt = FinalProven"
proof -
  from await_proven_polled [OF assms(2)] assms(1) obtain p now_ms where p: "polled K h intent received_at p"
    "receipt_of hex p (intent_id_of K intent) now_ms = Some receipt" "rc_lifecycle receipt = FinalProven"
    by blast
  then obtain s where s: "spawned K s" "(pipe_step K)\<^sup>*\<^sup>* s h" "pl_proj s = p"
    and h: "received (pl_entries h) = [(intent_id_of K intent, intent, received_at)]"
    by (auto simp: polled_def)
  from spawn_inv_steps [OF s(2) spawned_inv [OF s(1)]] obtain fs where "pl_entries h = pl_entries s @ fs"
    by blast
  then have "set (received (pl_entries s)) \<subseteq> set (received (pl_entries h))"
    by (simp add: received_append)
  with h have "set (received (pl_entries s)) \<subseteq> {(intent_id_of K intent, intent, received_at)}"
    by simp
  then have "\<forall>(j, x, u) \<in> set (received (pl_entries s)). j = intent_id_of K intent \<and> u = received_at"
    by blast
  from that [OF spawned_inv [OF s(1)] s(2) this p(2) [folded s(3)] p(3)] show ?thesis .
qed

lemma final_evidence:
  assumes "pipe_inv K g m b s" "receipt_of hex (pl_proj s) i now_ms = Some r" "rc_lifecycle r = FinalProven"
  shows "\<exists>slot q c. SlotAttested slot q c \<in> set (pl_entries s)" "\<exists>x y h. SlotsProven x y h \<in> set (pl_entries s)"
proof -
  obtain k where proj: "pl_proj s = project g (take k (pl_entries s))"
    using assms(1) by (auto simp: pipe_inv_def)
  from receipt_of_Some [OF assms(2) [unfolded proj]] assms(3) obtain row
    where "pj_intents (project g (take k (pl_entries s))) i = Some row"
      "lifecycle_of (project g (take k (pl_entries s))) row = Some FinalProven"
    by metis
  then obtain slot j sr pc rg where "ir_slot row = Some slot" "ir_index_in_slot row = Some j" "ir_expired row = None"
    and sr: "slot_rows (take k (pl_entries s)) slot = Some sr" "sr_preconf sr = Some pc" "sr_proof sr = Some rg"
    by (rule final_row)
  let ?fs = "take k (pl_entries s)"
  from slot_rows_logged [OF sr(1)] sr(2,3) have "SlotAttested slot (pr_quote pc) (pr_signature pc) \<in> set ?fs"
    "SlotsProven (rg_from_slot rg) (rg_to_slot rg) (rg_handle rg) \<in> set ?fs"
    unfolding row_logged_def by simp_all
  from this [THEN in_set_takeD]
  show "\<exists>slot q c. SlotAttested slot q c \<in> set (pl_entries s)" "\<exists>x y h. SlotsProven x y h \<in> set (pl_entries s)"
    by blast+
qed

lemma intent_reaches_proven_holds:
  assumes "\<forall>(p, now_ms) \<in> set polls. polled K h intent received_at p"
    and "await_proven hex polls (intent_id_of K intent) = Some receipt"
  shows "intent_reaches_proven h receipt"
proof -
  from awaited_sole [OF assms] obtain s now_ms where s: "spawn_inv K s" "(pipe_step K)\<^sup>*\<^sup>* s h"
    and r: "receipt_of hex (pl_proj s) (intent_id_of K intent) now_ms = Some receipt"
    "rc_lifecycle receipt = FinalProven"
    by blast
  from s(1) have inv: "pipe_inv K TEST_GUARANTEE MOCK_MEASUREMENT 2 s"
    by (simp add: spawn_inv_def)
  from spawn_inv_steps [OF s(2,1)] have "set (pl_entries s) \<subseteq> set (pl_entries h)" "calls_recorded h"
    by (auto simp: spawn_inv_def)
  with final_evidence [OF inv r] r(2) show ?thesis
    by (auto simp: intent_reaches_proven_def calls_recorded_def)
qed

lemma receipt_carries_position_guarantee_and_evidence_holds:
  assumes "\<forall>(p, now_ms) \<in> set polls. polled K h intent received_at p"
    and "await_proven hex polls (intent_id_of K intent) = Some receipt"
  shows "receipt_carries_position_guarantee_and_evidence K hex received_at receipt"
proof -
  from awaited_sole [OF assms] obtain s now_ms where "spawn_inv K s"
    and only: "\<forall>(j, x, u) \<in> set (received (pl_entries s)). j = intent_id_of K intent \<and> u = received_at"
    and r: "receipt_of hex (pl_proj s) (intent_id_of K intent) now_ms = Some receipt"
    "rc_lifecycle receipt = FinalProven"
    by blast
  then have inv: "pipe_inv K TEST_GUARANTEE MOCK_MEASUREMENT 2 s"
    by (simp add: spawn_inv_def)
  from sole_receipt [OF inv only r] final_coherent [OF inv r] show ?thesis
    by (auto simp: receipt_carries_position_guarantee_and_evidence_def coherent_def MOCK_VKEY_HASH_def
        split: option.splits guarantee_state.splits)
qed

lemma a_receipt_preconf_verifies_offline_holds:
  assumes "\<forall>(p, now_ms) \<in> set polls. polled K h intent received_at p"
    and "await_proven hex polls (intent_id_of K intent) = Some receipt"
    and "\<forall>b. unhex (hex b) = Some b"
    and "\<forall>slot. commit K slot [intent_id_of K (dummy 12)] \<noteq> commit K slot [intent_id_of K intent]"
  shows "a_receipt_preconf_verifies_offline K unhex (intent_id_of K intent) receipt"
proof -
  from awaited_sole [OF assms(1,2)] obtain s now_ms where "spawn_inv K s"
    and only: "\<forall>(j, x, u) \<in> set (received (pl_entries s)). j = intent_id_of K intent \<and> u = received_at"
    and r: "receipt_of hex (pl_proj s) (intent_id_of K intent) now_ms = Some receipt"
    "rc_lifecycle receipt = FinalProven"
    by blast
  then have inv: "pipe_inv K TEST_GUARANTEE MOCK_MEASUREMENT 2 s"
    by (simp add: spawn_inv_def)
  from sole_receipt [OF inv only r] obtain sq where sq: "rc_sequence receipt = Some sq"
    "sp_slot_commitment sq = commit K (sp_slot sq) [intent_id_of K intent]"
    by blast
  with final_coherent [OF inv r] assms(3) assms(4) [THEN spec, of "sp_slot sq"] show ?thesis
    by (auto simp: a_receipt_preconf_verifies_offline_def coherent_def Let_def verify_preconf_def
        decode_encode_quote mock_verifier_default_def mock_verifier_def
        split: option.splits guarantee_state.splits)
qed

end
