(* ===== verification/Spec2Isabelle.thy ===== *)
theory Spec2Isabelle
  imports Ordering_Properties Admission_Properties Sequencer_Properties Attest_Properties
    Prove_Properties Projection_Properties Redb_Properties Startup Pipeline_Run
    Pipeline_Liveness Pipeline_Finality Http Wire_Schema Unit_Tests Integration_Tests Pipeline_Tests
begin

text \<open>
  A model of \<^emph>\<open>zequencer\<close>, a sequencing simulator for a ZK layer 2, and the theorems that make it
  correct. The program is one append-only log and five parties that share it and nothing else:
  the admission gate appends intents, the sequencer closes slots over them on a timer, the
  attester signs committed slots inside a (mocked) enclave, the prover batches attested slots into
  proofs, and a projector rebuilds from the log the read model that status and receipts are
  answered from. Every task resumes its position from the log on start.

  \<^bold>\<open>Data and effects.\<close> A struct is a record, an enum a datatype, an integer a word of its width, so
  arithmetic wraps as the release profile's does and the bounds are hypotheses where they matter. A
  \<open>Result\<close> is a sum with \<open>Err\<close> and \<open>Ok\<close> for its sides, and a panic is \<open>None\<close>. Each task is the state its
  loop keeps (its struct and the local variables of \<open>run\<close>) with one function per branch of its
  \<open>select!\<close>, taking and returning the state and the log. The log is a record of operations, as the
  code is generic in \<open>IntentLog\<close>. The wall clock is an argument of the function that reads it. Keccak256,
  the \<open>hex\<close> crate, the enclave, the proof backend, \<open>redb\<close> and \<open>postcard\<close> are parameters: the hash is
  the argument \<open>K\<close>, and a theorem that needs collision resistance concludes with the collision
  instead of assuming there is none.

  \<^bold>\<open>Theories.\<close>
  \<^item> \<open>Prelude\<close>: words, results, byte arrays, little-endian encodings, strings and decimal digits, the hasher.
    \<open>Ordered_Map\<close>: \<open>BTreeMap\<close> as the locale \<open>ordered_map\<close>, met by association lists in key order.
  \<^item> \<open>Intent\<close> (\<^verbatim>\<open>src/src/intent.rs\<close>), \<open>Log_Entry\<close> and \<open>Intent_Log\<close> (\<^verbatim>\<open>src/src/log.rs\<close>): intents and
    their content-derived id, the entries, the trait as the locales \<open>intent_log\<close> and
    \<open>reliable_log\<close>, and \<open>MemLog\<close>. \<open>Redb_Log\<close>, \<open>Redb_Contract\<close> and \<open>Redb_Properties\<close>: the durable log
    over a store and a codec, that it meets \<open>intent_log\<close> when they obey their laws, that reopening resumes it,
    and where a fault of the store makes it depart from the contract.
  \<^item> \<open>Guarantee\<close>, \<open>Ordering\<close>, \<open>Ordering_Policy\<close>, \<open>Sequencer\<close> (\<^verbatim>\<open>src/src/sequencer.rs\<close>): the
    inclusion window, the slot order with its queues and merge, the abstract policy it refines,
    the sequencer's recovery, doorbell and tick. \<open>Ordering_Properties\<close>, \<open>Sequencer_Properties\<close>.
  \<^item> \<open>Admission\<close> (\<^verbatim>\<open>src/src/admission.rs\<close>): the gate, its rejections and its recovery.
    \<open>Admission_Properties\<close>.
  \<^item> \<open>Slot_Log\<close>: views of a log by slot, shared by the attester and the prover: \<open>well_ruled\<close> logs commit
    the slots in order and rule on a prefix of them in order.
  \<^item> \<open>Attest\<close> (\<^verbatim>\<open>src/src/attest.rs\<close>): quotes, the verifier, the attester over any enclave, its recovery,
    the mock enclave. The locale \<open>honest_enclave\<close> states what an enclave owes. \<open>Attest_Properties\<close>.
  \<^item> \<open>Prove\<close> (\<^verbatim>\<open>src/src/prove/mod.rs\<close>): the prover over any backend, its recovery, the mock backend.
    \<open>Prove_Batching\<close>: the abstract batching the prover refines. \<open>Prove_Recovery\<close>: the relation \<open>in_step\<close>
    between a prover and its log, and the locale \<open>proof_system\<close>. \<open>Prover_Task\<close>: the task's invariant
    in the locale \<open>proving\<close>. \<open>Prove_Properties\<close>.
  \<^item> \<open>Receipt\<close>, \<open>Projection\<close> (\<^verbatim>\<open>src/src/receipt.rs\<close>, \<^verbatim>\<open>src/src/projection.rs\<close>): the read model.
    \<open>Projection_Rows\<close>: the row of one slot and of one intent as folds over the log. \<open>Api\<close>
    (\<^verbatim>\<open>src/src/api.rs\<close>): the handlers. \<open>Projection_Properties\<close>.
  \<^item> \<open>Wire\<close>: the JSON the derived \<open>Serialize\<close> of each response type writes, as the fields in the order
    they are written and as the value a client parses, and what the wire keeps of a receipt. \<open>Http\<close>: replies
    and the router, from a matched route on. \<open>Wire_Schema\<close>: a schema with one shape per status, and that
    the receipts of the running pipeline have it.
  \<^item> \<open>Startup\<close> (\<^verbatim>\<open>src/src/main.rs\<close>): the parsing of \<open>FAIL_SLOTS\<close> and the configuration.
  \<^item> \<open>Pipeline\<close>: all tasks on one \<open>MemLog\<close> as a step relation at the granularity of one append.
    \<open>Pipeline_Inv\<close>, \<open>Pipeline_Tasks\<close>, \<open>Pipeline_Safety\<close>: the invariant of each task, kept by the
    steps of every other, and \<open>pipe_inv\<close>, which every reachable state has. \<open>Settlement\<close>: what is
    left to do for each intent. \<open>Pipeline_Restart\<close>: a restart of the process, which keeps nothing but the
    log, yields a state with the same invariants. \<open>Pipeline_Liveness\<close>: the tasks can always settle what
    is left. \<open>Status_Order\<close>, \<open>Pipeline_Finality\<close>: each slot is proven once, so no status goes back. \<open>Pipeline_Run\<close>: the pipeline \<open>main\<close> starts, and a run.
    \<open>Final_Receipt\<close>: the parts of a final receipt agree with each other.
  \<^item> \<open>Testkit\<close> (\<^verbatim>\<open>src/src/testkit.rs\<close>) and the theories named \<open>_Tests\<close>: the unit tests of each module as
    functions that compute what the test asserts, each proved to hold. A test that spawns a task is the
    task's turns on its log, and holds for every number of turns or every sequence of wake-ups it states; a
    test of \<open>RedbLog\<close> holds on every store that obeys its laws and does not fail. \<open>Unit_Tests\<close>: the suite.
  \<^item> \<open>Ordering_Attacks\<close>, \<open>Admission_Attacks\<close>, \<open>Receipt_Attacks\<close> (\<^verbatim>\<open>src/tests/adversarial.rs\<close>): the attacks of
    hostile submitters and of a hostile sequencer, with the threads of a test as every interleaving of their
    submissions. \<open>Task_Tests\<close>, \<open>Pipeline_Tests\<close> (\<^verbatim>\<open>src/tests/pipeline.rs\<close>): the tests of single tasks, for every
    sequence of their turns, and those that wait for the whole pipeline, for every run of it.
    \<open>Integration_Tests\<close>: the suite.
  \<^bold>\<open>What is shown.\<close> Of each component, what it computes on every branch and that its recovery from
  the log resumes it; of the order, that it is the abstract policy; of the pipeline, for every
  interleaving, that no intent is sequenced twice or both sequenced and expired, that the
  guarantee is kept, that slots are committed, attested and proven in order, that the evidence in a
  receipt verifies, that no task can fail, that a restart always succeeds and keeps all of this (but for
  a process that stops inside a slot close with expiries), and that from every reachable state the tasks can settle every
  intent that was received, without a further submission, and that no answered status is ever taken back; of
  the responses, that a client can tell every
  case apart from what it parses.

  \<^bold>\<open>Bounds.\<close> No function runs on fuel: the loops are structural or end by a measure. Positions are \<open>u64\<close>; the
  pipeline's steps are those that leave fewer than \<open>2^64\<close> entries in the log (\<open>log_fits\<close>), and theorems
  on a single log state that bound as a hypothesis. Draining \<open>N\<close> entries appends at most a fixed multiple
  of them, so \<open>pipeline_drains\<close> asks for that much room below \<open>2^64\<close>. Overflow of the guarantee window is \<open>window_fits\<close>,
  of the mock prover's latency \<open>mock_latency_ok\<close>.

  \<^bold>\<open>Not modelled.\<close> The tokio runtime, \<open>watch\<close> channels beyond the positions sent, timers beyond that a tick
  may come at any time; axum's matching of routes and its extractors, reading an intent from JSON; the
  listener and the \<open>select!\<close> of \<open>main\<close>; the loss of a \<open>MemLog\<close> with its process (a restart of the model finds
  the log as it was, as one on \<open>RedbLog\<close> does); the poisoning of locks; the waits and timeouts of the tests; the
  benchmarks, which measure time.
\<close>

section \<open>The pipeline as a whole\<close>



text \<open>
  C2: The inclusion guarantee, end to end. In every reachable state, every intent of a committed
  slot was received with its window still open when the slot closed, and the slot's commitment is
  over exactly its ordered ids; every expiry is of a received intent, names the deadline its
  window gave, and was written after that deadline had passed.
\<close>

theorem pipeline_keeps_guarantee:
  assumes "reachable K (pipeline_start g en backend cfg) s" "mock_latency_ok backend" "0 < bc_batch_size cfg"
  shows "(\<forall>slot ids p c t. SlotCommitted slot ids p c t \<in> set (pl_entries s) \<longrightarrow>
      c = commit K slot ids \<and>
      (\<forall>i \<in> set ids. \<exists>intent r. IntentReceived i intent r \<in> set (pl_entries s) \<and> t \<le> deadline_for g r)) \<and>
    (\<forall>i d t. IntentExpired i d t \<in> set (pl_entries s) \<longrightarrow>
      (\<exists>intent r. IntentReceived i intent r \<in> set (pl_entries s) \<and> d = deadline_for g r \<and> d < t))"
proof -
  have fine: "\<forall>e \<in> set (pl_entries s). seq_entry_fine K g (pl_entries s) e"
    using reachable_inv [OF assms] by (simp add: pipe_inv_def seq_inv_def)
  show ?thesis
    using fine by (fastforce simp: seq_entry_fine_def)
qed

theorem pipeline_keeps_guarantee_witness:
  "\<exists>intent r. IntentReceived run_id intent r \<in> set [run_received, run_committed, run_attested] \<and>
     TEST_NOW \<le> deadline_for guarantee_default r"
proof -
  obtain s where s: "reachable run_K run_start s" "pl_entries s = [run_received, run_committed, run_attested]"
    using run_reaches by blast
  have "SlotCommitted 0 [run_id] (Position 1) run_commitment TEST_NOW \<in> set (pl_entries s)"
    by (simp add: s(2) run_committed_def)
  then show ?thesis
    using pipeline_keeps_guarantee [OF s(1) [unfolded run_start_def] run_hypotheses] s(2) by fastforce
qed

text \<open>
  C13: Order. In every reachable state the log commits the slots \<open>0, 1, ...\<close> without a gap or a
  repetition, and rules on a prefix of them in the same order, each after its commit.
\<close>

theorem pipeline_orders_slots:
  assumes "reachable K (pipeline_start g en backend cfg) s" "mock_latency_ok backend" "0 < bc_batch_size cfg"
  shows "\<exists>k n. k \<le> n \<and> ruled_slots (pl_entries s) = slot_run 0 k \<and>
    committed_slots (pl_entries s) = slot_run 0 n"
proof -
  have "well_ruled (pl_entries s)"
    using reachable_inv [OF assms] by (simp add: pipe_inv_def)
  then show ?thesis
    by (metis well_ruled_obtains order_refl take_all)
qed

theorem pipeline_orders_slots_witness:
  "\<exists>k n. k \<le> n \<and> ruled_slots [run_received, run_committed, run_attested] = slot_run 0 k \<and>
     committed_slots [run_received, run_committed, run_attested] = slot_run 0 n"
proof -
  obtain s where s: "reachable run_K run_start s" "pl_entries s = [run_received, run_committed, run_attested]"
    using run_reaches by blast
  show ?thesis
    using pipeline_orders_slots [OF s(1) [unfolded run_start_def] run_hypotheses] s(2) by simp
qed

text \<open>
  C7: The evidence in a receipt verifies. In every reachable state, a preconfirmation that the read
  model hands out for an intent verifies, with the verifier that pins the enclave's build, against
  the ordered intents of the slot it names, and the intent is among them.
\<close>

theorem receipt_preconf_verifies:
  assumes "reachable K (pipeline_start g en backend cfg) s" "mock_latency_ok backend" "0 < bc_batch_size cfg"
    and "receipt_of hex (pl_proj s) i now_ms = Some r" "rc_preconf r = Some pf"
  shows "\<exists>intents q. pf_quote pf = hex q \<and> i \<in> set intents \<and>
    verify_preconf K (mock_verifier K (me_measurement en))
      \<lparr>pc_slot = pf_slot pf, pc_commitment = pf_commitment pf, pc_quote = q,
       pc_signature = pf_signature pf\<rparr> intents = Ok ()"
proof -
  note inv = reachable_inv [OF assms(1-3)]
  then obtain k where proj: "pl_proj s = project g (take k (pl_entries s))"
    and fine: "attestations_fine K (me_measurement en) (pl_entries s)"
    by (auto simp: pipe_inv_def att_inv_def)
  obtain ids p t q where com: "SlotCommitted (pf_slot pf) ids p (pf_commitment pf) t \<in> set (pl_entries s)"
    and i: "i \<in> set ids" and att: "SlotAttested (pf_slot pf) q (pf_signature pf) \<in> set (pl_entries s)"
    and q: "pf_quote pf = hex q"
    by (rule receipt_preconf_traced [OF pipe_inv_distinct_slots [OF inv] set_take_subset
          assms(4) [unfolded proj] assms(5)])
  from fine att obtain intents p' c t' where
    com': "SlotCommitted (pf_slot pf) intents p' c t' \<in> set (pl_entries s)"
    and ok: "verify_preconf K (mock_verifier K (me_measurement en))
      \<lparr>pc_slot = pf_slot pf, pc_commitment = c, pc_quote = q, pc_signature = pf_signature pf\<rparr> intents = Ok ()"
    unfolding attestations_fine_def by blast
  from committed_once [OF pipe_inv_distinct_slots [OF inv] com com'] ok i q show ?thesis
    by (intro exI [of _ ids] exI [of _ q]) simp
qed

theorem receipt_preconf_verifies_witness:
  "\<exists>intents q. run_id \<in> set intents \<and> pf_quote
      \<lparr>pf_slot = 0, pf_commitment = run_commitment, pf_quote = [], pf_signature = run_signature\<rparr> = [] \<and>
    verify_preconf run_K (mock_verifier run_K MOCK_MEASUREMENT)
      \<lparr>pc_slot = 0, pc_commitment = run_commitment, pc_quote = q, pc_signature = run_signature\<rparr>
      intents = Ok ()"
proof -
  obtain s where s: "reachable run_K run_start s"
    "pl_proj s = project guarantee_default [run_received, run_committed, run_attested]"
    using run_reaches by blast
  have "\<exists>r. receipt_of (\<lambda>_. []) (pl_proj s) run_id TEST_NOW = Some r \<and> rc_preconf r =
      Some \<lparr>pf_slot = 0, pf_commitment = run_commitment, pf_quote = [], pf_signature = run_signature\<rparr>"
    by (simp add: s(2) project_def run_received_def run_committed_def run_attested_def
        projection_apply_def projections_new_def modify_def receipt_of_def lifecycle_of_def
        receipt_preconf_def attest_row_def Let_def)
  then show ?thesis
    using receipt_preconf_verifies [OF s(1) [unfolded run_start_def] run_hypotheses]
    by (fastforce simp: mock_enclave_new_def)
qed

text \<open>
  C10: The JSON of a receipt. In every reachable state, every receipt the read model hands out is,
  as the client parses it, of the schema for its status: received and expired intents have no place
  and no evidence, sequenced ones a place and a met guarantee, preconfirmed ones also an attestation,
  final ones also a proof. The document is unambiguous: where it writes \<open>deadline_ms\<close> twice, both are
  the deadline the guarantee gave.
\<close>

theorem receipt_wire_typed:
  assumes "reachable K (pipeline_start g en backend cfg) s" "mock_latency_ok backend" "0 < bc_batch_size cfg"
    and "receipt_of hex (pl_proj s) i now_ms = Some r"
  shows "conforms receipt_schema (to_value (receipt_json hex r)) \<and> unambiguous (receipt_json hex r)"
proof -
  have "receipt_shaped r"
    by (rule pipeline_receipt_shaped [OF reachable_inv [OF assms(1-3)] assms(4)])
  then show ?thesis
    using receipt_shaped_conforms receipt_shaped_unambiguous by blast
qed

theorem receipt_wire_typed_witness:
  "\<exists>r. receipt_of plain_hex (project guarantee_default [run_received, run_committed, run_attested]) run_id
      TEST_NOW = Some r \<and> conforms receipt_schema (to_value (receipt_json plain_hex r))"
proof -
  obtain s where s: "reachable run_K run_start s"
    "pl_proj s = project guarantee_default [run_received, run_committed, run_attested]"
    using run_reaches by blast
  have "\<exists>r. receipt_of plain_hex (pl_proj s) run_id TEST_NOW = Some r"
    by (simp add: s(2) project_def run_received_def run_committed_def run_attested_def
        projection_apply_def projections_new_def modify_def receipt_of_def lifecycle_of_def
        receipt_preconf_def attest_row_def Let_def)
  then show ?thesis
    using receipt_wire_typed [OF s(1) [unfolded run_start_def] run_hypotheses] by (fastforce simp: s(2))
qed



text \<open>
  C11: What the proofs cover. In every reachable state every proof, or recorded proving failure, in
  the log is about a non-empty batch, no larger than configured, of consecutive slots each of which
  was committed with those contents and attested; a proof verifies against exactly that batch, a slot
  that failed attestation is in none, and no slot is in the range of two entries, whether or not the
  prover restarted in between.
\<close>

theorem pipeline_proofs_cover:
  assumes "reachable K (pipeline_start g en backend cfg) s" "mock_latency_ok backend" "0 < bc_batch_size cfg"
    and "e \<in> set (pl_entries s)" "proved_upto e \<noteq> None"
  shows "\<exists>batch. batch \<noteq> [] \<and> length batch \<le> bc_batch_size cfg \<and> contiguous batch \<and>
    (\<forall>c \<in> set batch. logged (pl_entries s) c \<and> (\<exists>q g. SlotAttested (cs_slot c) q g \<in> set (pl_entries s))) \<and>
    discharged (mock_prove_ops K) batch e \<and>
    (\<forall>f \<in> set (pl_entries s). \<forall>slot. ends e slot \<longrightarrow> ends f slot \<longrightarrow> f = e)"
proof -
  have "proof_fine (mock_prove_ops K) (bc_batch_size cfg) (pl_entries s) e"
    using reachable_inv [OF assms(1-3)] assms(4,5) by (simp add: pipe_inv_def proofs_fine_def)
  then obtain batch where batch: "batch \<noteq> []" "length batch \<le> bc_batch_size cfg" "contiguous batch"
    "\<forall>c \<in> set batch. verdict_logged (pl_entries s) (Some c)" "discharged (mock_prove_ops K) batch e"
    unfolding proof_fine_def by blast
  have once: "\<forall>f \<in> set (pl_entries s). \<forall>slot. ends e slot \<longrightarrow> ends f slot \<longrightarrow> f = e"
    using well_proven_once [OF reachable_well_proven [OF assms(1-3)] assms(4)] by blast
  have "\<forall>c \<in> set batch. logged (pl_entries s) c \<and> (\<exists>q g. SlotAttested (cs_slot c) q g \<in> set (pl_entries s))"
    using batch(4) by (simp add: verdict_logged_def)
  with batch once show ?thesis
    by (intro exI [of _ batch] conjI)
qed

theorem pipeline_proofs_cover_witness:
  "\<exists>s e batch. reachable run_K run_start s \<and> e \<in> set (pl_entries s) \<and> proved_upto e = Some 0 \<and>
     batch \<noteq> [] \<and> discharged (mock_prove_ops run_K) batch e"
proof -
  obtain s e where s: "reachable run_K run_start s" "e \<in> set (pl_entries s)" "proved_upto e = Some 0"
    using run_proves by blast
  then have "proved_upto e \<noteq> None" by simp
  from pipeline_proofs_cover [OF s(1) [unfolded run_start_def] run_hypotheses s(2) this] s
  show ?thesis by blast
qed





text \<open>
  C35: A torn slot close. When the process stops after an expiry was appended and before the slot of
  the same close was, the restarted sequencer buffers the expired intent again, for it reads on from
  where the slot before had read. Its next close expires the intent a second time, or, when the
  clock it reads was set back to before the deadline, sequences an intent that already expired.
\<close>

theorem torn_close_expires_again:
  assumes "reachable K (pipeline_start g en backend cfg) s" "mock_latency_ok backend" "0 < bc_batch_size cfg"
    and "i \<in> set (open_expired (pl_entries s))"
    and "pipeline_recover g en' backend' cfg' (pl_log s) = Some s'"
    and "seq_on_doorbell mem_ops (pl_log s') (pl_seq s') = Ok q"
  shows "\<exists>d t. IntentExpired i d t \<in> set (pl_entries s) \<and>
    (if now \<le> d then i \<in> set (tick_intents now q) else IntentExpired i d now \<in> set (tick_expired now q))"
proof -
  let ?es = "pl_entries s"
  from reachable_all [OF assms(1-3)] have inv: "pipe_inv K g (me_measurement en) (bc_batch_size cfg) s"
    and log: "seq_log_inv ?es"
    by (simp_all add: resume_inv_def)
  from assms(5) have "seq_start mem_ops g (pl_log s) = Ok (pl_seq s')" "pl_log s' = pl_log s"
    by (auto simp: pipeline_recover_Some)
  with torn_close_rebuffers [OF inv log assms(4) this(1)] assms(6) obtain intent r
    where rec: "IntentReceived i intent r \<in> set ?es" and q: "sq_guarantee q = g"
      "pending_new i intent r \<in> set (sq_buffer q)"
    by auto
  obtain d t where e: "IntentExpired i d t \<in> set ?es"
    using open_expired_logged [OF assms(4)] by blast
  moreover have "d = deadline_for g r"
    by (rule pipe_inv_deadline [OF inv e rec])
  ultimately show ?thesis
    using q by (intro exI [of _ d] exI [of _ t]) (force simp: tick_intents_mem tick_expired_mem not_le)
qed

theorem torn_close_expires_again_witness:
  "\<exists>s s' q. reachable run_K run_start s \<and>
     pipeline_recover guarantee_default mock_enclave_new mock_prover_new main_batch_config (pl_log s) = Some s' \<and>
     seq_on_doorbell mem_ops (pl_log s') (pl_seq s') = Ok q \<and>
     IntentExpired run_id TEST_NOW (TEST_NOW + 1) \<in> set (pl_entries s) \<and> run_id \<in> set (tick_intents TEST_NOW q)"
proof -
  obtain s where s: "reachable run_K run_start s" "pl_entries s = [run_received, run_expired]"
    using run_tears by blast
  from reachable_all [OF s(1) [unfolded run_start_def] run_hypotheses]
    pipeline_recovers [of run_K guarantee_default "me_measurement mock_enclave_new" _ s mock_enclave_new
      mock_prover_new main_batch_config] run_hypotheses(1)
  obtain s' where s': "pipeline_recover guarantee_default mock_enclave_new mock_prover_new main_batch_config
      (pl_log s) = Some s'"
    by blast
  obtain q where q: "seq_on_doorbell mem_ops (pl_log s') (pl_seq s') = Ok q"
    by (simp add: seq_on_doorbell_def mem_read_from_eq)
  have "run_id \<in> set (open_expired (pl_entries s))"
    by (simp add: s(2) open_expired_def run_received_def run_expired_def)
  from torn_close_expires_again [OF s(1) [unfolded run_start_def] run_hypotheses this s' q, of TEST_NOW]
  have "run_id \<in> set (tick_intents TEST_NOW q)"
    by (auto simp: s(2) run_received_def run_expired_def split: if_splits)
  with s s' q show ?thesis
    by (auto simp: run_expired_def)
qed

text \<open>
  C5: No status is taken back. Once the read model has answered a client's question about an intent,
  every later answer, after any further steps of the tasks and the clients, is about the same slot and
  at the same point of the lifecycle or a later one; an intent that expired, was proven or failed
  stays so. A restart rebuilds the read model from nothing, so between two answers there is none.
\<close>

theorem pipeline_status_advances:
  assumes "reachable K (pipeline_start g en backend cfg) s" "mock_latency_ok backend" "0 < bc_batch_size cfg"
    and "(pipe_step K)\<^sup>*\<^sup>* s s'" "status_of (pl_proj s) i = Some st"
  shows "\<exists>st'. status_of (pl_proj s') i = Some st' \<and>
    lifecycle_after (st_lifecycle st) (st_lifecycle st') \<and>
    (lifecycle_ended (st_lifecycle st) \<longrightarrow> st_lifecycle st' = st_lifecycle st) \<and>
    (st_slot st \<noteq> None \<longrightarrow> st_slot st' = st_slot st)"
proof -
  have "\<exists>st'. status_of (pl_proj s') i = Some st' \<and> status_after st st'"
    using assms(4)
  proof (induction rule: rtranclp_induct)
    case base
    with assms(5) show ?case by simp
  next
    case (step y z)
    then show ?case
      using status_step [OF steps_reachable [OF step.hyps(1) assms(1)] assms(2,3) step.hyps(2)]
        status_after_trans by blast
  qed
  then show ?thesis
    using lifecycle_ended_stays by (fastforce simp: status_after_def)
qed

theorem pipeline_status_advances_witness:
  "\<exists>s st. reachable run_K run_start s \<and> status_of (pl_proj s) run_id = Some st \<and>
     lifecycle_after (st_lifecycle st) (st_lifecycle st)"
proof -
  obtain s where s: "reachable run_K run_start s"
    "pl_proj s = project guarantee_default [run_received, run_committed, run_attested]"
    using run_reaches by blast
  have "run_id \<in> set (received_ids [run_received, run_committed, run_attested])"
    by (simp add: run_received_def run_committed_def run_attested_def received_ids_def)
  then obtain st where st: "status_of (pl_proj s) run_id = Some st"
    using status_of_None [of guarantee_default "[run_received, run_committed, run_attested]" run_id]
    by (auto simp: s(2))
  from pipeline_status_advances [OF s(1) [unfolded run_start_def] run_hypotheses rtranclp.rtrancl_refl st]
  obtain st' where "status_of (pl_proj s) run_id = Some st'"
    "lifecycle_after (st_lifecycle st) (st_lifecycle st')"
    by blast
  with s(1) st show ?thesis
    by (intro exI [of _ s] exI [of _ st] conjI) simp_all
qed

end
